(* ===== verification/Prelude.thy ===== *)
theory Prelude
  imports Main "HOL-Library.Word" "HOL-Library.Multiset"
begin

text \<open>
  Shared vocabulary of the development: machine integer types, the outcome type of
  fallible operations, a small state monad with a total-correctness rule, the byte order
  functions of the C library on a little-endian host, and the list lemmas that several
  components use.
\<close>

unbundle bit_operations_syntax

named_theorems runs_rules \<open>introduction rules for total-correctness goals\<close>

section \<open>Machine integers and addresses\<close>

type_synonym byte = "8 word"
type_synonym u16 = "16 word"
type_synonym u32 = "32 word"
type_synonym u64 = "64 word"

text \<open>Addresses are natural numbers; the null pointer is 0, or \<open>None\<close> where the code keeps
  a pointer that it tests against null.\<close>

type_synonym addr = nat

text \<open>Addition of two \<open>uint32_t\<close> values held as natural numbers wraps at 2^32.\<close>

definition add32 :: "nat \<Rightarrow> nat \<Rightarrow> nat" where
  "add32 a b = (a + b) mod 2 ^ 32"

text \<open>Likewise for \<open>size_t\<close>, which wraps at 2^64.\<close>

definition add64 :: "nat \<Rightarrow> nat \<Rightarrow> nat" where
  "add64 a b = (a + b) mod 2 ^ 64"

definition sub64 :: "nat \<Rightarrow> nat \<Rightarrow> nat" where
  "sub64 a b = nat ((int a - int b) mod 2 ^ 64)"

section \<open>Outcomes\<close>

text \<open>
  Every way the C++ code can leave the defined behaviour is a value: a null or dangling
  pointer is followed, a \<open>CHECK\<close> fails or \<open>LOG(FATAL)\<close> calls \<open>abort\<close>, a union is read through
  the wrong member, a loop does not end.
\<close>

datatype fault = NullDeref | UseAfterFree | Aborted | UnionMisread | Diverges | OutOfBounds

type_synonym ('s, 'a) prog = "'s \<Rightarrow> fault + ('a \<times> 's)"

definition ret :: "'a \<Rightarrow> ('s, 'a) prog" where
  "ret x = (\<lambda>s. Inr (x, s))"

definition crash :: "fault \<Rightarrow> ('s, 'a) prog" where
  "crash e = (\<lambda>s. Inl e)"

definition bindp :: "('s, 'a) prog \<Rightarrow> ('a \<Rightarrow> ('s, 'b) prog) \<Rightarrow> ('s, 'b) prog" where
  "bindp m f = (\<lambda>s. case m s of Inl e \<Rightarrow> Inl e | Inr (x, s') \<Rightarrow> f x s')"

definition upd :: "('s \<Rightarrow> 's) \<Rightarrow> ('s, unit) prog" where
  "upd f = (\<lambda>s. Inr ((), f s))"

text \<open>\<open>runs m s Q\<close>: started in \<open>s\<close>, the program \<open>m\<close> returns without a fault, and its result
  and final state satisfy \<open>Q\<close>.\<close>

definition runs :: "('s, 'a) prog \<Rightarrow> 's \<Rightarrow> ('a \<Rightarrow> 's \<Rightarrow> bool) \<Rightarrow> bool" where
  "runs m s Q = (case m s of Inl _ \<Rightarrow> False | Inr (x, s') \<Rightarrow> Q x s')"

section \<open>Byte order\<close>

text \<open>The bytes of an integer in memory on a little-endian host, and the integer that four
  or two such bytes are read as.\<close>

definition le32 :: "u32 \<Rightarrow> byte list" where
  "le32 x = [ucast x, ucast (drop_bit 8 x), ucast (drop_bit 16 x), ucast (drop_bit 24 x)]"

definition le16 :: "u16 \<Rightarrow> byte list" where
  "le16 x = [ucast x, ucast (drop_bit 8 x)]"

fun unle32 :: "byte list \<Rightarrow> u32" where
  "unle32 [a, b, c, d] =
     ucast a OR push_bit 8 (ucast b) OR push_bit 16 (ucast c) OR push_bit 24 (ucast d)"
| "unle32 _ = 0"

fun unle16 :: "byte list \<Rightarrow> u16" where
  "unle16 [a, b] = ucast a OR push_bit 8 (ucast b)"
| "unle16 _ = 0"

text \<open>\<open>htonl\<close> and its kin swap bytes on such a host. \<open>ntohs\<close> takes a \<open>uint16_t\<close>, so an
  argument of 32 bits is first truncated.\<close>

definition htonl :: "u32 \<Rightarrow> u32" where
  "htonl x = unle32 (rev (le32 x))"

definition ntohl :: "u32 \<Rightarrow> u32" where
  "ntohl x = unle32 (rev (le32 x))"

definition htons :: "u16 \<Rightarrow> u16" where
  "htons x = unle16 (rev (le16 x))"

definition ntohs :: "u16 \<Rightarrow> u16" where
  "ntohs x = unle16 (rev (le16 x))"

text \<open>Big-endian encodings, the order on the wire.\<close>

definition be32 :: "u32 \<Rightarrow> byte list" where
  "be32 x = rev (le32 x)"

definition be16 :: "u16 \<Rightarrow> byte list" where
  "be16 x = rev (le16 x)"

section \<open>Generic lemmas\<close>

lemma add32_small [simp]: "a + b < 2 ^ 32 \<Longrightarrow> add32 a b = a + b"
  by (simp add: add32_def)

lemma add32_lt: "add32 a b < 2 ^ 32"
  by (simp add: add32_def)

lemma add64_small [simp]: "a + b < 2 ^ 64 \<Longrightarrow> add64 a b = a + b"
  by (simp add: add64_def)

lemma sub64_small [simp]: "b \<le> a \<Longrightarrow> a < 2 ^ 64 \<Longrightarrow> sub64 a b = a - b"
  by (simp add: sub64_def of_nat_diff [symmetric] del: of_nat_diff)

lemma list_all_last_butlast:
  "list_all P l \<Longrightarrow> l \<noteq> [] \<Longrightarrow> P (last l) \<and> list_all P (butlast l)"
  by (auto simp: list_all_iff dest: in_set_butlastD)

subsection \<open>Total correctness of programs\<close>

lemma runs_ret [runs_rules, simp]: "runs (ret x) s Q = Q x s"
  by (simp add: runs_def ret_def)

lemma runs_upd [runs_rules, simp]: "runs (upd f) s Q = Q () (f s)"
  by (simp add: runs_def upd_def)

lemma runs_crash [simp]: "\<not> runs (crash e) s Q"
  by (simp add: runs_def crash_def)

lemma runs_bindp [runs_rules]:
  "runs m s (\<lambda>x s'. runs (f x) s' Q) \<Longrightarrow> runs (bindp m f) s Q"
  by (auto simp: runs_def bindp_def split: sum.splits)

lemma runs_bindp_iff: "runs (bindp m f) s Q = runs m s (\<lambda>x s'. runs (f x) s' Q)"
  by (auto simp: runs_def bindp_def split: sum.splits)

lemma runs_mono: "runs m s P \<Longrightarrow> (\<And>x s'. P x s' \<Longrightarrow> Q x s') \<Longrightarrow> runs m s Q"
  by (auto simp: runs_def split: sum.splits)

lemma runs_conj: "runs m s P \<Longrightarrow> runs m s Q \<Longrightarrow> runs m s (\<lambda>x s'. P x s' \<and> Q x s')"
  by (auto simp: runs_def split: sum.splits)

lemma runs_iff: "runs m s Q \<longleftrightarrow> (\<exists>x s'. m s = Inr (x, s') \<and> Q x s')"
  by (auto simp: runs_def split: sum.splits)

lemma runs_then: "runs m s P \<Longrightarrow> (\<And>x s'. P x s' \<Longrightarrow> runs (f x) s' Q) \<Longrightarrow> runs (bindp m f) s Q"
  by (rule runs_bindp) (erule runs_mono)

subsection \<open>Byte order\<close>

lemma length_le32 [simp]: "length (le32 x) = 4"
  by (simp add: le32_def)

lemma length_le16 [simp]: "length (le16 x) = 2"
  by (simp add: le16_def)

lemma length_be32 [simp]: "length (be32 x) = 4"
  by (simp add: be32_def)

lemma length_be16 [simp]: "length (be16 x) = 2"
  by (simp add: be16_def)

lemma byte_bit_high [simp]: "8 \<le> n \<Longrightarrow> \<not> bit (b :: byte) n"
  by (auto dest: bit_imp_le_length)

lemma unle32_le32 [simp]: "unle32 (le32 x) = x"
proof (rule bit_word_eqI)
  fix n assume "n < LENGTH(32)"
  then consider "n < 8" | "8 \<le> n" "n < 16" | "16 \<le> n" "n < 24" | "24 \<le> n" "n < 32"
    by fastforce
  then show "bit (unle32 (le32 x)) n = bit x n"
    by cases (auto simp: le32_def bit_simps)
qed

lemma unle16_le16 [simp]: "unle16 (le16 x) = x"
proof (rule bit_word_eqI)
  fix n assume "n < LENGTH(16)"
  then consider "n < 8" | "8 \<le> n" "n < 16"
    by fastforce
  then show "bit (unle16 (le16 x)) n = bit x n"
    by cases (auto simp: le16_def bit_simps)
qed

lemma le32_unle32_quad:
  "le32 (unle32 [a, b, c, d]) = [a, b, c, d]"
  by (auto simp: le32_def bit_simps intro!: bit_word_eqI)

lemma le32_unle32 [simp]:
  assumes "length bs = 4"
  shows "le32 (unle32 bs) = bs"
proof -
  obtain a b c d where "bs = [a, b, c, d]"
    using assms by (auto simp: numeral_eq_Suc length_Suc_conv)
  then show ?thesis by (simp only: le32_unle32_quad)
qed

lemma le16_unle16 [simp]:
  assumes "length bs = 2"
  shows "le16 (unle16 bs) = bs"
proof -
  obtain a b where "bs = [a, b]"
    using assms by (auto simp: numeral_eq_Suc length_Suc_conv)
  moreover have "le16 (unle16 [a, b]) = [a, b]"
    by (auto simp: le16_def bit_simps intro!: bit_word_eqI)
  ultimately show ?thesis by (simp only:)
qed

lemma ntohl_htonl [simp]: "ntohl (htonl x) = x"
  by (simp add: ntohl_def htonl_def)

lemma ntohs_htons [simp]: "ntohs (htons x) = x"
  by (simp add: ntohs_def htons_def)

lemma le32_htonl [simp]: "le32 (htonl x) = be32 x"
  by (simp add: htonl_def be32_def)

lemma le16_htons [simp]: "le16 (htons x) = be16 x"
  by (simp add: htons_def be16_def)

lemma ntohl_unle32_be32 [simp]: "ntohl (unle32 (be32 x)) = x"
  by (simp add: ntohl_def be32_def)

lemma ntohs_unle16_be16 [simp]: "ntohs (unle16 (be16 x)) = x"
  by (simp add: ntohs_def be16_def)

section \<open>Slots of a ring\<close>

lemma mod_slots: "(a + j) mod L = (a + k) mod L \<Longrightarrow> j < L \<Longrightarrow> k < L \<Longrightarrow> j = (k :: nat)"
proof -
  assume e: "(a + j) mod L = (a + k) mod L" and lt: "j < L" "k < L"
  have "(int a + int j) mod int L = (int a + int k) mod int L" using arg_cong [OF e, of int] by (simp add: zmod_int)
  then have "(int a + int j - int a) mod int L = (int a + int k - int a) mod int L" by (rule mod_diff_cong) simp
  then show ?thesis using lt by simp
qed

lemma next_slot: "Suc (a mod L) = L \<Longrightarrow> Suc a mod L = 0" "Suc (a mod L) \<noteq> L \<Longrightarrow> 0 < L \<Longrightarrow> Suc a mod L = Suc (a mod (L :: nat))"
  by (simp_all add: mod_Suc)

end
