(* ===== verification/Large_Block.thy ===== *)
theory Large_Block
  imports Prelude
begin

text \<open>
  The per-thread cache of registered large memory blocks: \<open>src-common/fast_large_block.cc\<close>,
  and the older copies of the same cache in \<open>src-resource/fast_shared.cc\<close> and
  \<open>src-resource/fast_unique.cc\<close>. The singly linked list of nodes is a list. What
  \<open>posix_memalign\<close>, \<open>ibv_reg_mr\<close> and \<open>ibv_dereg_mr\<close> answer in a call is an argument of the
  operation; what the code asks of them beyond the answer (a block freed, a region
  deregistered) is recorded in a log.
\<close>

section \<open>State\<close>

record ibv_mr =
  mr_addr :: addr
  mr_length :: nat
  mr_lkey :: u32
  mr_rkey :: u32

record LargeBlockNode =
  nd_buf :: addr
  nd_size :: nat
  nd_mr :: ibv_mr

datatype lb_event = Deregistered ibv_mr | Freed addr

record large_tls =
  tls_large_block_list :: "LargeBlockNode list"
  tls_large_block_num :: int
  tls_large_inited :: bool
  lb_callbacks :: nat
  lb_log :: "lb_event list"

definition kMaxCachedLargeBlocks :: int where
  "kMaxCachedLargeBlocks = 8"

definition large_tls_init :: large_tls where
  "large_tls_init = \<lparr>tls_large_block_list = [], tls_large_block_num = 0,
     tls_large_inited = False, lb_callbacks = 0, lb_log = []\<rparr>"

section \<open>Operations\<close>

text \<open>The first call on a thread registers the exit callback.\<close>

definition lb_register_exit :: "large_tls \<Rightarrow> large_tls" where
  "lb_register_exit s = (if tls_large_inited s then s
     else s\<lparr>tls_large_inited := True, lb_callbacks := Suc (lb_callbacks s)\<rparr>)"

text \<open>The walk \<open>while (cur != nullptr && cur->size < size)\<close> followed by unlinking \<open>cur\<close>.\<close>

fun lb_unlink_fit :: "nat \<Rightarrow> LargeBlockNode list \<Rightarrow> (LargeBlockNode \<times> LargeBlockNode list) option" where
  "lb_unlink_fit sz [] = None"
| "lb_unlink_fit sz (cur # rest) =
     (if nd_size cur < sz
      then (case lb_unlink_fit sz rest of None \<Rightarrow> None | Some (hit, l) \<Rightarrow> Some (hit, cur # l))
      else Some (cur, rest))"

definition LargeBlockAlloc ::
  "addr option \<Rightarrow> ibv_mr option \<Rightarrow> nat \<Rightarrow> (large_tls, ibv_mr option) prog" where
  "LargeBlockAlloc memalign reg sz = (\<lambda>s0. let s = lb_register_exit s0 in
     case lb_unlink_fit sz (tls_large_block_list s) of
       Some (cur, rest) \<Rightarrow>
         Inr (Some (nd_mr cur),
              s\<lparr>tls_large_block_list := rest, tls_large_block_num := tls_large_block_num s - 1\<rparr>)
     | None \<Rightarrow>
         (case memalign of
            None \<Rightarrow> Inr (None, s)
          | Some buf \<Rightarrow>
              (case reg of
                 None \<Rightarrow> Inr (None, s\<lparr>lb_log := lb_log s @ [Freed buf]\<rparr>)
               | Some mr \<Rightarrow> Inr (Some mr, s))))"

text \<open>The walk \<open>while (cur->next != nullptr && cur->next->size <= size)\<close>, on the nodes after
  the head.\<close>

fun lb_insert_walk :: "LargeBlockNode \<Rightarrow> LargeBlockNode list \<Rightarrow> LargeBlockNode list" where
  "lb_insert_walk node [] = [node]"
| "lb_insert_walk node (x # xs) =
     (if nd_size x \<le> nd_size node then x # lb_insert_walk node xs else node # x # xs)"

fun LargeBlockInsertSorted :: "LargeBlockNode list \<Rightarrow> LargeBlockNode \<Rightarrow> LargeBlockNode list" where
  "LargeBlockInsertSorted [] node = [node]"
| "LargeBlockInsertSorted (h # t) node =
     (if nd_size node < nd_size h then node # h # t else h # lb_insert_walk node t)"

fun LargeBlockFindBestFit :: "LargeBlockNode list \<Rightarrow> nat \<Rightarrow> LargeBlockNode option" where
  "LargeBlockFindBestFit [] sz = None"
| "LargeBlockFindBestFit (cur # rest) sz =
     (if nd_size cur < sz then LargeBlockFindBestFit rest sz else Some cur)"

text \<open>Unlinking the last node; a list of fewer than two nodes has none to unlink.\<close>

fun LargeBlockPopLast :: "LargeBlockNode list \<Rightarrow> (LargeBlockNode \<times> LargeBlockNode list) option" where
  "LargeBlockPopLast [] = None"
| "LargeBlockPopLast [x] = None"
| "LargeBlockPopLast [x, y] = Some (y, [x])"
| "LargeBlockPopLast (x # y # z # r) =
     (case LargeBlockPopLast (y # z # r) of None \<Rightarrow> None | Some (n, l) \<Rightarrow> Some (n, x # l))"

text \<open>\<open>ReturnLargeBlock\<close>: insert by sz, and evict the largest block when the cache holds more
  than its bound. With a single node \<open>to_free\<close> would be null.\<close>

definition ReturnLargeBlock ::
  "(ibv_mr \<Rightarrow> int) \<Rightarrow> ibv_mr option \<Rightarrow> (large_tls, unit) prog" where
  "ReturnLargeBlock dereg mro = (\<lambda>s0. case mro of None \<Rightarrow> Inr ((), s0) | Some mr \<Rightarrow>
     let s1 = lb_register_exit s0;
         node = \<lparr>nd_buf = mr_addr mr, nd_size = mr_length mr, nd_mr = mr\<rparr>;
         l = LargeBlockInsertSorted (tls_large_block_list s1) node;
         s2 = s1\<lparr>tls_large_block_list := l, tls_large_block_num := tls_large_block_num s1 + 1\<rparr>
     in if tls_large_block_num s2 > kMaxCachedLargeBlocks then
          (case LargeBlockPopLast l of
             None \<Rightarrow> Inl NullDeref
           | Some (to_free, l') \<Rightarrow>
               if dereg (nd_mr to_free) = 0 then
                 Inr ((), s2\<lparr>tls_large_block_list := l',
                            tls_large_block_num := tls_large_block_num s2 - 1,
                            lb_log := lb_log s2 @ [Deregistered (nd_mr to_free), Freed (nd_buf to_free)]\<rparr>)
               else Inl Aborted)
        else Inr ((), s2))"

fun lb_recycle_walk :: "(ibv_mr \<Rightarrow> int) \<Rightarrow> LargeBlockNode list \<Rightarrow> lb_event list \<Rightarrow> fault + lb_event list" where
  "lb_recycle_walk dereg [] log = Inr log"
| "lb_recycle_walk dereg (n # ns) log =
     (if dereg (nd_mr n) = 0
      then lb_recycle_walk dereg ns (log @ [Deregistered (nd_mr n), Freed (nd_buf n)])
      else Inl Aborted)"

definition RecycleTLSLargeBlocks :: "(ibv_mr \<Rightarrow> int) \<Rightarrow> (large_tls, unit) prog" where
  "RecycleTLSLargeBlocks dereg = (\<lambda>s.
     case lb_recycle_walk dereg (tls_large_block_list s) (lb_log s) of
       Inl e \<Rightarrow> Inl e
     | Inr log \<Rightarrow> Inr ((), s\<lparr>tls_large_block_list := [], tls_large_block_num := 0, lb_log := log\<rparr>))"

section \<open>The older best-fit search\<close>

text \<open>
  \<open>SharedResource::LargeBlockAlloc\<close> walks the whole list with \<open>prev\<close> and \<open>cur\<close> and remembers the
  predecessor of the best candidate. Nodes are positions: \<open>best_prev = None\<close> is the null
  pointer, which is also what the head's predecessor is.
\<close>

definition SIZE_MAX :: nat where
  "SIZE_MAX = 2 ^ 64 - 1"

fun best_fit_scan ::
  "nat \<Rightarrow> nat option \<Rightarrow> nat \<Rightarrow> LargeBlockNode list \<Rightarrow> nat \<Rightarrow> nat option \<Rightarrow> nat option" where
  "best_fit_scan sz prev i [] best_diff best_prev = best_prev"
| "best_fit_scan sz prev i (cur # rest) best_diff best_prev =
     (if nd_size cur \<ge> sz \<and> nd_size cur - sz < best_diff
      then best_fit_scan sz (Some i) (Suc i) rest (nd_size cur - sz) prev
      else best_fit_scan sz (Some i) (Suc i) rest best_diff best_prev)"

definition SharedResource_LargeBlockAlloc ::
  "addr option \<Rightarrow> ibv_mr option \<Rightarrow> nat \<Rightarrow> (large_tls, ibv_mr option) prog" where
  "SharedResource_LargeBlockAlloc memalign reg sz = (\<lambda>s0.
     let s = lb_register_exit s0; l = tls_large_block_list s in
     case best_fit_scan sz None 0 l SIZE_MAX None of
       Some j \<Rightarrow>
         if Suc j < length l then
           Inr (Some (nd_mr (l ! Suc j)),
                s\<lparr>tls_large_block_list :=
                     (if j = 0 then drop (Suc (Suc j)) l else take (Suc j) l @ drop (Suc (Suc j)) l),
                  tls_large_block_num := tls_large_block_num s - 1\<rparr>)
         else Inl NullDeref
     | None \<Rightarrow>
         (case memalign of
            None \<Rightarrow> Inr (None, s)
          | Some buf \<Rightarrow>
              (case reg of
                 None \<Rightarrow> Inr (None, s\<lparr>lb_log := lb_log s @ [Freed buf]\<rparr>)
               | Some mr \<Rightarrow> Inr (Some mr, s))))"

text \<open>\<open>UniqueResource\<close> carries the same code, as do the two \<open>ReturnLargeBlock\<close> methods and the
  two \<open>RecycleTLSLargeBlocks\<close> functions of those files.\<close>

definition UniqueResource_LargeBlockAlloc ::
  "addr option \<Rightarrow> ibv_mr option \<Rightarrow> nat \<Rightarrow> (large_tls, ibv_mr option) prog" where
  "UniqueResource_LargeBlockAlloc memalign reg sz = (\<lambda>s0.
     let s = lb_register_exit s0; l = tls_large_block_list s in
     case best_fit_scan sz None 0 l SIZE_MAX None of
       Some j \<Rightarrow>
         if Suc j < length l then
           Inr (Some (nd_mr (l ! Suc j)),
                s\<lparr>tls_large_block_list :=
                     (if j = 0 then drop (Suc (Suc j)) l else take (Suc j) l @ drop (Suc (Suc j)) l),
                  tls_large_block_num := tls_large_block_num s - 1\<rparr>)
         else Inl NullDeref
     | None \<Rightarrow>
         (case memalign of
            None \<Rightarrow> Inr (None, s)
          | Some buf \<Rightarrow>
              (case reg of
                 None \<Rightarrow> Inr (None, s\<lparr>lb_log := lb_log s @ [Freed buf]\<rparr>)
               | Some mr \<Rightarrow> Inr (Some mr, s))))"

definition SharedResource_ReturnLargeBlock ::
  "(ibv_mr \<Rightarrow> int) \<Rightarrow> ibv_mr option \<Rightarrow> (large_tls, unit) prog" where
  "SharedResource_ReturnLargeBlock = ReturnLargeBlock"

definition UniqueResource_ReturnLargeBlock ::
  "(ibv_mr \<Rightarrow> int) \<Rightarrow> ibv_mr option \<Rightarrow> (large_tls, unit) prog" where
  "UniqueResource_ReturnLargeBlock = ReturnLargeBlock"

section \<open>The invariant of the cache\<close>

text \<open>The list is sorted by size, the counter is its length and within the bound, and every
  node records its region's address and length.\<close>

definition lb_node_ok :: "LargeBlockNode \<Rightarrow> bool" where
  "lb_node_ok n = (nd_buf n = mr_addr (nd_mr n) \<and> nd_size n = mr_length (nd_mr n))"

definition lb_inv :: "large_tls \<Rightarrow> bool" where
  "lb_inv s = (sorted (map nd_size (tls_large_block_list s)) \<and>
     tls_large_block_num s = int (length (tls_large_block_list s)) \<and>
     tls_large_block_num s \<le> kMaxCachedLargeBlocks \<and>
     list_all lb_node_ok (tls_large_block_list s))"

abbreviation lb_cached :: "large_tls \<Rightarrow> ibv_mr multiset" where
  "lb_cached s \<equiv> mset (map nd_mr (tls_large_block_list s))"

section \<open>Lemmas\<close>

lemma lb_register_exit_simps [simp]:
  "tls_large_block_list (lb_register_exit s) = tls_large_block_list s"
  "tls_large_block_num (lb_register_exit s) = tls_large_block_num s"
  "lb_log (lb_register_exit s) = lb_log s"
  "tls_large_inited (lb_register_exit s)"
  by (simp_all add: lb_register_exit_def)

lemma lb_unlink_fit_None: "lb_unlink_fit sz l = None \<longleftrightarrow> (\<forall>n \<in> set l. nd_size n < sz)"
  by (induction l) (auto split: option.splits)

lemma lb_unlink_fit_Some:
  "lb_unlink_fit sz l = Some (hit, l') \<Longrightarrow>
   \<exists>xs ys. l = xs @ hit # ys \<and> l' = xs @ ys \<and> sz \<le> nd_size hit \<and> (\<forall>n \<in> set xs. nd_size n < sz)"
proof (induction l arbitrary: l')
  case Nil
  then show ?case by simp
next
  case (Cons a l)
  show ?case
  proof (cases "nd_size a < sz")
    case True
    with Cons.prems obtain l1 where l1: "lb_unlink_fit sz l = Some (hit, l1)" "l' = a # l1"
      by (auto split: option.splits)
    from Cons.IH [OF l1(1)] obtain xs ys where
      "l = xs @ hit # ys" "l1 = xs @ ys" "sz \<le> nd_size hit" "\<forall>n \<in> set xs. nd_size n < sz"
      by blast
    with True l1(2) have "a # l = (a # xs) @ hit # ys \<and> l' = (a # xs) @ ys \<and>
        sz \<le> nd_size hit \<and> (\<forall>n \<in> set (a # xs). nd_size n < sz)" by simp
    then show ?thesis by blast
  next
    case False
    with Cons.prems have "a # l = [] @ hit # l \<and> l' = [] @ l \<and> sz \<le> nd_size hit \<and>
        (\<forall>n \<in> set []. nd_size n < sz)" by auto
    then show ?thesis by blast
  qed
qed

lemma lb_unlink_fit_best:
  assumes "lb_unlink_fit sz l = Some (hit, l')" and "sorted (map nd_size l)"
  shows "hit \<in> set l" and "sz \<le> nd_size hit"
    and "\<And>n. n \<in> set l \<Longrightarrow> sz \<le> nd_size n \<Longrightarrow> nd_size hit \<le> nd_size n"
    and "mset l = add_mset hit (mset l')" and "sorted (map nd_size l')"
proof -
  from lb_unlink_fit_Some [OF assms(1)] obtain xs ys where l: "l = xs @ hit # ys" "l' = xs @ ys"
    "sz \<le> nd_size hit" "\<forall>n \<in> set xs. nd_size n < sz" by blast
  show "hit \<in> set l" "sz \<le> nd_size hit" "mset l = add_mset hit (mset l')"
    using l by simp_all
  show "sorted (map nd_size l')" using assms(2) l by (auto simp: sorted_append)
  fix n assume "n \<in> set l" "sz \<le> nd_size n"
  with l assms(2) show "nd_size hit \<le> nd_size n" by (auto simp: sorted_append)
qed

lemma mset_lb_insert_walk [simp]: "mset (lb_insert_walk n l) = add_mset n (mset l)"
  by (induction l) auto

lemma set_lb_insert_walk [simp]: "set (lb_insert_walk n l) = insert n (set l)"
  by (induction l) auto

lemma sorted_lb_insert_walk: "sorted (map nd_size l) \<Longrightarrow> sorted (map nd_size (lb_insert_walk n l))"
  by (induction l) auto

lemma mset_LargeBlockInsertSorted [simp]: "mset (LargeBlockInsertSorted l n) = add_mset n (mset l)"
  by (cases l) auto

lemma set_LargeBlockInsertSorted [simp]: "set (LargeBlockInsertSorted l n) = insert n (set l)"
  by (cases l) auto

lemma length_LargeBlockInsertSorted [simp]: "length (LargeBlockInsertSorted l n) = Suc (length l)"
  by (metis mset_LargeBlockInsertSorted size_mset size_add_mset)

lemma sorted_LargeBlockInsertSorted:
  "sorted (map nd_size l) \<Longrightarrow> sorted (map nd_size (LargeBlockInsertSorted l n))"
  by (cases l) (auto simp: sorted_lb_insert_walk)

lemma LargeBlockPopLast_eq:
  "LargeBlockPopLast l = (if length l < 2 then None else Some (last l, butlast l))"
  by (induction l rule: LargeBlockPopLast.induct) auto

lemma last_is_largest: "sorted (map nd_size l) \<Longrightarrow> n \<in> set l \<Longrightarrow> nd_size n \<le> nd_size (last l)"
  by (induction l) (auto split: if_splits)

lemma LargeBlockFindBestFit_unlink:
  "LargeBlockFindBestFit l sz = map_option fst (lb_unlink_fit sz l)"
  by (induction l) (auto split: option.splits)

lemma lb_recycle_walk_ok:
  "\<forall>n \<in> set l. dereg (nd_mr n) = 0 \<Longrightarrow>
   lb_recycle_walk dereg l log = Inr (log @ concat (map (\<lambda>n. [Deregistered (nd_mr n), Freed (nd_buf n)]) l))"
  by (induction l arbitrary: log) auto

lemma sorted_butlast_map: "sorted (map f l) \<Longrightarrow> sorted (map f (butlast l))"
  by (simp add: map_butlast sorted_butlast)

lemma lb_cached_fits:
  "lb_inv s \<Longrightarrow> (\<exists>m \<in># lb_cached s. sz \<le> mr_length m) \<longleftrightarrow>
     (\<exists>n \<in> set (tls_large_block_list s). sz \<le> nd_size n)"
  by (auto simp: lb_inv_def lb_node_ok_def list_all_iff)

lemma lb_inv_nd_size: "lb_inv s \<Longrightarrow> n \<in> set (tls_large_block_list s) \<Longrightarrow> nd_size n = mr_length (nd_mr n)"
  by (auto simp: lb_inv_def lb_node_ok_def list_all_iff)

text \<open>On a sorted list the older scan settles on the first node that is large enough, and
  remembers that node's predecessor.\<close>

lemma best_fit_scan_stays:
  "\<forall>n \<in> set l. nd_size n \<ge> sz \<longrightarrow> bd \<le> nd_size n - sz \<Longrightarrow>
   best_fit_scan sz prev i l bd bp = bp"
  by (induction l arbitrary: prev i) auto

section \<open>Properties\<close>

text \<open>C6: Allocation from the large-block cache is best fit. On a well-formed cache
  \<open>LargeBlockAlloc\<close> returns without a fault and keeps the cache well formed (sorted, counted,
  bounded). If some cached block is large enough it hands out one of the least sufficient
  length and removes exactly that block; otherwise the cache is untouched and the answer is
  the freshly registered region, or null when memory or registration fails.\<close>

theorem LargeBlockAlloc_best_fit:
  assumes "lb_inv s"
  shows "runs (LargeBlockAlloc memalign reg sz) s (\<lambda>r s'. lb_inv s' \<and>
    (if \<exists>m \<in># lb_cached s. sz \<le> mr_length m
     then \<exists>mr. r = Some mr \<and> sz \<le> mr_length mr \<and>
            (\<forall>m \<in># lb_cached s. sz \<le> mr_length m \<longrightarrow> mr_length mr \<le> mr_length m) \<and>
            lb_cached s = add_mset mr (lb_cached s') \<and> lb_log s' = lb_log s
     else lb_cached s' = lb_cached s \<and> r = (if memalign = None then None else reg)))"
proof (cases "lb_unlink_fit sz (tls_large_block_list s)")
  case None
  then have "\<not> (\<exists>m \<in># lb_cached s. sz \<le> mr_length m)"
    using lb_cached_fits [OF assms] by (auto simp: lb_unlink_fit_None)
  with None assms show ?thesis
    by (auto simp: LargeBlockAlloc_def Let_def runs_def lb_inv_def split: option.splits)
next
  case (Some p)
  obtain hit l' where p: "p = (hit, l')" by fastforce
  have srt: "sorted (map nd_size (tls_large_block_list s))"
    using assms by (simp add: lb_inv_def)
  note best = lb_unlink_fit_best [OF Some [unfolded p] srt]
  have fits: "\<exists>m \<in># lb_cached s. sz \<le> mr_length m"
    using best(1,2) lb_cached_fits [OF assms] by blast
  have sub: "set (tls_large_block_list s) = insert hit (set l')"
    using arg_cong [OF best(4), of set_mset] by simp
  have len: "length (tls_large_block_list s) = Suc (length l')"
    using arg_cong [OF best(4), of size] by simp
  have least: "\<forall>m \<in># lb_cached s. sz \<le> mr_length m \<longrightarrow> mr_length (nd_mr hit) \<le> mr_length m"
    using best(1,3) lb_inv_nd_size [OF assms] by fastforce
  have ge: "sz \<le> mr_length (nd_mr hit)"
    using best(1,2) lb_inv_nd_size [OF assms] by fastforce
  have cached: "lb_cached s = add_mset (nd_mr hit) (mset (map nd_mr l'))"
    using best(4) by (metis image_mset_add_mset mset_map)
  show ?thesis
    using assms Some p fits least ge cached best(5) sub len
    by (auto simp: LargeBlockAlloc_def Let_def runs_def lb_inv_def list_all_iff)
qed

lemma ReturnLargeBlock_runs:
  assumes "lb_inv s" and "\<And>m. dereg m = 0"
  shows "runs (ReturnLargeBlock dereg (Some mr)) s (\<lambda>_ s'. lb_inv s' \<and>
    (if tls_large_block_num s < kMaxCachedLargeBlocks
     then lb_cached s' = add_mset mr (lb_cached s) \<and> lb_log s' = lb_log s
     else \<exists>ev. add_mset ev (lb_cached s') = add_mset mr (lb_cached s) \<and>
            (\<forall>m \<in># add_mset mr (lb_cached s). mr_length m \<le> mr_length ev) \<and>
            lb_log s' = lb_log s @ [Deregistered ev, Freed (mr_addr ev)]))"
proof -
  let ?node = "\<lparr>nd_buf = mr_addr mr, nd_size = mr_length mr, nd_mr = mr\<rparr>"
  let ?l = "LargeBlockInsertSorted (tls_large_block_list s) ?node"
  have srt: "sorted (map nd_size ?l)"
    using assms(1) by (simp add: lb_inv_def sorted_LargeBlockInsertSorted)
  have ok: "list_all lb_node_ok ?l"
    using assms(1) by (simp add: lb_inv_def list_all_iff lb_node_ok_def)
  have cached: "mset (map nd_mr ?l) = add_mset mr (lb_cached s)"
    by simp
  show ?thesis
  proof (cases "tls_large_block_num s < kMaxCachedLargeBlocks")
    case True
    with assms srt ok cached show ?thesis
      by (auto simp: ReturnLargeBlock_def Let_def runs_def lb_inv_def)
  next
    case False
    have ne: "?l \<noteq> []" by (metis length_LargeBlockInsertSorted list.size(3) nat.distinct(1))
    have len: "2 \<le> length ?l"
      using False assms(1) by (simp add: lb_inv_def kMaxCachedLargeBlocks_def)
    have split: "?l = butlast ?l @ [last ?l]" using ne by simp
    have okl: "lb_node_ok (last ?l)" and okb: "list_all lb_node_ok (butlast ?l)"
      using list_all_last_butlast [OF ok ne] by simp_all
    have mm: "add_mset (nd_mr (last ?l)) (mset (map nd_mr (butlast ?l))) = add_mset mr (lb_cached s)"
      using arg_cong [OF split, of "\<lambda>x. mset (map nd_mr x)"] cached by simp
    have big: "\<forall>m \<in># add_mset mr (lb_cached s). mr_length m \<le> mr_length (nd_mr (last ?l))"
    proof
      fix m assume "m \<in># add_mset mr (lb_cached s)"
      then obtain n where "n \<in> set ?l" "m = nd_mr n"
        using cached by (metis (no_types, opaque_lifting) image_iff image_set set_mset_mset)
      moreover have "lb_node_ok n" using ok calculation(1) unfolding list_all_iff by blast
      ultimately show "mr_length m \<le> mr_length (nd_mr (last ?l))"
        using last_is_largest [OF srt, of n] okl by (simp add: lb_node_ok_def)
    qed
    have srtb: "sorted (map nd_size (butlast ?l))" by (rule sorted_butlast_map [OF srt])
    have pop: "LargeBlockPopLast ?l = Some (last ?l, butlast ?l)"
      using len by (auto simp: LargeBlockPopLast_eq)
    show ?thesis
      using False assms srtb okl okb mm big pop
      by (auto simp: ReturnLargeBlock_def Let_def runs_def lb_inv_def lb_node_ok_def)
  qed
qed

text \<open>C7: Returning a block to the large-block cache keeps the cache well formed and bounded.
  Below the bound the block is added; at the bound the cache first takes the block in and then
  deregisters and frees one block of greatest length, so no returned block is lost without
  being deregistered.\<close>

theorem ReturnLargeBlock_evicts_largest:
  assumes "lb_inv s" and "\<And>m. dereg m = 0"
  shows "runs (ReturnLargeBlock dereg (Some mr)) s (\<lambda>_ s'. lb_inv s' \<and>
    (if tls_large_block_num s < kMaxCachedLargeBlocks
     then lb_cached s' = add_mset mr (lb_cached s) \<and> lb_log s' = lb_log s
     else \<exists>ev. add_mset ev (lb_cached s') = add_mset mr (lb_cached s) \<and>
            (\<forall>m \<in># add_mset mr (lb_cached s). mr_length m \<le> mr_length ev) \<and>
            lb_log s' = lb_log s @ [Deregistered ev, Freed (mr_addr ev)]))"
  by (rule ReturnLargeBlock_runs [OF assms])

text \<open>A cache of two blocks, for the concrete instances below.\<close>

definition lb_demo_mr :: "nat \<Rightarrow> nat \<Rightarrow> ibv_mr" where
  "lb_demo_mr a n = \<lparr>mr_addr = a, mr_length = n, mr_lkey = 7, mr_rkey = 9\<rparr>"

definition lb_demo_node :: "nat \<Rightarrow> nat \<Rightarrow> LargeBlockNode" where
  "lb_demo_node a n = \<lparr>nd_buf = a, nd_size = n, nd_mr = lb_demo_mr a n\<rparr>"

definition lb_demo :: large_tls where
  "lb_demo = \<lparr>tls_large_block_list = [lb_demo_node 4096 100, lb_demo_node 8192 300],
     tls_large_block_num = 2, tls_large_inited = True, lb_callbacks = 1, lb_log = []\<rparr>"

lemmas lb_demo_defs = lb_demo_def lb_demo_node_def lb_demo_mr_def

lemma lb_demo_inv: "lb_inv lb_demo"
  by (simp add: lb_inv_def lb_demo_defs lb_node_ok_def kMaxCachedLargeBlocks_def)

theorem LargeBlockAlloc_best_fit_witness:
  "runs (LargeBlockAlloc None None 200) lb_demo
     (\<lambda>r s'. r = Some (lb_demo_mr 8192 300) \<and> lb_cached s' = {#lb_demo_mr 4096 100#})"
  using LargeBlockAlloc_best_fit [OF lb_demo_inv, of None None 200]
  by (simp add: LargeBlockAlloc_def lb_register_exit_def lb_demo_defs runs_def)

theorem ReturnLargeBlock_evicts_largest_witness:
  "runs (ReturnLargeBlock (\<lambda>_. 0) (Some (lb_demo_mr 16384 200))) lb_demo
     (\<lambda>_ s'. lb_inv s' \<and> lb_cached s' =
        {#lb_demo_mr 4096 100, lb_demo_mr 8192 300, lb_demo_mr 16384 200#})"
  using ReturnLargeBlock_evicts_largest [OF lb_demo_inv, of "\<lambda>_. 0" "lb_demo_mr 16384 200"]
  by (simp add: runs_def ReturnLargeBlock_def lb_register_exit_def lb_demo_defs
      kMaxCachedLargeBlocks_def add_mset_commute)

text \<open>C8: At thread exit \<open>RecycleTLSLargeBlocks\<close> empties the cache: every cached region is
  deregistered and its memory freed, exactly once and in list order, provided the verbs layer
  accepts the deregistrations; a refused deregistration aborts the process.\<close>

theorem RecycleTLSLargeBlocks_releases_all:
  "RecycleTLSLargeBlocks dereg s =
     (if \<forall>n \<in> set (tls_large_block_list s). dereg (nd_mr n) = 0
      then Inr ((), s\<lparr>tls_large_block_list := [], tls_large_block_num := 0,
             lb_log := lb_log s @ concat (map (\<lambda>n. [Deregistered (nd_mr n), Freed (nd_buf n)])
                                              (tls_large_block_list s))\<rparr>)
      else Inl Aborted)"
proof (cases "\<forall>n \<in> set (tls_large_block_list s). dereg (nd_mr n) = 0")
  case True
  then show ?thesis by (simp add: RecycleTLSLargeBlocks_def lb_recycle_walk_ok)
next
  case False
  have "lb_recycle_walk dereg l log = Inl Aborted" if "\<exists>n \<in> set l. dereg (nd_mr n) \<noteq> 0" for l log
    using that by (induction l arbitrary: log) auto
  with False show ?thesis by (auto simp: RecycleTLSLargeBlocks_def)
qed

theorem RecycleTLSLargeBlocks_releases_all_witness:
  "RecycleTLSLargeBlocks (\<lambda>_. 0) lb_demo = Inr ((), lb_demo\<lparr>tls_large_block_list := [],
     tls_large_block_num := 0, lb_log := [Deregistered (lb_demo_mr 4096 100), Freed 4096,
       Deregistered (lb_demo_mr 8192 300), Freed 8192]\<rparr>)"
  using RecycleTLSLargeBlocks_releases_all [of "\<lambda>_. 0" lb_demo] by (simp add: lb_demo_defs)



text \<open>A cached block at the head is never found by the older search: its predecessor is the
  null pointer, which also means that nothing was found.\<close>

lemma SharedResource_LargeBlockAlloc_misses_head:
  assumes "tls_large_block_list s = [n]"
  shows "SharedResource_LargeBlockAlloc memalign reg sz s =
     (case memalign of None \<Rightarrow> Inr (None, lb_register_exit s)
      | Some buf \<Rightarrow> (case reg of
           None \<Rightarrow> Inr (None, (lb_register_exit s)\<lparr>lb_log := lb_log s @ [Freed buf]\<rparr>)
         | Some mr \<Rightarrow> Inr (Some mr, lb_register_exit s)))"
  using assms by (auto simp: SharedResource_LargeBlockAlloc_def Let_def split: option.splits)

end
