(* ===== verification/Block_Pool.thy ===== *)
theory Block_Pool
  imports Prelude
begin

text \<open>
  The registered block pool: \<open>src-common/fast_block_pool.cc\<close>. Regions of one gigabyte are
  carved into blocks of 8 KB, 64 KB or 2 MB. Free memory sits in singly linked lists of
  \<open>IdleNode\<close>s, which are lists here: an idle list and an expansion list for every block type
  and bucket, and one cache of 8 KB blocks per thread. An operation takes the number of the
  thread that runs it and the answers of the calls it makes outside the repository
  (\<open>std::rand\<close>, \<open>posix_memalign\<close>, \<open>ibv_reg_mr\<close>) as a \<open>pool_env\<close>. The bucket locks make each
  operation one step.
\<close>

section \<open>Constants\<close>

definition RDMA_INITIAL_REGION_SIZE :: nat where "RDMA_INITIAL_REGION_SIZE = 1024"
definition RDMA_MEMPOOL_BUCKETS :: nat where "RDMA_MEMPOOL_BUCKETS = 4"
definition RDMA_MEMPOOL_MAX_REGIONS :: nat where "RDMA_MEMPOOL_MAX_REGIONS = 16"
definition RDMA_MEMPOOL_TLS_CACHE_NUM :: int where "RDMA_MEMPOOL_TLS_CACHE_NUM = 128"
definition BLOCK_SIZE_COUNT :: nat where "BLOCK_SIZE_COUNT = 3"
definition BYTES_IN_MB :: nat where "BYTES_IN_MB = 1048576"

definition g_block_size :: "nat \<Rightarrow> nat" where
  "g_block_size t = (if t = 0 then 8192 else if t = 1 then 65536 else 2 * BYTES_IN_MB)"

lemmas pool_consts = RDMA_INITIAL_REGION_SIZE_def RDMA_MEMPOOL_BUCKETS_def
  RDMA_MEMPOOL_MAX_REGIONS_def RDMA_MEMPOOL_TLS_CACHE_NUM_def BLOCK_SIZE_COUNT_def BYTES_IN_MB_def

section \<open>State\<close>

record Region =
  r_start :: addr
  r_size :: nat
  r_block_type :: nat
  r_lkey :: u32
  r_rkey :: u32

record IdleNode =
  n_start :: addr
  n_len :: nat

record GlobalInfo =
  idle_list :: "nat \<Rightarrow> nat \<Rightarrow> IdleNode list"
  idle_size :: "nat \<Rightarrow> nat \<Rightarrow> u64"
  region_num :: "nat \<Rightarrow> int"
  expansion_list :: "nat \<Rightarrow> nat \<Rightarrow> IdleNode list"
  expansion_size :: "nat \<Rightarrow> nat \<Rightarrow> u64"

record tls_pool =
  tls_idle_list :: "IdleNode list"
  tls_idle_num :: int
  tls_inited :: bool

text \<open>\<open>g_mrs\<close> is the pointer to the vector of registered regions, \<open>None\<close> while it is null.
  \<open>g_regions\<close> holds the entries of the array in use. \<open>p_freed\<close> lists regions handed back to
  the operating system, \<open>p_erange\<close> records that \<open>errno\<close> was set to \<open>ERANGE\<close>.\<close>

record pool =
  g_pd :: bool
  g_mrs :: "u32 list option"
  g_regions :: "Region list"
  g_info :: "GlobalInfo option"
  tls :: "nat \<Rightarrow> tls_pool"
  p_freed :: "addr list"
  p_erange :: bool

record pool_env =
  e_rand :: nat
  e_memalign :: "addr option"
  e_reg_mr :: "u32 option"
  e_stale :: u64

definition pool_init :: pool where
  "pool_init = \<lparr>g_pd = False, g_mrs = None, g_regions = [], g_info = None,
     tls = (\<lambda>_. \<lparr>tls_idle_list = [], tls_idle_num = 0, tls_inited = False\<rparr>),
     p_freed = [], p_erange = False\<rparr>"

abbreviation set2 :: "(nat \<Rightarrow> nat \<Rightarrow> 'a) \<Rightarrow> nat \<Rightarrow> nat \<Rightarrow> 'a \<Rightarrow> nat \<Rightarrow> nat \<Rightarrow> 'a" where
  "set2 f i j v \<equiv> f(i := (f i)(j := v))"

section \<open>Regions\<close>

definition GetBlockSize :: "nat \<Rightarrow> nat" where
  "GetBlockSize t = g_block_size t"

text \<open>The loop over \<open>g_regions\<close>: stop at the first entry that is not in use.\<close>

fun region_walk :: "addr \<Rightarrow> Region list \<Rightarrow> Region option" where
  "region_walk a [] = None"
| "region_walk a (r # rs) =
     (if r_start r = 0 then None
      else if a \<ge> r_start r \<and> a < r_start r + r_size r then Some r
      else region_walk a rs)"

definition GetRegion :: "pool \<Rightarrow> addr \<Rightarrow> Region option" where
  "GetRegion p buf = (if buf = 0 then None else region_walk buf (g_regions p))"

definition GetRegionId :: "pool \<Rightarrow> addr \<Rightarrow> u32" where
  "GetRegionId p buf = (case GetRegion p buf of None \<Rightarrow> 0 | Some r \<Rightarrow> r_lkey r)"

definition SetGlobalPD :: "(pool, unit) prog" where
  "SetGlobalPD = upd (\<lambda>p. p\<lparr>g_pd := True\<rparr>)"

text \<open>\<open>g_mrs->push_back(mr)\<close> follows the pointer, null or not.\<close>

definition RdmaRegisterMemory :: "pool_env \<Rightarrow> (pool, u32) prog" where
  "RdmaRegisterMemory e = (\<lambda>p. case e_reg_mr e of
     None \<Rightarrow> Inr (0, p)
   | Some lkey \<Rightarrow> (case g_mrs p of
        None \<Rightarrow> Inl NullDeref
      | Some ms \<Rightarrow> Inr (lkey, p\<lparr>g_mrs := Some (ms @ [lkey])\<rparr>)))"

definition bucket_node :: "addr \<Rightarrow> nat \<Rightarrow> nat \<Rightarrow> IdleNode" where
  "bucket_node base rsize i = \<lparr>n_start = base + i * (rsize div RDMA_MEMPOOL_BUCKETS),
     n_len = rsize div RDMA_MEMPOOL_BUCKETS\<rparr>"

definition add_region :: "GlobalInfo \<Rightarrow> addr \<Rightarrow> nat \<Rightarrow> nat \<Rightarrow> GlobalInfo" where
  "add_region gi base rsize bt = gi\<lparr>
     expansion_list := (\<lambda>b i. if b = bt \<and> i < RDMA_MEMPOOL_BUCKETS
        then bucket_node base rsize i # expansion_list gi b i else expansion_list gi b i),
     expansion_size := (\<lambda>b i. if b = bt \<and> i < RDMA_MEMPOOL_BUCKETS
        then expansion_size gi b i + of_nat (n_len (bucket_node base rsize i))
        else expansion_size gi b i),
     region_num := (region_num gi)(bt := region_num gi bt + 1)\<rparr>"

text \<open>Every early return frees the region: the scope guard is dismissed at the end only.\<close>

definition ExtendBlockPoolImpl :: "pool_env \<Rightarrow> addr \<Rightarrow> nat \<Rightarrow> nat \<Rightarrow> (pool, addr option) prog" where
  "ExtendBlockPoolImpl e base rsize bt = (\<lambda>p.
     if length (g_regions p) = RDMA_MEMPOOL_MAX_REGIONS
     then Inr (None, p\<lparr>p_freed := p_freed p @ [base]\<rparr>)
     else (case RdmaRegisterMemory e p of
         Inl f \<Rightarrow> Inl f
       | Inr (key, p1) \<Rightarrow>
           if key = 0 then Inr (None, p1\<lparr>p_freed := p_freed p1 @ [base]\<rparr>)
           else (case g_info p1 of
               None \<Rightarrow> Inl NullDeref
             | Some gi \<Rightarrow> Inr (Some base, p1\<lparr>
                 g_regions := g_regions p1 @ [\<lparr>r_start = base, r_size = rsize, r_block_type = bt,
                                               r_lkey = key, r_rkey = key\<rparr>],
                 g_info := Some (add_region gi base rsize bt)\<rparr>))))"

definition region_bytes :: "nat \<Rightarrow> nat \<Rightarrow> nat" where
  "region_bytes mb bt = mb * BYTES_IN_MB div g_block_size bt div RDMA_MEMPOOL_BUCKETS *
     (g_block_size bt * RDMA_MEMPOOL_BUCKETS)"

definition ExtendBlockPool :: "pool_env \<Rightarrow> nat \<Rightarrow> nat \<Rightarrow> (pool, addr option) prog" where
  "ExtendBlockPool e region_size bt = (\<lambda>p.
     if region_size < 1 then Inr (None, p)
     else (case e_memalign e of
         None \<Rightarrow> Inr (None, p)
       | Some base \<Rightarrow> ExtendBlockPoolImpl e base (region_bytes region_size bt) bt p))"

definition empty_info :: GlobalInfo where
  "empty_info = \<lparr>idle_list = (\<lambda>_ _. []), idle_size = (\<lambda>_ _. 0), region_num = (\<lambda>_. 0),
     expansion_list = (\<lambda>_ _. []), expansion_size = (\<lambda>_ _. 0)\<rparr>"

definition InitBlockPool :: "pool_env \<Rightarrow> (pool, bool) prog" where
  "InitBlockPool e = (\<lambda>p.
     if \<not> g_pd p then Inr (False, p)
     else if length (g_regions p) > 0 then Inr (False, p)
     else (case ExtendBlockPool e RDMA_INITIAL_REGION_SIZE 0 (p\<lparr>g_info := Some empty_info\<rparr>) of
         Inl f \<Rightarrow> Inl f
       | Inr (base, p1) \<Rightarrow> Inr (base \<noteq> None, p1)))"

section \<open>Allocation\<close>

definition MoveExpansionList2EmptyIdleList :: "nat \<Rightarrow> nat \<Rightarrow> (pool, unit) prog" where
  "MoveExpansionList2EmptyIdleList bt i = (\<lambda>p. case g_info p of
     None \<Rightarrow> Inl NullDeref
   | Some gi \<Rightarrow>
       if idle_list gi bt i \<noteq> [] then Inl Aborted
       else Inr ((), p\<lparr>g_info := Some (gi\<lparr>
         idle_list := set2 (idle_list gi) bt i (expansion_list gi bt i),
         idle_size := set2 (idle_size gi) bt i (idle_size gi bt i + expansion_size gi bt i),
         expansion_list := set2 (expansion_list gi) bt i [],
         expansion_size := set2 (expansion_size gi) bt i 0\<rparr>)\<rparr>))"

text \<open>Make the idle list of a bucket non-empty: move the expansion list over, or extend the
  pool first. \<open>False\<close> means that extending failed.\<close>

definition refill :: "pool_env \<Rightarrow> nat \<Rightarrow> nat \<Rightarrow> (pool, bool) prog" where
  "refill e bt i = (\<lambda>p. case g_info p of
     None \<Rightarrow> Inl NullDeref
   | Some gi \<Rightarrow>
       if idle_list gi bt i \<noteq> [] then Inr (True, p)
       else if expansion_list gi bt i \<noteq> [] then
         bindp (MoveExpansionList2EmptyIdleList bt i) (\<lambda>_. ret True) p
       else bindp (ExtendBlockPool e RDMA_INITIAL_REGION_SIZE bt)
              (\<lambda>b. if b = None then ret False
                   else bindp (MoveExpansionList2EmptyIdleList bt i) (\<lambda>_. ret True)) p)"

text \<open>The walk that moves single blocks from the head of the idle list to the thread's cache:
  the nodes moved, the nodes left, and the new count.\<close>

fun tls_grab :: "int \<Rightarrow> IdleNode list \<Rightarrow> IdleNode list \<times> IdleNode list \<times> int" where
  "tls_grab num [] = ([], [], num)"
| "tls_grab num (node # rest) =
     (if num \<ge> RDMA_MEMPOOL_TLS_CACHE_NUM div 2 \<or> n_len node > g_block_size 0
      then ([], node # rest, num)
      else (case tls_grab (num + 1) rest of (moved, left, num') \<Rightarrow> (node # moved, left, num')))"

text \<open>
  After the walk \<open>last_node->next\<close> is cleared. Where nothing was moved \<open>last_node\<close> is still the
  head of the idle list, so the idle list is cut to its first node; and where the count was not
  0 either, the head is then also the thread's list.
\<close>

definition fill_tls :: "nat \<Rightarrow> nat \<Rightarrow> GlobalInfo \<Rightarrow> pool \<Rightarrow> pool" where
  "fill_tls t i gi p = (case tls_grab (tls_idle_num (tls p t)) (idle_list gi 0 i) of
     (moved, left, num) \<Rightarrow>
       let l = idle_list gi 0 i;
           tl' = (if num = 0 then [] else if moved = [] then take 1 l else moved);
           idle' = (if moved = [] then take 1 l else left)
       in p\<lparr>g_info := Some (gi\<lparr>idle_list := set2 (idle_list gi) 0 i idle'\<rparr>),
            tls := (tls p)(t := (tls p t)\<lparr>tls_idle_list := tl', tls_idle_num := num\<rparr>)\<rparr>)"

text \<open>Cut one block off the head of the idle list. The statement that follows reads
  \<open>node->len\<close>, also after \<open>delete node\<close>: what it then reads is \<open>e_stale\<close>.\<close>

definition take_block :: "nat \<Rightarrow> pool_env \<Rightarrow> nat \<Rightarrow> nat \<Rightarrow> (pool, addr) prog" where
  "take_block t e bt i = (\<lambda>p. case g_info p of
     None \<Rightarrow> Inl NullDeref
   | Some gi \<Rightarrow> (case idle_list gi bt i of
        [] \<Rightarrow> Inl Aborted
      | node # rest \<Rightarrow>
          let big = n_len node > g_block_size bt;
              node' = node\<lparr>n_start := n_start node + g_block_size bt,
                           n_len := n_len node - g_block_size bt\<rparr>;
              l = (if big then node' # rest else rest);
              len = (if big then of_nat (n_len node') else e_stale e);
              gi' = gi\<lparr>idle_list := set2 (idle_list gi) bt i l,
                       idle_size := set2 (idle_size gi) bt i (idle_size gi bt i - len)\<rparr>
          in Inr (n_start node,
               if bt = 0 then fill_tls t i gi' p else p\<lparr>g_info := Some gi'\<rparr>)))"

definition AllocBlockFrom :: "nat \<Rightarrow> pool_env \<Rightarrow> nat \<Rightarrow> (pool, addr option) prog" where
  "AllocBlockFrom t e bt = (\<lambda>p.
     if bt = 0 \<and> tls_idle_list (tls p t) \<noteq> [] then
       Inr (Some (n_start (hd (tls_idle_list (tls p t)))),
            p\<lparr>tls := (tls p)(t := (tls p t)\<lparr>tls_idle_list := tl (tls_idle_list (tls p t)),
                                             tls_idle_num := tls_idle_num (tls p t) - 1\<rparr>)\<rparr>)
     else
       let i = e_rand e mod RDMA_MEMPOOL_BUCKETS in
       bindp (refill e bt i)
         (\<lambda>ok. if ok then bindp (take_block t e bt i) (\<lambda>a. ret (Some a)) else ret None) p)"

text \<open>The smallest block type whose blocks hold \<open>len\<close> bytes.\<close>

definition BlockAllocate :: "nat \<Rightarrow> pool_env \<Rightarrow> nat \<Rightarrow> (pool, addr option) prog" where
  "BlockAllocate t e len =
     (if len = 0 then ret None
      else if len > g_block_size (BLOCK_SIZE_COUNT - 1) then ret None
      else if len \<le> g_block_size 0 then AllocBlockFrom t e 0
      else if len \<le> g_block_size 1 then AllocBlockFrom t e 1
      else AllocBlockFrom t e 2)"

section \<open>Release\<close>

definition bucket_of :: "Region \<Rightarrow> addr \<Rightarrow> nat" where
  "bucket_of r a = (a - r_start r) * RDMA_MEMPOOL_BUCKETS div r_size r"

definition BlockDeallocate :: "nat \<Rightarrow> addr \<Rightarrow> (pool, unit) prog" where
  "BlockDeallocate t buf = (\<lambda>p.
     if buf = 0 then Inr ((), p)
     else (case GetRegion p buf of
       None \<Rightarrow> Inr ((), p\<lparr>p_erange := True\<rparr>)
     | Some r \<Rightarrow>
         let bt = r_block_type r;
             node = \<lparr>n_start = buf, n_len = g_block_size bt\<rparr>;
             th = tls p t;
             i = bucket_of r buf
         in if bt = 0 \<and> tls_idle_num th < RDMA_MEMPOOL_TLS_CACHE_NUM then
              Inr ((), p\<lparr>tls := (tls p)(t := th\<lparr>tls_inited := True,
                   tls_idle_list := node # tls_idle_list th, tls_idle_num := tls_idle_num th + 1\<rparr>)\<rparr>)
            else (case g_info p of
              None \<Rightarrow> Inl NullDeref
            | Some gi \<Rightarrow>
                if bt = 0 then
                  let cnt = nat (RDMA_MEMPOOL_TLS_CACHE_NUM div 2); l = tls_idle_list th in
                  if length l < cnt then Inl NullDeref
                  else Inr ((), p\<lparr>
                    g_info := Some (gi\<lparr>
                      idle_list := set2 (idle_list gi) bt i (take cnt l @ node # idle_list gi bt i),
                      idle_size := set2 (idle_size gi) bt i
                        (idle_size gi bt i + of_nat (sum_list (map n_len (take cnt l))))\<rparr>),
                    tls := (tls p)(t := th\<lparr>tls_idle_list := drop cnt l,
                                           tls_idle_num := tls_idle_num th - int cnt\<rparr>)\<rparr>)
                else Inr ((), p\<lparr>g_info := Some (gi\<lparr>
                      idle_list := set2 (idle_list gi) bt i (node # idle_list gi bt i),
                      idle_size := set2 (idle_size gi) bt i
                        (idle_size gi bt i + of_nat (n_len node))\<rparr>)\<rparr>))))"

text \<open>\<open>RecycleAll\<close> runs at thread exit and hands the thread's blocks back, one by one.\<close>

fun recycle_walk :: "(addr \<Rightarrow> Region option) \<Rightarrow> IdleNode list \<Rightarrow> (nat \<Rightarrow> IdleNode list) \<Rightarrow> nat \<Rightarrow> IdleNode list" where
  "recycle_walk get [] f = f"
| "recycle_walk get (node # rest) f =
     (case get (n_start node) of
        None \<Rightarrow> recycle_walk get rest f
      | Some r \<Rightarrow> recycle_walk get rest
          (f(bucket_of r (n_start node) := node # f (bucket_of r (n_start node)))))"

definition RecycleAll :: "nat \<Rightarrow> (pool, unit) prog" where
  "RecycleAll t = (\<lambda>p.
     let th = (tls p t)\<lparr>tls_idle_list := [], tls_idle_num := 0\<rparr>;
         l = tls_idle_list (tls p t) in
     if list_all (\<lambda>n. GetRegion p (n_start n) = None) l then Inr ((), p\<lparr>tls := (tls p)(t := th)\<rparr>)
     else (case g_info p of
         None \<Rightarrow> Inl NullDeref
       | Some gi \<Rightarrow> Inr ((), p\<lparr>
           g_info := Some (gi\<lparr>idle_list := (idle_list gi)(0 :=
              recycle_walk (GetRegion p) l (idle_list gi 0))\<rparr>),
           tls := (tls p)(t := th)\<rparr>)))"

end
