(* ===== verification/Pool_Ownership.thy ===== *)
theory Pool_Ownership
  imports Block_Pool
begin

text \<open>
  Correctness of the block pool as ownership: every block of a region is held by at most one
  place (an idle list, an expansion list, a thread's cache) or by a caller. This theory has the
  invariant, and the lemmas on moving nodes between places, adding a region and refilling a list.
\<close>

section \<open>Partitions\<close>

text \<open>\<open>part f L\<close>: the places \<open>f\<close> hold distinct addresses, no address is in two places, and no
  address in a place is in \<open>L\<close>.\<close>

definition part :: "('l \<Rightarrow> 'a list) \<Rightarrow> 'a set \<Rightarrow> bool" where
  "part f L = ((\<forall>l. distinct (f l)) \<and> (\<forall>l l' a. a \<in> set (f l) \<longrightarrow> a \<in> set (f l') \<longrightarrow> l = l') \<and>
     (\<forall>l a. a \<in> set (f l) \<longrightarrow> a \<notin> L))"

lemma part_distinct: "part f L \<Longrightarrow> distinct (f l)"
  by (simp add: part_def)

lemma part_same: "part f L \<Longrightarrow> a \<in> set (f l) \<Longrightarrow> a \<in> set (f l') \<Longrightarrow> l = l'"
  unfolding part_def by blast

lemma part_live: "part f L \<Longrightarrow> a \<in> set (f l) \<Longrightarrow> a \<notin> L"
  unfolding part_def by blast

lemma part_pop:
  assumes "part f L" and "f l = a # as"
  shows "part (f(l := as)) (insert a L)"
proof -
  have sub: "x \<in> set (f k)" if "x \<in> set ((f(l := as)) k)" for x k
    using that assms(2) by (auto split: if_splits)
  have "a \<notin> set as" "distinct as" using part_distinct [OF assms(1), of l] assms(2) by auto
  moreover have "k = l" if "a \<in> set (f k)" for k
    using part_same [OF assms(1) that, of l] assms(2) by simp
  moreover have "x \<notin> insert a L" if "x \<in> set ((f(l := as)) k)" for x k
    using calculation that sub [OF that] part_live [OF assms(1), of x k]
    by (cases "k = l") auto
  moreover have "k = k'" if "x \<in> set ((f(l := as)) k)" "x \<in> set ((f(l := as)) k')" for x k k'
    by (rule part_same [OF assms(1) sub [OF that(1)] sub [OF that(2)]])
  moreover have "distinct ((f(l := as)) k)" for k
    using calculation(2) part_distinct [OF assms(1)] by simp
  ultimately show ?thesis
    unfolding part_def by blast
qed

lemma part_move:
  assumes "part f L" and "l \<noteq> l'" and "set xs \<union> set ys \<subseteq> set (f l) \<union> set (f l')"
    and "distinct xs" and "distinct ys" and "set xs \<inter> set ys = {}"
  shows "part (f(l := xs, l' := ys)) L"
  unfolding part_def
proof (intro conjI allI impI)
  let ?g = "f(l := xs, l' := ys)"
  show "distinct (?g k)" for k using assms(4,5) part_distinct [OF assms(1)] by simp
  show "a \<notin> L" if "a \<in> set (?g k)" for k a
    using that assms(3) part_live [OF assms(1), of a k] part_live [OF assms(1), of a l]
      part_live [OF assms(1), of a l'] by (auto split: if_splits)
  show "k = k'" if "a \<in> set (?g k)" "a \<in> set (?g k')" for k k' a
  proof -
    have "a \<in> set (f l) \<or> a \<in> set (f l')" if "k = l \<or> k = l' \<or> k' = l \<or> k' = l'"
      using that \<open>a \<in> set (?g k)\<close> \<open>a \<in> set (?g k')\<close> assms(2,3) by (auto split: if_splits)
    then show ?thesis
      using that assms(2,6) part_same [OF assms(1), of a k k'] part_same [OF assms(1), of a k l]
        part_same [OF assms(1), of a k l'] part_same [OF assms(1), of a k' l]
        part_same [OF assms(1), of a k' l']
      by (auto split: if_splits)
  qed
qed

lemma part_sub:
  assumes "part f L" and "distinct xs" and "set xs \<subseteq> set (f l)"
  shows "part (f(l := xs)) L"
proof -
  have sub: "x \<in> set (f k)" if "x \<in> set ((f(l := xs)) k)" for x k
    using that assms(3) by (auto split: if_splits)
  show ?thesis
    unfolding part_def
  proof (intro conjI allI impI)
    show "distinct ((f(l := xs)) k)" for k using assms(2) part_distinct [OF assms(1)] by simp
    show "x \<notin> L" if "x \<in> set ((f(l := xs)) k)" for k x
      by (rule part_live [OF assms(1) sub [OF that]])
    show "k = k'" if "x \<in> set ((f(l := xs)) k)" "x \<in> set ((f(l := xs)) k')" for k k' x
      by (rule part_same [OF assms(1) sub [OF that(1)] sub [OF that(2)]])
  qed
qed

lemma part_insert:
  assumes "part f L" and "a \<in> L" and "distinct xs" and "set xs = insert a (set (f l))"
  shows "part (f(l := xs)) (L - {a})"
proof -
  have new: "a \<notin> set (f k)" for k using part_live [OF assms(1)] assms(2) by blast
  have sub: "x = a \<and> k = l \<or> x \<in> set (f k)" if "x \<in> set ((f(l := xs)) k)" for x k
    using that assms(4) by (auto split: if_splits)
  show ?thesis
    unfolding part_def
  proof (intro conjI allI impI)
    show "distinct ((f(l := xs)) k)" for k using assms(3) part_distinct [OF assms(1)] by simp
    show "x \<notin> L - {a}" if "x \<in> set ((f(l := xs)) k)" for k x
      using sub [OF that] part_live [OF assms(1), of x k] by auto
    show "k = k'" if "x \<in> set ((f(l := xs)) k)" "x \<in> set ((f(l := xs)) k')" for k k' x
      using sub [OF that(1)] sub [OF that(2)] new part_same [OF assms(1), of x k k'] by blast
  qed
qed

lemma part_add:
  assumes "part f L" and "part new {}" and "\<And>l l' a. a \<in> set (new l) \<Longrightarrow> a \<notin> set (f l')"
    and "\<And>l a. a \<in> set (new l) \<Longrightarrow> a \<notin> L"
  shows "part (\<lambda>l. new l @ f l) L"
  unfolding part_def
proof (intro conjI allI impI)
  show "distinct (new l @ f l)" for l
    using part_distinct [OF assms(1), of l] part_distinct [OF assms(2), of l] assms(3) [of _ l l]
    by auto
  show "a \<notin> L" if "a \<in> set (new l @ f l)" for l a
    using that assms(4) [of a l] part_live [OF assms(1), of a l] by auto
  show "l = l'" if "a \<in> set (new l @ f l)" "a \<in> set (new l' @ f l')" for l l' a
    using that assms(3) [of a l l'] assms(3) [of a l' l] part_same [OF assms(1), of a l l']
      part_same [OF assms(2), of a l l'] by auto
qed

section \<open>Where blocks are\<close>

datatype loc = Idle nat nat | Exp nat nat | Tls nat

fun loc_type :: "loc \<Rightarrow> nat" where
  "loc_type (Idle b i) = b"
| "loc_type (Exp b i) = b"
| "loc_type (Tls t) = 0"

fun nodes_at :: "pool \<Rightarrow> loc \<Rightarrow> IdleNode list" where
  "nodes_at p (Idle b i) = (case g_info p of None \<Rightarrow> [] | Some gi \<Rightarrow> idle_list gi b i)"
| "nodes_at p (Exp b i) = (case g_info p of None \<Rightarrow> [] | Some gi \<Rightarrow> expansion_list gi b i)"
| "nodes_at p (Tls t) = tls_idle_list (tls p t)"

definition node_blocks :: "nat \<Rightarrow> IdleNode \<Rightarrow> addr list" where
  "node_blocks bs n = map (\<lambda>k. n_start n + k * bs) [0..<n_len n div bs]"

definition blocks_of :: "nat \<Rightarrow> IdleNode list \<Rightarrow> addr list" where
  "blocks_of bs ns = concat (map (node_blocks bs) ns)"

definition held :: "(loc \<Rightarrow> IdleNode list) \<Rightarrow> loc \<Rightarrow> addr list" where
  "held ns l = blocks_of (g_block_size (loc_type l)) (ns l)"

definition valid_block :: "Region list \<Rightarrow> nat \<Rightarrow> addr \<Rightarrow> bool" where
  "valid_block rs bt a = (\<exists>r \<in> set rs. r_block_type r = bt \<and> r_start r \<le> a \<and>
     g_block_size bt dvd a - r_start r \<and> a + g_block_size bt \<le> r_start r + r_size r)"

definition region_ok :: "Region \<Rightarrow> bool" where
  "region_ok r = (0 < r_start r \<and> 0 < r_size r \<and> r_start r + r_size r \<le> 2 ^ 64 \<and>
     r_block_type r < BLOCK_SIZE_COUNT \<and> r_lkey r \<noteq> 0 \<and>
     g_block_size (r_block_type r) * RDMA_MEMPOOL_BUCKETS dvd r_size r)"

definition apart :: "Region \<Rightarrow> Region \<Rightarrow> bool" where
  "apart r r' = (r_start r + r_size r \<le> r_start r' \<or> r_start r' + r_size r' \<le> r_start r)"

definition regions_ok :: "Region list \<Rightarrow> bool" where
  "regions_ok rs = (length rs \<le> RDMA_MEMPOOL_MAX_REGIONS \<and> list_all region_ok rs \<and>
     sorted_wrt apart rs)"

definition node_ok :: "loc \<Rightarrow> IdleNode \<Rightarrow> bool" where
  "node_ok l n = (0 < n_len n \<and> g_block_size (loc_type l) dvd n_len n \<and>
     (case l of Tls _ \<Rightarrow> n_len n = g_block_size 0 | _ \<Rightarrow> True))"

definition tls_ok :: "tls_pool \<Rightarrow> bool" where
  "tls_ok th = (tls_idle_num th = int (length (tls_idle_list th)) \<and>
     tls_idle_num th \<le> RDMA_MEMPOOL_TLS_CACHE_NUM)"

text \<open>\<open>nodes_good rs ns L\<close>: the nodes \<open>ns\<close> describe blocks of the regions \<open>rs\<close>, each held
  in one place, and \<open>L\<close> is a set of further blocks of these regions.\<close>

definition nodes_good :: "Region list \<Rightarrow> (loc \<Rightarrow> IdleNode list) \<Rightarrow> addr set \<Rightarrow> bool" where
  "nodes_good rs ns L = ((\<forall>l. list_all (node_ok l) (ns l)) \<and>
     (\<forall>l a. a \<in> set (held ns l) \<longrightarrow> valid_block rs (loc_type l) a) \<and>
     part (held ns) L \<and> (\<forall>a \<in> L. \<exists>bt. valid_block rs bt a))"

text \<open>The invariant of the pool; \<open>L\<close> is the set of blocks callers hold.\<close>

definition pool_ok :: "pool \<Rightarrow> addr set \<Rightarrow> bool" where
  "pool_ok p L = (g_mrs p \<noteq> None \<and> g_info p \<noteq> None \<and> regions_ok (g_regions p) \<and>
     nodes_good (g_regions p) (nodes_at p) L \<and> (\<forall>t. tls_ok (tls p t)))"

text \<open>What the pool relies on when it asks the system for a region: a non-null range of one
  gigabyte, apart from the regions in use.\<close>

definition env_ok :: "pool \<Rightarrow> pool_env \<Rightarrow> bool" where
  "env_ok p e = (case e_memalign e of None \<Rightarrow> True | Some b \<Rightarrow>
     0 < b \<and> b + 2 ^ 30 \<le> 2 ^ 64 \<and>
     (\<forall>r \<in> set (g_regions p). r_start r + r_size r \<le> b \<or> b + 2 ^ 30 \<le> r_start r))"

definition prefix_of :: "'a list \<Rightarrow> 'a list \<Rightarrow> bool" where
  "prefix_of xs ys = (\<exists>zs. ys = xs @ zs)"

lemma prefix_of_simps [simp]: "prefix_of xs xs" "prefix_of xs (xs @ zs)"
  by (auto simp: prefix_of_def)

lemma prefix_of_trans: "prefix_of xs ys \<Longrightarrow> prefix_of ys zs \<Longrightarrow> prefix_of xs zs"
  by (auto simp: prefix_of_def)

section \<open>Nodes and blocks\<close>

lemma g_block_size_pos [simp]: "0 < g_block_size t"
  by (simp add: g_block_size_def BYTES_IN_MB_def)

lemma region_bytes_initial: "region_bytes RDMA_INITIAL_REGION_SIZE bt = 2 ^ 30"
  by (simp add: region_bytes_def pool_consts g_block_size_def)

lemma initial_region_pos: "0 < RDMA_INITIAL_REGION_SIZE" "RDMA_INITIAL_REGION_SIZE \<noteq> 0"
  by (simp_all add: RDMA_INITIAL_REGION_SIZE_def)

lemma blocks_of_simps [simp]:
  "blocks_of bs [] = []"
  "blocks_of bs (n # ns) = node_blocks bs n @ blocks_of bs ns"
  "blocks_of bs (ns @ ms) = blocks_of bs ns @ blocks_of bs ms"
  by (simp_all add: blocks_of_def)

lemma node_blocks_one:
  assumes "n_len n = bs" and "0 < bs"
  shows "node_blocks bs n = [n_start n]"
  using assms by (simp add: node_blocks_def)

lemma node_blocks_cut:
  assumes "bs < n_len n" and "0 < bs" and "bs dvd n_len n"
  shows "node_blocks bs n =
     n_start n # node_blocks bs (n\<lparr>n_start := n_start n + bs, n_len := n_len n - bs\<rparr>)"
proof -
  obtain k where k: "n_len n = bs * Suc k"
    using assms by (metis dvd_def mult_0_right not_less0 not0_implies_Suc)
  then have "n_len n div bs = Suc k" "(n_len n - bs) div bs = k"
    using assms(2) by simp_all
  moreover have "[0..<Suc k] = 0 # map Suc [0..<k]"
    by (simp add: map_Suc_upt upt_conv_Cons del: upt_Suc)
  ultimately show ?thesis
    by (simp add: node_blocks_def o_def algebra_simps del: upt_Suc)
qed

lemma node_blocks_take_block:
  assumes "node_ok (Idle bt i) n"
  shows "node_blocks (g_block_size bt) n = n_start n #
    (if g_block_size bt < n_len n
     then node_blocks (g_block_size bt)
            (n\<lparr>n_start := n_start n + g_block_size bt, n_len := n_len n - g_block_size bt\<rparr>)
     else [])"
proof (cases "g_block_size bt < n_len n")
  case True
  with assms show ?thesis by (simp add: node_blocks_cut node_ok_def)
next
  case False
  with assms have "n_len n = g_block_size bt"
    by (auto simp: node_ok_def dest: dvd_imp_le)
  then show ?thesis by (simp add: node_blocks_one)
qed

lemma blocks_of_singles:
  "\<forall>n \<in> set ns. n_len n = bs \<Longrightarrow> 0 < bs \<Longrightarrow> blocks_of bs ns = map n_start ns"
  by (induction ns) (auto simp: node_blocks_one)


lemma held_upd [simp]:
  "held (ns(l := x)) = (held ns)(l := blocks_of (g_block_size (loc_type l)) x)"
  by (auto simp: held_def)

lemma node_ok_block: "node_ok l n \<Longrightarrow> n_start n \<in> set (node_blocks (g_block_size (loc_type l)) n)"
  by (auto simp: node_ok_def node_blocks_def image_iff elim!: dvdE)

lemma node_ok_Exp: "node_ok (Exp b i) = node_ok (Idle b i)"
  by (rule ext) (simp add: node_ok_def)

section \<open>Moving nodes between places\<close>

lemma nodes_goodD:
  assumes "nodes_good rs ns L"
  shows "list_all (node_ok l) (ns l)" and "part (held ns) L"
    and "a \<in> set (held ns l) \<Longrightarrow> valid_block rs (loc_type l) a"
    and "b \<in> L \<Longrightarrow> \<exists>bt. valid_block rs bt b"
  using assms unfolding nodes_good_def by auto

lemma nodes_good_pop:
  assumes "nodes_good rs ns L" and "held ns l = a # blocks_of (g_block_size (loc_type l)) ns'"
    and "list_all (node_ok l) ns'"
  shows "nodes_good rs (ns(l := ns')) (insert a L)"
proof -
  note g = nodes_goodD [OF assms(1)]
  have "part (held (ns(l := ns'))) (insert a L)"
    using part_pop [OF g(2) assms(2)] by simp
  moreover have "valid_block rs (loc_type l) a" using g(3) [of a l] assms(2) by simp
  moreover have "valid_block rs (loc_type k) b" if "b \<in> set (held (ns(l := ns')) k)" for b k
    using that g(3) [of b k] assms(2) by (auto split: if_splits)
  ultimately show ?thesis
    using g(1,4) assms(3) unfolding nodes_good_def by auto
qed

lemma nodes_good_take:
  assumes "nodes_good rs ns L" and "ns (Idle bt i) = n # rest"
  shows "nodes_good rs (ns(Idle bt i := (if g_block_size bt < n_len n
     then n\<lparr>n_start := n_start n + g_block_size bt, n_len := n_len n - g_block_size bt\<rparr> # rest
     else rest))) (insert (n_start n) L)"
proof -
  have ok: "node_ok (Idle bt i) n" and rest: "list_all (node_ok (Idle bt i)) rest"
    using nodes_goodD(1) [OF assms(1), of "Idle bt i"] assms(2) by auto
  have cut: "node_ok (Idle bt i) (n\<lparr>n_start := n_start n + g_block_size bt,
      n_len := n_len n - g_block_size bt\<rparr>)" if "g_block_size bt < n_len n"
    using that ok by (simp add: node_ok_def)
  show ?thesis
    by (rule nodes_good_pop [OF assms(1)])
      (auto simp: held_def assms(2) node_blocks_take_block [OF ok] rest cut)
qed

lemma nodes_good_pop_tls:
  assumes "nodes_good rs ns L" and "ns (Tls t) = n # rest"
  shows "nodes_good rs (ns(Tls t := rest)) (insert (n_start n) L)"
proof -
  have "n_len n = g_block_size 0" and rest: "list_all (node_ok (Tls t)) rest"
    using nodes_goodD(1) [OF assms(1), of "Tls t"] assms(2) by (auto simp: node_ok_def)
  then show ?thesis
    by (intro nodes_good_pop [OF assms(1)]) (simp_all add: held_def assms(2) node_blocks_one)
qed

lemma nodes_good_prefix:
  assumes "nodes_good rs ns L"
  shows "nodes_good rs (ns(l := take k (ns l))) L"
proof -
  note g = nodes_goodD [OF assms]
  have all: "blocks_of bs (ns l) = blocks_of bs (take k (ns l)) @ blocks_of bs (drop k (ns l))" for bs
    by (metis append_take_drop_id blocks_of_simps(3))
  have d: "distinct (held ns l)" by (rule part_distinct [OF g(2)])
  have p: "part (held (ns(l := take k (ns l)))) L"
    unfolding held_upd by (rule part_sub [OF g(2)]) (use d in \<open>auto simp: held_def all\<close>)
  have "valid_block rs (loc_type m) b" if "b \<in> set (held (ns(l := take k (ns l))) m)" for b m
    using that g(3) [of b m] by (cases "m = l") (auto simp: held_def all)
  moreover have "list_all (node_ok l) (take k (ns l))"
    using g(1) [of l] by (auto simp: list_all_iff dest: in_set_takeD)
  ultimately show ?thesis
    using g(1,4) p unfolding nodes_good_def by auto
qed

lemma nodes_good_move:
  assumes "nodes_good rs ns L" and "ns l = xs @ ys" and "l \<noteq> l'" and "loc_type l = loc_type l'"
    and "list_all (node_ok l') xs"
  shows "nodes_good rs (ns(l := ys, l' := xs @ ns l')) L"
proof -
  note g = nodes_goodD [OF assms(1)]
  let ?b = "blocks_of (g_block_size (loc_type l'))"
  have d: "distinct (?b xs @ ?b ys)"
    using part_distinct [OF g(2), of l] assms(2,4) by (simp add: held_def)
  have d': "distinct (held ns l')" by (rule part_distinct [OF g(2)])
  have sep: "set (?b xs @ ?b ys) \<inter> set (held ns l') = {}"
    using part_same [OF g(2), of _ l l'] assms(2,3,4) by (fastforce simp: held_def)
  have p: "part (held (ns(l := ys, l' := xs @ ns l'))) L"
    unfolding held_upd
    by (rule part_move [OF g(2) assms(3)])
      (use d d' sep assms(2,4) in \<open>auto simp: held_def\<close>)
  have "valid_block rs (loc_type m) b" if "b \<in> set (held (ns(l := ys, l' := xs @ ns l')) m)" for b m
    using that g(3) [of b m] g(3) [of b l] assms(2,3,4) by (auto simp: held_def split: if_splits)
  moreover have "list_all (node_ok l) ys" using g(1) [of l] assms(2) by simp
  ultimately show ?thesis
    using g(1,4) p assms(5) unfolding nodes_good_def by auto
qed

lemma nodes_good_push:
  assumes "nodes_good rs ns L" and "a \<in> L" and "valid_block rs (loc_type l) a"
  shows "nodes_good rs (ns(l := \<lparr>n_start = a, n_len = g_block_size (loc_type l)\<rparr> # ns l)) (L - {a})"
proof -
  note g = nodes_goodD [OF assms(1)]
  let ?n = "\<lparr>n_start = a, n_len = g_block_size (loc_type l)\<rparr>"
  have nb: "node_blocks (g_block_size (loc_type l)) ?n = [a]" by (simp add: node_blocks_one)
  have "a \<notin> set (held ns l)" using part_live [OF g(2)] assms(2) by blast
  then have p: "part (held (ns(l := ?n # ns l))) (L - {a})"
    unfolding held_upd
    by (intro part_insert [OF g(2) assms(2)])
      (use part_distinct [OF g(2), of l] in \<open>auto simp: nb held_def\<close>)
  have "valid_block rs (loc_type m) b" if "b \<in> set (held (ns(l := ?n # ns l)) m)" for b m
    using that g(3) [of b m] assms(3) by (auto simp: nb held_def split: if_splits)
  moreover have "node_ok l ?n" by (auto simp: node_ok_def split: loc.splits)
  ultimately show ?thesis
    using g(1,4) p unfolding nodes_good_def by auto
qed

section \<open>Regions\<close>

lemma region_walk_unique:
  assumes "sorted_wrt apart rs" and "list_all region_ok rs" and "r \<in> set rs"
    and "r_start r \<le> a" and "a < r_start r + r_size r"
  shows "region_walk a rs = Some r"
  using assms by (induction rs) (auto simp: region_ok_def apart_def)

lemma region_walk_SomeD:
  "region_walk a rs = Some r \<Longrightarrow> r \<in> set rs \<and> r_start r \<le> a \<and> a < r_start r + r_size r"
  by (induction rs) (auto split: if_splits)

lemma valid_block_region:
  assumes "regions_ok rs" and "valid_block rs bt a"
  obtains r where "r \<in> set rs" and "r_block_type r = bt" and "region_walk a rs = Some r"
    and "r_start r \<le> a" and "a + g_block_size bt \<le> r_start r + r_size r" and "0 < a"
    and "region_ok r" and "g_block_size bt dvd a - r_start r"
proof -
  obtain r where r: "r \<in> set rs" "r_block_type r = bt" "r_start r \<le> a"
      "a + g_block_size bt \<le> r_start r + r_size r" "g_block_size bt dvd a - r_start r"
    using assms(2) unfolding valid_block_def by blast
  have ok: "region_ok r" using assms(1) r(1) by (auto simp: regions_ok_def list_all_iff)
  have "a < a + g_block_size bt" by simp
  then have "a < r_start r + r_size r" using r(4) by linarith
  then have "region_walk a rs = Some r"
    using assms(1) r region_walk_unique [of rs r a] by (simp add: regions_ok_def)
  then show thesis using that r ok by (simp add: region_ok_def)
qed

lemma valid_block_type:
  assumes "regions_ok rs" and "valid_block rs bt a" and "valid_block rs bt' a"
  shows "bt = bt'"
  using valid_block_region [OF assms(1,2)] valid_block_region [OF assms(1,3)]
  by (metis option.inject)

lemma multiples_apart:
  fixes a b x y bs :: nat
  assumes "bs dvd x" and "bs dvd y" and "x \<noteq> y"
  shows "x + bs \<le> y \<or> y + bs \<le> x"
proof -
  obtain i j where "x = bs * i" "y = bs * j" using assms by (auto elim!: dvdE)
  moreover have "i < j \<or> j < i" using assms calculation by fastforce
  moreover have "Suc i \<le> j \<Longrightarrow> bs * Suc i \<le> bs * j" "Suc j \<le> i \<Longrightarrow> bs * Suc j \<le> bs * i"
    by (rule mult_le_mono2; simp)+
  ultimately show ?thesis by auto
qed

text \<open>Two different blocks never share a byte.\<close>

lemma valid_blocks_apart:
  assumes "regions_ok rs" and "valid_block rs bt a" and "valid_block rs bt' b" and "a \<noteq> b"
  shows "{a..<a + g_block_size bt} \<inter> {b..<b + g_block_size bt'} = {}"
proof -
  obtain r where r: "r \<in> set rs" "r_block_type r = bt" "r_start r \<le> a"
      "a + g_block_size bt \<le> r_start r + r_size r" "g_block_size bt dvd a - r_start r"
    by (rule valid_block_region [OF assms(1,2)])
  obtain q where q: "q \<in> set rs" "r_block_type q = bt'" "r_start q \<le> b"
      "b + g_block_size bt' \<le> r_start q + r_size q" "g_block_size bt' dvd b - r_start q"
    by (rule valid_block_region [OF assms(1,3)])
  show ?thesis
  proof (cases "r = q")
    case True
    then have "bt = bt'" using r(2) q(2) by simp
    moreover have "a - r_start r \<noteq> b - r_start r" using True r(3) q(3) assms(4) by simp
    ultimately have "a - r_start r + g_block_size bt \<le> b - r_start r \<or>
        b - r_start r + g_block_size bt \<le> a - r_start r"
      using multiples_apart [of "g_block_size bt" "a - r_start r" "b - r_start r"] True r(5) q(5) by simp
    then show ?thesis using \<open>bt = bt'\<close> True r(3) q(3) by auto
  next
    case False
    have "apart r q \<or> apart q r"
      using assms(1) r(1) q(1) False by (auto simp: regions_ok_def sorted_wrt_iff_nth_less in_set_conv_nth)
        (metis nat_neq_iff)
    then show ?thesis using r q by (auto simp: apart_def)
  qed
qed

section \<open>The operations keep the invariant\<close>

lemma nodes_at_tls:
  "nodes_at (p\<lparr>tls := (tls p)(t := th)\<rparr>) = (nodes_at p)(Tls t := tls_idle_list th)"
  by (rule ext, case_tac x) auto

lemma nodes_at_idle:
  assumes "g_info p = Some gi" and "idle_list gi' = set2 (idle_list gi) bt i l"
    and "expansion_list gi' = expansion_list gi"
  shows "nodes_at (p\<lparr>g_info := Some gi'\<rparr>) = (nodes_at p)(Idle bt i := l)"
proof (rule ext)
  show "nodes_at (p\<lparr>g_info := Some gi'\<rparr>) k = ((nodes_at p)(Idle bt i := l)) k" for k
    using assms by (cases k) auto
qed

lemma nodes_at_idle_tls:
  assumes "g_info p = Some gi" and "idle_list gi' = set2 (idle_list gi) bt i l"
    and "expansion_list gi' = expansion_list gi"
  shows "nodes_at (p\<lparr>g_info := Some gi', tls := (tls p)(t := th)\<rparr>) =
     (nodes_at p)(Idle bt i := l, Tls t := tls_idle_list th)"
  using nodes_at_idle [OF assms] nodes_at_tls [of "p\<lparr>g_info := Some gi'\<rparr>" t th] by simp

lemma pool_okD:
  assumes "pool_ok p L"
  shows "regions_ok (g_regions p)" and "nodes_good (g_regions p) (nodes_at p) L"
    and "tls_ok (tls p t)" and "\<exists>gi. g_info p = Some gi" and "\<exists>ms. g_mrs p = Some ms"
  using assms by (auto simp: pool_ok_def)

lemma MoveExpansion_ok:
  assumes "pool_ok p L" and "nodes_at p (Idle bt i) = []"
  shows "runs (MoveExpansionList2EmptyIdleList bt i) p
     (\<lambda>_ p'. pool_ok p' L \<and> nodes_at p' (Idle bt i) = nodes_at p (Exp bt i) \<and> tls p' = tls p \<and>
       g_regions p' = g_regions p)"
proof -
  obtain gi where gi: "g_info p = Some gi" using pool_okD(4) [OF assms(1)] by blast
  let ?p = "p\<lparr>g_info := Some (gi\<lparr>idle_list := set2 (idle_list gi) bt i (expansion_list gi bt i),
      idle_size := set2 (idle_size gi) bt i (idle_size gi bt i + expansion_size gi bt i),
      expansion_list := set2 (expansion_list gi) bt i [],
      expansion_size := set2 (expansion_size gi) bt i 0\<rparr>)\<rparr>"
  have n: "nodes_at ?p = (nodes_at p)(Exp bt i := [], Idle bt i := nodes_at p (Exp bt i) @ nodes_at p (Idle bt i))"
    using gi assms(2) by (intro ext, case_tac x) auto
  have "list_all (node_ok (Idle bt i)) (nodes_at p (Exp bt i))"
    using nodes_goodD(1) [OF pool_okD(2) [OF assms(1)], of "Exp bt i"]
    unfolding node_ok_Exp .
  then have "nodes_good (g_regions p) (nodes_at ?p) L"
    unfolding n by (intro nodes_good_move [OF pool_okD(2) [OF assms(1)]]) auto
  then have "pool_ok ?p L" using assms(1) by (simp add: pool_ok_def)
  then show ?thesis using gi assms(2)
    by (simp add: MoveExpansionList2EmptyIdleList_def runs_def)
qed

text \<open>A new region: bucket \<open>i\<close> gets the \<open>i\<close>-th quarter.\<close>

definition region_nodes :: "addr \<Rightarrow> nat \<Rightarrow> loc \<Rightarrow> IdleNode list" where
  "region_nodes base bt l = (case l of Exp b i \<Rightarrow>
     if b = bt \<and> i < RDMA_MEMPOOL_BUCKETS then [bucket_node base (2 ^ 30) i] else [] | _ \<Rightarrow> [])"

lemma g_block_size_dvd_quarter: "g_block_size bt dvd 2 ^ 28"
  by (simp add: g_block_size_def BYTES_IN_MB_def)

lemma region_nodes_blocks:
  assumes "a \<in> set (held (region_nodes base bt) l)"
  obtains i k where "l = Exp bt i" and "i < RDMA_MEMPOOL_BUCKETS"
    and "a = base + i * 2 ^ 28 + k * g_block_size bt"
    and "k * g_block_size bt + g_block_size bt \<le> 2 ^ 28"
proof (cases l)
  case (Exp b i)
  have b: "b = bt" "i < RDMA_MEMPOOL_BUCKETS"
    using assms Exp by (auto simp: held_def region_nodes_def split: if_splits)
  then obtain k where k: "k < 2 ^ 28 div g_block_size bt" "a = base + i * 2 ^ 28 + k * g_block_size bt"
    using assms Exp by (auto simp: held_def region_nodes_def node_blocks_def bucket_node_def pool_consts)
  have "Suc k * g_block_size bt \<le> 2 ^ 28 div g_block_size bt * g_block_size bt"
    using k(1) by (intro mult_le_mono1) simp
  also have "\<dots> \<le> 2 ^ 28" by simp
  finally have "k * g_block_size bt + g_block_size bt \<le> 2 ^ 28" by simp
  then show ?thesis using that [of i k] Exp b k(2) by blast
qed (use assms in \<open>simp_all add: held_def region_nodes_def\<close>)

lemma region_nodes_part: "part (held (region_nodes base bt)) {}"
  unfolding part_def
proof (intro conjI allI impI)
  show "distinct (held (region_nodes base bt) l)" for l
    by (auto simp: held_def region_nodes_def node_blocks_def distinct_map inj_on_def split: loc.splits)
  show "l = l'" if a: "a \<in> set (held (region_nodes base bt) l)" "a \<in> set (held (region_nodes base bt) l')" for l l' a
  proof -
    obtain i k where 1: "l = Exp bt i" "a = base + i * 2 ^ 28 + k * g_block_size bt"
        "k * g_block_size bt + g_block_size bt \<le> 2 ^ 28"
      using region_nodes_blocks [OF a(1)] by metis
    obtain i' k' where 2: "l' = Exp bt i'" "a = base + i' * 2 ^ 28 + k' * g_block_size bt"
        "k' * g_block_size bt + g_block_size bt \<le> 2 ^ 28"
      using region_nodes_blocks [OF a(2)] by metis
    have "k * g_block_size bt < 2 ^ 28" "k' * g_block_size bt < 2 ^ 28"
      using 1(3) 2(3) g_block_size_pos [of bt] by linarith+
    moreover have "(a - base) div 2 ^ 28 = i" if "k * g_block_size bt < 2 ^ 28"
      using that 1(2) by simp
    moreover have "(a - base) div 2 ^ 28 = i'" if "k' * g_block_size bt < 2 ^ 28"
      using that 2(2) by simp
    ultimately show "l = l'" using 1(1) 2(1) by simp
  qed
qed simp

lemma region_nodes_valid:
  assumes "r_start r = base" and "r_size r = 2 ^ 30" and "r_block_type r = bt"
    and "a \<in> set (held (region_nodes base bt) l)"
  shows "valid_block [r] (loc_type l) a"
proof -
  obtain i k where 1: "l = Exp bt i" "i < RDMA_MEMPOOL_BUCKETS" "a = base + i * 2 ^ 28 + k * g_block_size bt"
      "k * g_block_size bt + g_block_size bt \<le> 2 ^ 28"
    by (rule region_nodes_blocks [OF assms(4)])
  have "i * 2 ^ 28 \<le> 3 * 2 ^ 28" using 1(2) by (intro mult_le_mono1) (simp add: pool_consts)
  then have "i * 2 ^ 28 + (k * g_block_size bt + g_block_size bt) \<le> 2 ^ 30" using 1(4) by simp
  then show ?thesis
    using 1 assms g_block_size_dvd_quarter [of bt] by (simp add: valid_block_def)
qed

lemma valid_block_mono: "valid_block rs bt a \<Longrightarrow> set rs \<subseteq> set rs' \<Longrightarrow> valid_block rs' bt a"
  by (auto simp: valid_block_def)

lemma valid_block_new_region:
  assumes "regions_ok (rs @ [r])" and "valid_block rs bt a" and "valid_block [r] bt' a"
  shows False
proof -
  have ok: "regions_ok rs" "\<forall>q \<in> set rs. apart q r"
    using assms(1) by (auto simp: regions_ok_def sorted_wrt_append)
  obtain q where "q \<in> set rs" "r_start q \<le> a" "a + g_block_size bt \<le> r_start q + r_size q"
    using assms(2) by (auto simp: valid_block_def)
  moreover have "r_start r \<le> a" "a + g_block_size bt' \<le> r_start r + r_size r"
    using assms(3) by (auto simp: valid_block_def)
  moreover have "0 < g_block_size bt" "0 < g_block_size bt'" by simp_all
  moreover have "apart q r" using ok(2) calculation(1) by blast
  ultimately show False unfolding apart_def by linarith
qed

lemma nodes_good_add:
  assumes "nodes_good rs ns L" and "regions_ok (rs @ [r])"
    and r: "r_start r = base" "r_size r = 2 ^ 30" "r_block_type r = bt"
  shows "nodes_good (rs @ [r]) (\<lambda>l. region_nodes base bt l @ ns l) L"
proof -
  note g = nodes_goodD [OF assms(1)]
  have h: "held (\<lambda>l. region_nodes base bt l @ ns l) = (\<lambda>l. held (region_nodes base bt) l @ held ns l)"
    by (rule ext) (simp add: held_def)
  have new: "a \<notin> set (held ns l')" if "a \<in> set (held (region_nodes base bt) l)" for l l' a
    using valid_block_new_region [OF assms(2) g(3) region_nodes_valid [OF r that]] by blast
  have live: "a \<notin> L" if "a \<in> set (held (region_nodes base bt) l)" for l a
    using valid_block_new_region [OF assms(2) _ region_nodes_valid [OF r that]] g(4) by blast
  have p: "part (held (\<lambda>l. region_nodes base bt l @ ns l)) L"
    unfolding h by (rule part_add [OF g(2) region_nodes_part [of base bt]]) (use new live in auto)
  have "valid_block (rs @ [r]) (loc_type l) a"
    if a: "a \<in> set (held (\<lambda>l. region_nodes base bt l @ ns l) l)" for l a
  proof -
    consider "a \<in> set (held (region_nodes base bt) l)" | "a \<in> set (held ns l)" using a unfolding h by auto
    then show ?thesis
      by cases (auto intro: valid_block_mono [OF g(3)] valid_block_mono [OF region_nodes_valid [OF r]])
  qed
  moreover have "\<exists>b. valid_block (rs @ [r]) b a" if "a \<in> L" for a
    using g(4) [OF that] valid_block_mono [of rs _ a "rs @ [r]"] by auto
  moreover have "list_all (node_ok l) (region_nodes base bt l)" for l
    using g_block_size_dvd_quarter
    by (auto simp: region_nodes_def node_ok_def bucket_node_def pool_consts split: loc.splits)
  ultimately show ?thesis using p g(1) unfolding nodes_good_def by simp
qed

lemma nodes_at_add_region:
  assumes "g_info p = Some gi"
  shows "nodes_at (p\<lparr>g_mrs := m, g_regions := rs, g_info := Some (add_region gi base (2 ^ 30) bt)\<rparr>) =
     (\<lambda>l. region_nodes base bt l @ nodes_at p l)"
proof (rule ext)
  show "nodes_at (p\<lparr>g_mrs := m, g_regions := rs, g_info := Some (add_region gi base (2 ^ 30) bt)\<rparr>) l =
     region_nodes base bt l @ nodes_at p l" for l
    using assms by (cases l) (simp_all add: region_nodes_def add_region_def)
qed

lemma nodes_at_cong:
  assumes "g_info p' = g_info p" and "tls p' = tls p"
  shows "nodes_at p' = nodes_at p"
proof (rule ext)
  show "nodes_at p' l = nodes_at p l" for l using assms by (cases l) simp_all
qed

lemma pool_ok_cong:
  assumes "pool_ok p L" and "g_mrs p' \<noteq> None" and "g_info p' = g_info p" and "tls p' = tls p"
    and "g_regions p' = g_regions p"
  shows "pool_ok p' L"
  using assms nodes_at_cong [OF assms(3,4)] by (simp add: pool_ok_def)

text \<open>The system gives no further region: all entries are in use, or a call fails.\<close>

definition no_region :: "pool \<Rightarrow> pool_env \<Rightarrow> bool" where
  "no_region p e = (length (g_regions p) = RDMA_MEMPOOL_MAX_REGIONS \<or> e_memalign e = None \<or>
     e_reg_mr e = None \<or> e_reg_mr e = Some 0)"

definition grown :: "pool \<Rightarrow> pool_env \<Rightarrow> nat \<Rightarrow> addr set \<Rightarrow> addr option \<Rightarrow> pool \<Rightarrow> bool" where
  "grown p e bt L b p' = (pool_ok p' L \<and> tls p' = tls p \<and> prefix_of (g_regions p) (g_regions p') \<and>
     (\<forall>bt i. nodes_at p' (Idle bt i) = nodes_at p (Idle bt i)) \<and> (b = None \<longrightarrow> no_region p e) \<and>
     (b \<noteq> None \<longrightarrow> (\<forall>i < RDMA_MEMPOOL_BUCKETS. nodes_at p' (Exp bt i) \<noteq> [])))"

lemma ExtendBlockPool_ok:
  assumes "pool_ok p L" and "env_ok p e" and "bt < BLOCK_SIZE_COUNT"
  shows "runs (ExtendBlockPool e RDMA_INITIAL_REGION_SIZE bt) p (grown p e bt L)"
proof -
  obtain gi ms where gi: "g_info p = Some gi" "g_mrs p = Some ms"
    using pool_okD(4,5) [OF assms(1)] by blast
  have same: "no_region p e \<Longrightarrow> grown p e bt L None (p\<lparr>g_mrs := Some m, p_freed := f\<rparr>)"
    and same': "no_region p e \<Longrightarrow> grown p e bt L None (p\<lparr>p_freed := f\<rparr>)"
      "no_region p e \<Longrightarrow> grown p e bt L None p" for m f
    using assms(1) gi by (auto simp: grown_def intro!: pool_ok_cong [OF assms(1)])
  have ext: "grown p e bt L (Some base) (p\<lparr>g_mrs := Some m, g_regions := g_regions p @ [r],
      g_info := Some (add_region gi base (2 ^ 30) bt)\<rparr>)"
    if "e_memalign e = Some base" "length (g_regions p) \<noteq> RDMA_MEMPOOL_MAX_REGIONS" "key \<noteq> 0"
      "r = \<lparr>r_start = base, r_size = 2 ^ 30, r_block_type = bt, r_lkey = key, r_rkey = key\<rparr>" for base key r m
  proof -
    have rok: "regions_ok (g_regions p @ [r])"
      using that assms(2,3) pool_okD(1) [OF assms(1)] g_block_size_dvd_quarter [of bt]
      by (auto simp: regions_ok_def region_ok_def env_ok_def sorted_wrt_append apart_def pool_consts
          intro: dvd_trans [of _ "2 ^ 28 * 4"])
    show ?thesis
      using assms(1) rok nodes_good_add [OF pool_okD(2) [OF assms(1)] rok, of base bt] that(4)
      by (simp add: grown_def pool_ok_def nodes_at_add_region [OF gi(1), simplified] region_nodes_def)
  qed
  show ?thesis
    using same same' ext gi
    by (auto simp: runs_def ExtendBlockPool_def ExtendBlockPoolImpl_def RdmaRegisterMemory_def
        region_bytes_initial initial_region_pos no_region_def
        split: option.splits)
qed

text \<open>Making an idle list non-empty.\<close>

definition refilled :: "pool \<Rightarrow> pool_env \<Rightarrow> nat \<Rightarrow> nat \<Rightarrow> addr set \<Rightarrow> bool \<Rightarrow> pool \<Rightarrow> bool" where
  "refilled p e bt i L ok p' = (pool_ok p' L \<and> tls p' = tls p \<and> prefix_of (g_regions p) (g_regions p') \<and>
     (\<not> ok \<longrightarrow> no_region p e) \<and> (ok \<longrightarrow> nodes_at p' (Idle bt i) \<noteq> []))"

lemma move_refilled:
  assumes "pool_ok p L" and "nodes_at p (Idle bt i) = []" and "nodes_at p (Exp bt i) \<noteq> []"
    and "tls p = tls p0" and "prefix_of (g_regions p0) (g_regions p)"
  shows "runs (bindp (MoveExpansionList2EmptyIdleList bt i) (\<lambda>_. ret True)) p (refilled p0 e bt i L)"
  by (rule runs_then [OF MoveExpansion_ok [OF assms(1,2)]])
    (use assms(3,4,5) in \<open>auto simp: refilled_def\<close>)

lemma refill_ok:
  assumes "pool_ok p L" and "env_ok p e" and "bt < BLOCK_SIZE_COUNT" and "i < RDMA_MEMPOOL_BUCKETS"
  shows "runs (refill e bt i) p (refilled p e bt i L)"
proof -
  obtain gi where gi: "g_info p = Some gi" using pool_okD(4) [OF assms(1)] by blast
  consider (idle) "nodes_at p (Idle bt i) \<noteq> []"
    | (exp) "nodes_at p (Idle bt i) = []" "nodes_at p (Exp bt i) \<noteq> []"
    | (ext) "nodes_at p (Idle bt i) = []" "nodes_at p (Exp bt i) = []" by blast
  then show ?thesis
  proof cases
    case idle
    then show ?thesis using gi assms(1) by (simp add: refill_def runs_def refilled_def)
  next
    case exp
    then show ?thesis
      using gi move_refilled [OF assms(1) exp, of p] by (simp add: refill_def runs_def)
  next
    case ext
    have "runs (bindp (ExtendBlockPool e RDMA_INITIAL_REGION_SIZE bt) (\<lambda>b. if b = None then ret False
        else bindp (MoveExpansionList2EmptyIdleList bt i) (\<lambda>_. ret True))) p (refilled p e bt i L)"
    proof (rule runs_then [OF ExtendBlockPool_ok [OF assms(1-3)]])
      show "runs (if b = None then ret False else bindp (MoveExpansionList2EmptyIdleList bt i) (\<lambda>_. ret True))
          p' (refilled p e bt i L)" if g: "grown p e bt L b p'" for b p'
        using g move_refilled [of p' L bt i p] ext(1) assms(4) unfolding grown_def
        by (cases b) (simp_all add: refilled_def)
    qed
    then show ?thesis using gi ext by (simp add: refill_def runs_def)
  qed
qed

text \<open>Moving single blocks to the thread's cache.\<close>

lemma tls_grab_split:
  "tls_grab num l = (moved, left, num') \<Longrightarrow> l = moved @ left \<and> num' = num + int (length moved) \<and>
     (\<forall>n \<in> set moved. n_len n \<le> g_block_size 0) \<and>
     (num \<le> RDMA_MEMPOOL_TLS_CACHE_NUM div 2 \<longrightarrow> num' \<le> RDMA_MEMPOOL_TLS_CACHE_NUM div 2)"
proof (induction num l arbitrary: moved left num' rule: tls_grab.induct)
  case (2 num node rest)
  then show ?case
    by (cases "num \<ge> RDMA_MEMPOOL_TLS_CACHE_NUM div 2 \<or> n_len node > g_block_size 0")
      (auto split: prod.splits)
qed simp

lemma fill_tls_ok:
  assumes "pool_ok (p\<lparr>g_info := Some gi\<rparr>) L" and "tls_idle_list (tls p t) = []"
  shows "pool_ok (fill_tls t i gi p) L"
proof -
  let ?q = "p\<lparr>g_info := Some gi\<rparr>"
  let ?th = "\<lambda>l n. (tls p t)\<lparr>tls_idle_list := l, tls_idle_num := n\<rparr>"
  have q: "g_info ?q = Some gi" "nodes_at ?q (Idle 0 i) = idle_list gi 0 i" "nodes_at ?q (Tls t) = []"
    using assms(2) by simp_all
  have n0: "tls_idle_num (tls p t) = 0"
    using pool_okD(3) [OF assms(1), of t] assms(2) by (simp add: tls_ok_def)
  obtain moved left num where g: "tls_grab 0 (idle_list gi 0 i) = (moved, left, num)"
    by (cases "tls_grab 0 (idle_list gi 0 i)")
  note sp = tls_grab_split [OF g]
  have good: "nodes_good (g_regions ?q) (nodes_at ?q) L" by (rule pool_okD(2) [OF assms(1)])
  have upd: "nodes_at (?q\<lparr>g_info := Some (gi\<lparr>idle_list := set2 (idle_list gi) 0 i l\<rparr>), tls := (tls ?q)(t := th)\<rparr>) =
      (nodes_at ?q)(Idle 0 i := l, Tls t := tls_idle_list th)" for l th
    by (rule nodes_at_idle_tls [OF q(1)]) simp_all
  have tok: "tls_ok (?th l n)" if "n = int (length l)" "n \<le> RDMA_MEMPOOL_TLS_CACHE_NUM" for l n
    using that by (simp add: tls_ok_def)
  show ?thesis
  proof (cases "moved = []")
    case True
    have "nodes_good (g_regions p) ((nodes_at ?q)(Idle 0 i := take 1 (idle_list gi 0 i), Tls t := [])) L"
      using nodes_good_prefix [OF good, of "Idle 0 i" 1] q by (simp add: fun_upd_idem)
    then show ?thesis
      using assms(1) True sp upd tok [of 0 "[]"] n0 g
      by (simp add: fill_tls_def pool_ok_def pool_consts)
  next
    case False
    have "list_all (node_ok (Tls t)) moved"
      using nodes_goodD(1) [OF good, of "Idle 0 i"] q(2) sp
      by (auto simp: list_all_iff node_ok_def dest!: dvd_imp_le bspec)
    then have "nodes_good (g_regions p) ((nodes_at ?q)(Idle 0 i := left, Tls t := moved)) L"
      using nodes_good_move [OF good, of "Idle 0 i" moved left "Tls t"] q sp by simp
    then show ?thesis
      using assms(1) False sp upd tok [of num moved] n0 g
      by (simp add: fill_tls_def pool_ok_def pool_consts)
  qed
qed

end
