(* ===== verification/Pool_Allocator.thy ===== *)
theory Pool_Allocator
  imports Pool_Ownership
begin

text \<open>
  The block pool as an allocator. \<open>BlockAllocate\<close>, \<open>BlockDeallocate\<close> and \<open>RecycleAll\<close> keep
  the ownership invariant. The interface the users of the pool rely on is the locale
  \<open>block_allocator\<close>; it is interpreted on the pool's operations.
\<close>

section \<open>Allocation\<close>

text \<open>What a call for \<open>len\<close> bytes returns: a block nobody holds, of a size that is enough, or
  null when no region can be had.\<close>

definition allocated :: "pool \<Rightarrow> pool_env \<Rightarrow> addr set \<Rightarrow> nat \<Rightarrow> addr option \<Rightarrow> pool \<Rightarrow> bool" where
  "allocated p e L bt r p' = (prefix_of (g_regions p) (g_regions p') \<and> (case r of
     None \<Rightarrow> pool_ok p' L \<and> no_region p e
   | Some a \<Rightarrow> a \<notin> L \<and> pool_ok p' (insert a L) \<and> valid_block (g_regions p') bt a))"

lemma live_block_new:
  assumes "pool_ok p L" and "n \<in> set (nodes_at p l)"
  shows "n_start n \<notin> L \<and> valid_block (g_regions p) (loc_type l) (n_start n)"
proof -
  note g = nodes_goodD [OF pool_okD(2) [OF assms(1)]]
  have "node_ok l n" using g(1) [of l] assms(2) by (simp add: list_all_iff)
  then have "n_start n \<in> set (held (nodes_at p) l)"
    using node_ok_block assms(2) by (auto simp: held_def blocks_of_def)
  then show ?thesis using g(3) part_live [OF g(2)] by blast
qed

lemma take_block_ok:
  assumes "pool_ok p L" and "nodes_at p (Idle bt i) \<noteq> []"
    and "bt = 0 \<longrightarrow> tls_idle_list (tls p t) = []"
  shows "runs (take_block t e bt i) p (\<lambda>a p'. a \<notin> L \<and> pool_ok p' (insert a L) \<and>
     g_regions p' = g_regions p \<and> valid_block (g_regions p') bt a)"
proof -
  obtain gi where gi: "g_info p = Some gi" using pool_okD(4) [OF assms(1)] by blast
  obtain n rest where n: "idle_list gi bt i = n # rest"
    using assms(2) gi by (cases "idle_list gi bt i") auto
  then have at: "nodes_at p (Idle bt i) = n # rest" using gi by simp
  note new = live_block_new [OF assms(1), of n "Idle bt i", simplified at list.set]
  let ?l = "if g_block_size bt < n_len n
     then n\<lparr>n_start := n_start n + g_block_size bt, n_len := n_len n - g_block_size bt\<rparr> # rest else rest"
  have ok: "pool_ok (p\<lparr>g_info := Some (gi\<lparr>idle_list := set2 (idle_list gi) bt i ?l, idle_size := sz\<rparr>)\<rparr>)
      (insert (n_start n) L)" for sz
    using assms(1) nodes_good_take [OF pool_okD(2) [OF assms(1)] at]
    by (simp add: pool_ok_def nodes_at_idle [OF gi])
  have "pool_ok (fill_tls t i (gi\<lparr>idle_list := set2 (idle_list gi) 0 i ?l, idle_size := sz\<rparr>) p)
      (insert (n_start n) L)" if "bt = 0" for sz
    unfolding that by (rule fill_tls_ok [OF ok [of sz, unfolded that]]) (use that assms(3) in simp)
  then show ?thesis
    using gi n ok new
    by (auto simp: take_block_def runs_def Let_def fill_tls_def split: prod.splits)
qed

lemma AllocBlockFrom_ok:
  assumes "pool_ok p L" and "env_ok p e" and "bt < BLOCK_SIZE_COUNT"
  shows "runs (AllocBlockFrom t e bt) p (allocated p e L bt)"
proof (cases "bt = 0 \<and> tls_idle_list (tls p t) \<noteq> []")
  case True
  then obtain n rest where n: "tls_idle_list (tls p t) = n # rest"
    by (cases "tls_idle_list (tls p t)") auto
  then have at: "nodes_at p (Tls t) = n # rest" by simp
  have "tls_ok ((tls p t)\<lparr>tls_idle_list := rest, tls_idle_num := tls_idle_num (tls p t) - 1\<rparr>)"
    using pool_okD(3) [OF assms(1), of t] n by (simp add: tls_ok_def)
  then have "pool_ok (p\<lparr>tls := (tls p)(t := (tls p t)\<lparr>tls_idle_list := rest,
      tls_idle_num := tls_idle_num (tls p t) - 1\<rparr>)\<rparr>) (insert (n_start n) L)"
    using assms(1) nodes_good_pop_tls [OF pool_okD(2) [OF assms(1)] at]
    by (simp add: pool_ok_def nodes_at_tls)
  then show ?thesis
    using True n live_block_new [OF assms(1), of n "Tls t"]
    by (simp add: AllocBlockFrom_def runs_def allocated_def)
next
  case False
  let ?i = "e_rand e mod RDMA_MEMPOOL_BUCKETS"
  have i: "?i < RDMA_MEMPOOL_BUCKETS" by (simp add: pool_consts)
  have "runs (bindp (refill e bt ?i) (\<lambda>ok. if ok then bindp (take_block t e bt ?i) (\<lambda>a. ret (Some a))
      else ret None)) p (allocated p e L bt)"
  proof (rule runs_then [OF refill_ok [OF assms i]])
    show "runs (if ok then bindp (take_block t e bt ?i) (\<lambda>a. ret (Some a)) else ret None) p'
        (allocated p e L bt)" if r: "refilled p e bt ?i L ok p'" for ok p'
    proof (cases ok)
      case True
      have "runs (bindp (take_block t e bt ?i) (\<lambda>a. ret (Some a))) p' (allocated p e L bt)"
        by (rule runs_then [OF take_block_ok [of p' L]])
          (use r True False in \<open>auto simp: refilled_def allocated_def\<close>)
      then show ?thesis using True by simp
    qed (use r in \<open>simp add: refilled_def allocated_def\<close>)
  qed
  then show ?thesis using False by (auto simp: AllocBlockFrom_def runs_def Let_def)
qed

text \<open>The block type a request for \<open>len\<close> bytes is served from.\<close>

definition type_for :: "nat \<Rightarrow> nat" where
  "type_for len = (if len \<le> g_block_size 0 then 0 else if len \<le> g_block_size 1 then 1 else 2)"

definition servable :: "nat \<Rightarrow> bool" where
  "servable len = (0 < len \<and> len \<le> g_block_size 2)"

lemma BlockAllocate_ok:
  assumes "pool_ok p L" and "env_ok p e"
  shows "runs (BlockAllocate t e len) p (\<lambda>r p'.
     if servable len then allocated p e L (type_for len) r p' else r = None \<and> p' = p)"
  using AllocBlockFrom_ok [OF assms, of "type_for len" t]
  by (auto simp: BlockAllocate_def servable_def type_for_def pool_consts)

lemma type_for_enough: "servable len \<Longrightarrow> len \<le> g_block_size (type_for len)"
  by (auto simp: servable_def type_for_def)

section \<open>Release\<close>

lemma bucket_of_less:
  assumes "region_ok r" and "r_start r \<le> a" and "a < r_start r + r_size r"
  shows "bucket_of r a < RDMA_MEMPOOL_BUCKETS"
proof -
  have "(a - r_start r) * RDMA_MEMPOOL_BUCKETS < RDMA_MEMPOOL_BUCKETS * r_size r"
    using assms by (simp add: pool_consts)
  then show ?thesis unfolding bucket_of_def by (simp add: less_mult_imp_div_less)
qed

lemma live_region:
  assumes "pool_ok p L" and "a \<in> L"
  obtains r where "GetRegion p a = Some r" and "valid_block (g_regions p) (r_block_type r) a"
    and "region_ok r" and "0 < a" and "r_start r \<le> a" and "a + g_block_size (r_block_type r) \<le> r_start r + r_size r"
proof -
  obtain bt where v: "valid_block (g_regions p) bt a"
    using nodes_goodD(4) [OF pool_okD(2) [OF assms(1)] assms(2)] by blast
  show thesis
    by (rule valid_block_region [OF pool_okD(1) [OF assms(1)] v])
      (use v that in \<open>simp add: GetRegion_def\<close>)
qed

lemma BlockDeallocate_ok:
  assumes "pool_ok p L" and "a \<in> L"
  shows "runs (BlockDeallocate t a) p (\<lambda>_ p'. pool_ok p' (L - {a}) \<and> g_regions p' = g_regions p)"
proof -
  obtain gi where gi: "g_info p = Some gi" using pool_okD(4) [OF assms(1)] by blast
  obtain r where r: "GetRegion p a = Some r" "valid_block (g_regions p) (r_block_type r) a" "0 < a"
    by (rule live_region [OF assms])
  note good = pool_okD(2) [OF assms(1)] and th = pool_okD(3) [OF assms(1), of t, unfolded tls_ok_def]
  let ?bt = "r_block_type r" and ?i = "bucket_of r a"
  let ?n = "\<lparr>n_start = a, n_len = g_block_size ?bt\<rparr>"
  have idle: "nodes_good (g_regions p) ((nodes_at p)(Idle ?bt ?i := ?n # idle_list gi ?bt ?i)) (L - {a})"
    using nodes_good_push [OF good assms(2), of "Idle ?bt ?i"] r(2) gi by simp
  have tl: "nodes_good (g_regions p) ((nodes_at p)(Tls t := ?n # tls_idle_list (tls p t))) (L - {a})"
    if "?bt = 0"
    using nodes_good_push [OF good assms(2), of "Tls t"] r(2) that by simp
  let ?c = "nat (RDMA_MEMPOOL_TLS_CACHE_NUM div 2)"
  let ?l = "tls_idle_list (tls p t)"
  have both: "nodes_good (g_regions p) ((nodes_at p)(Idle ?bt ?i := take ?c ?l @ ?n # idle_list gi ?bt ?i,
      Tls t := drop ?c ?l)) (L - {a})" if "?bt = 0"
  proof -
    have "list_all (node_ok (Idle ?bt ?i)) (take ?c ?l)"
      using nodes_goodD(1) [OF good, of "Tls t"] that
      by (auto simp: list_all_iff node_ok_def dest!: in_set_takeD)
    then show ?thesis
      using nodes_good_move [OF idle, of "Tls t" "take ?c ?l" "drop ?c ?l" "Idle ?bt ?i"] that
      by (simp add: fun_upd_twist)
  qed
  have t1: "tls_ok ((tls p t)\<lparr>tls_inited := True, tls_idle_list := ?n # ?l,
      tls_idle_num := tls_idle_num (tls p t) + 1\<rparr>)" if "tls_idle_num (tls p t) < RDMA_MEMPOOL_TLS_CACHE_NUM"
    using that th by (simp add: tls_ok_def)
  have t2: "\<not> length ?l < ?c \<and> tls_ok ((tls p t)\<lparr>tls_idle_list := drop ?c ?l,
      tls_idle_num := tls_idle_num (tls p t) - int ?c\<rparr>)"
    if "\<not> tls_idle_num (tls p t) < RDMA_MEMPOOL_TLS_CACHE_NUM"
    using that th by (simp add: tls_ok_def pool_consts)
  consider "?bt = 0" "tls_idle_num (tls p t) < RDMA_MEMPOOL_TLS_CACHE_NUM"
    | "?bt = 0" "\<not> tls_idle_num (tls p t) < RDMA_MEMPOOL_TLS_CACHE_NUM" | "?bt \<noteq> 0" by blast
  then show ?thesis
  proof cases
    case 1
    then show ?thesis using r(1,3) assms(1) t1 tl
      by (simp add: BlockDeallocate_def runs_def Let_def pool_ok_def nodes_at_tls)
  next
    case 2
    then show ?thesis using r(1,3) assms(1) t2 both gi
      by (simp add: BlockDeallocate_def runs_def Let_def pool_ok_def nodes_at_idle_tls [OF gi]
          RDMA_MEMPOOL_TLS_CACHE_NUM_def)
  next
    case 3
    then show ?thesis using r(1,3) assms(1) idle gi
      by (simp add: BlockDeallocate_def runs_def Let_def pool_ok_def nodes_at_idle [OF gi])
  qed
qed

text \<open>At thread exit every cached block goes back to the bucket it came from.\<close>

definition recycled :: "(addr \<Rightarrow> Region option) \<Rightarrow> nat \<Rightarrow> IdleNode list \<Rightarrow> (loc \<Rightarrow> IdleNode list) \<Rightarrow> loc \<Rightarrow> IdleNode list" where
  "recycled get t l ns k = (case k of
     Idle b i \<Rightarrow> if b = 0 then recycle_walk get l (\<lambda>i. ns (Idle 0 i)) i else ns k
   | Tls t' \<Rightarrow> if t' = t then [] else ns k
   | _ \<Rightarrow> ns k)"

lemma recycled_step:
  assumes "get (n_start n) = Some r"
  shows "recycled get t (n # l) ns = recycled get t l (ns(Tls t := l,
     Idle 0 (bucket_of r (n_start n)) := [n] @ ns (Idle 0 (bucket_of r (n_start n)))))" (is "_ = recycled get t l ?ns")
proof (rule ext)
  have "(\<lambda>i. ?ns (Idle 0 i)) = (\<lambda>i. ns (Idle 0 i))(bucket_of r (n_start n) := n # ns (Idle 0 (bucket_of r (n_start n))))"
    by (auto simp: fun_eq_iff)
  then show "recycled get t (n # l) ns k = recycled get t l ?ns k" for k
    unfolding recycled_def by (cases k) (simp_all only: loc.case recycle_walk.simps assms option.case, auto)
qed

lemma recycled_good:
  assumes "nodes_good rs ns L" and "ns (Tls t) = l"
    and "\<And>a. valid_block rs 0 a \<Longrightarrow> \<exists>r. get a = Some r"
  shows "nodes_good rs (recycled get t l ns) L"
  using assms(1,2)
proof (induction l arbitrary: ns)
  case Nil
  then have "recycled get t [] ns = ns"
    by (auto simp: fun_eq_iff recycled_def split: loc.splits)
  then show ?case using Nil(1) by simp
next
  case (Cons n l)
  have ok: "node_ok (Tls t) n" using nodes_goodD(1) [OF Cons(2), of "Tls t"] Cons(3) by simp
  have "n_start n \<in> set (held ns (Tls t))"
    using node_ok_block [OF ok] Cons(3) by (simp add: held_def)
  then have "valid_block rs 0 (n_start n)" using nodes_goodD(3) [OF Cons(2)] by force
  then obtain r where r: "get (n_start n) = Some r" using assms(3) by blast
  let ?i = "bucket_of r (n_start n)"
  have "node_ok (Idle 0 ?i) n" using ok by (simp add: node_ok_def)
  then have "nodes_good rs (ns(Tls t := l, Idle 0 ?i := [n] @ ns (Idle 0 ?i))) L"
    using nodes_good_move [OF Cons(2), of "Tls t" "[n]" l "Idle 0 ?i"] Cons(3) by simp
  then show ?case
    unfolding recycled_step [of get, OF r] by (rule Cons(1)) simp
qed

lemma valid_block_GetRegion:
  assumes "pool_ok p L" and "valid_block (g_regions p) bt a"
  shows "\<exists>r. GetRegion p a = Some r"
  by (rule valid_block_region [OF pool_okD(1) [OF assms(1)] assms(2)]) (simp add: GetRegion_def)

lemma tls_ok_empty: "tls_ok (th\<lparr>tls_idle_list := [], tls_idle_num := 0\<rparr>)"
  by (simp add: tls_ok_def pool_consts)

lemma RecycleAll_ok:
  assumes "pool_ok p L"
  shows "runs (RecycleAll t) p (\<lambda>_ p'. pool_ok p' L \<and> nodes_at p' (Tls t) = [] \<and> g_regions p' = g_regions p)"
proof (cases "tls_idle_list (tls p t) = []")
  case True
  have "(nodes_at p)(Tls t := []) = nodes_at p" using True by (simp add: fun_upd_idem_iff)
  then show ?thesis
    using True assms by (simp add: RecycleAll_def runs_def Let_def pool_ok_def nodes_at_tls tls_ok_empty)
next
  case False
  let ?l = "tls_idle_list (tls p t)"
  obtain gi where gi: "g_info p = Some gi" using pool_okD(4) [OF assms] by blast
  obtain n rest where n: "?l = n # rest" using False by (cases ?l) auto
  have "n \<in> set (nodes_at p (Tls t))" using n by simp
  then have some: "\<not> list_all (\<lambda>n. GetRegion p (n_start n) = None) ?l"
    using live_block_new [OF assms, of n "Tls t"] valid_block_GetRegion [OF assms, of 0 "n_start n"] n by auto
  let ?p = "p\<lparr>g_info := Some (gi\<lparr>idle_list := (idle_list gi)(0 := recycle_walk (GetRegion p) ?l (idle_list gi 0))\<rparr>),
      tls := (tls p)(t := (tls p t)\<lparr>tls_idle_list := [], tls_idle_num := 0\<rparr>)\<rparr>"
  have "nodes_at ?p = recycled (GetRegion p) t ?l (nodes_at p)"
    using gi by (auto simp: fun_eq_iff recycled_def split: loc.splits)
  then have "nodes_good (g_regions p) (nodes_at ?p) L"
    using recycled_good [OF pool_okD(2) [OF assms] _ valid_block_GetRegion [OF assms], of t ?l] by simp
  then have "pool_ok ?p L" using assms by (simp add: pool_ok_def tls_ok_empty)
  then show ?thesis using gi some by (simp add: RecycleAll_def runs_def Let_def)
qed

section \<open>The interface of the allocator\<close>

text \<open>
  A run of requests by several threads: thread \<open>t\<close> allocates, or it releases a block still in
  use. A call the system answers against its documentation is left out.
\<close>

fun session :: "('s \<Rightarrow> 'e \<Rightarrow> bool) \<Rightarrow> ('t \<Rightarrow> 'e \<Rightarrow> nat \<Rightarrow> ('s, addr option) prog) \<Rightarrow>
    ('t \<Rightarrow> addr \<Rightarrow> ('s, unit) prog) \<Rightarrow> ('t \<times> ('e \<times> nat + addr)) list \<Rightarrow> addr list \<Rightarrow> ('s, addr list) prog" where
  "session env alloc dealloc [] live = ret live"
| "session env alloc dealloc ((t, Inl (e, len)) # rs) live =
     bindp (\<lambda>s. if env s e then alloc t e len s else Inr (None, s))
       (\<lambda>r. case r of None \<Rightarrow> session env alloc dealloc rs live
           | Some a \<Rightarrow> session env alloc dealloc rs (a # live))"
| "session env alloc dealloc ((t, Inr a) # rs) live = (if a \<in> set live
     then bindp (dealloc t a) (\<lambda>_. session env alloc dealloc rs (remove1 a live))
     else session env alloc dealloc rs live)"

text \<open>
  What a client may rely on. \<open>inv s L\<close> relates the allocator's state to the set of blocks in use;
  \<open>alloc\<close> takes the thread, the answers of the system and a length; \<open>bytes s a\<close> is the range of
  a block in use.
\<close>

locale block_allocator =
  fixes inv :: "'s \<Rightarrow> addr set \<Rightarrow> bool"
    and env :: "'s \<Rightarrow> 'e \<Rightarrow> bool"
    and alloc :: "'t \<Rightarrow> 'e \<Rightarrow> nat \<Rightarrow> ('s, addr option) prog"
    and dealloc :: "'t \<Rightarrow> addr \<Rightarrow> ('s, unit) prog"
    and bytes :: "'s \<Rightarrow> addr \<Rightarrow> addr set"
  assumes alloc_new: "inv s L \<Longrightarrow> env s e \<Longrightarrow> runs (alloc t e len) s (\<lambda>r s'.
      (\<forall>b \<in> L. bytes s' b = bytes s b) \<and>
      (case r of None \<Rightarrow> inv s' L
         | Some a \<Rightarrow> a \<notin> L \<and> inv s' (insert a L) \<and> {a..<a + len} \<subseteq> bytes s' a))"
    and dealloc_old: "inv s L \<Longrightarrow> a \<in> L \<Longrightarrow> runs (dealloc t a) s (\<lambda>_ s'.
      inv s' (L - {a}) \<and> (\<forall>b \<in> L. bytes s' b = bytes s b))"
    and bytes_apart: "inv s L \<Longrightarrow> a \<in> L \<Longrightarrow> b \<in> L \<Longrightarrow> a \<noteq> b \<Longrightarrow> bytes s a \<inter> bytes s b = {}"
begin

lemma session_inv:
  assumes "inv s (set live)" and "distinct live"
  shows "runs (session env alloc dealloc rs live) s (\<lambda>live' s'. inv s' (set live') \<and> distinct live')"
  using assms
proof (induction rs arbitrary: s live)
  case (Cons q rs)
  obtain t x where q: "q = (t, x)" by (cases q)
  show ?case
  proof (cases x)
    case (Inl y)
    obtain e len where y: "y = (e, len)" by (cases y)
    have "runs (\<lambda>s. if env s e then alloc t e len s else Inr (None, s)) s
        (\<lambda>r s'. case r of None \<Rightarrow> inv s' (set live) | Some a \<Rightarrow> a \<notin> set live \<and> inv s' (insert a (set live)))"
      using alloc_new [OF Cons(2), of e t len] Cons(2)
      by (cases "env s e") (fastforce simp: runs_def split: option.splits sum.splits)+
    then show ?thesis
      unfolding q Inl y session.simps by (rule runs_then) (use Cons in \<open>auto split: option.splits\<close>)
  next
    case (Inr a)
    have "runs (bindp (dealloc t a) (\<lambda>_. session env alloc dealloc rs (remove1 a live))) s
        (\<lambda>live' s'. inv s' (set live') \<and> distinct live')" if "a \<in> set live"
      by (rule runs_then [OF dealloc_old [OF Cons(2) that]]) (use Cons in simp)
    then show ?thesis unfolding q Inr session.simps using Cons by simp
  qed
qed simp

lemma session_apart:
  assumes "inv s (set live)" and "distinct live"
  shows "runs (session env alloc dealloc rs live) s (\<lambda>live' s'. distinct live' \<and>
     (\<forall>a \<in> set live'. \<forall>b \<in> set live'. a \<noteq> b \<longrightarrow> bytes s' a \<inter> bytes s' b = {}))"
  by (rule runs_mono [OF session_inv [OF assms]]) (auto dest: bytes_apart)

end

text \<open>The pool provides the interface.\<close>

definition block_bytes :: "pool \<Rightarrow> addr \<Rightarrow> addr set" where
  "block_bytes p a = (case GetRegion p a of None \<Rightarrow> {} | Some r \<Rightarrow> {a..<a + g_block_size (r_block_type r)})"

lemma region_walk_prefix:
  assumes "region_walk a rs = Some r" and "prefix_of rs rs'"
  shows "region_walk a rs' = Some r"
proof -
  obtain zs where zs: "rs' = rs @ zs" using assms(2) by (auto simp: prefix_of_def)
  show ?thesis using assms(1) unfolding zs by (induction rs) (auto split: if_splits)
qed

lemma block_bytes_prefix:
  assumes "pool_ok p L" and "a \<in> L" and "prefix_of (g_regions p) (g_regions p')"
  shows "block_bytes p' a = block_bytes p a"
proof -
  obtain r where r: "GetRegion p a = Some r" by (rule live_region [OF assms(1,2)])
  then have "GetRegion p' a = Some r"
    using region_walk_prefix [OF _ assms(3)] by (simp add: GetRegion_def split: if_splits)
  with r show ?thesis by (simp add: block_bytes_def)
qed

lemma block_bytes_valid:
  assumes "pool_ok p L" and "valid_block (g_regions p) bt a"
  shows "block_bytes p a = {a..<a + g_block_size bt}" and "GetRegionId p a \<noteq> 0"
  by (rule valid_block_region [OF pool_okD(1) [OF assms(1)] assms(2)];
      simp add: block_bytes_def GetRegionId_def GetRegion_def region_ok_def)+

lemma block_bytes_apart:
  assumes "pool_ok p L" and "a \<in> L" and "b \<in> L" and "a \<noteq> b"
  shows "block_bytes p a \<inter> block_bytes p b = {}"
proof -
  obtain bt bt' where v: "valid_block (g_regions p) bt a" "valid_block (g_regions p) bt' b"
    using nodes_goodD(4) [OF pool_okD(2) [OF assms(1)]] assms(2,3) by blast
  then show ?thesis
    using valid_blocks_apart [OF pool_okD(1) [OF assms(1)] v assms(4)] block_bytes_valid(1) [OF assms(1)]
    by simp
qed

lemma BlockAllocate_new:
  assumes "pool_ok p L" and "env_ok p e"
  shows "runs (BlockAllocate t e len) p (\<lambda>r p'. (\<forall>b \<in> L. block_bytes p' b = block_bytes p b) \<and>
     (case r of None \<Rightarrow> pool_ok p' L
        | Some a \<Rightarrow> a \<notin> L \<and> pool_ok p' (insert a L) \<and> {a..<a + len} \<subseteq> block_bytes p' a))"
proof (rule runs_mono [OF BlockAllocate_ok [OF assms, of t len]], goal_cases)
  case (1 r p')
  show ?case
  proof (cases "servable len")
    case True
    then have all: "allocated p e L (type_for len) r p'" using 1 by simp
    then have "prefix_of (g_regions p) (g_regions p')" by (simp add: allocated_def)
    then have "\<forall>b \<in> L. block_bytes p' b = block_bytes p b"
      by (intro ballI block_bytes_prefix [OF assms(1)])
    moreover have "{a..<a + len} \<subseteq> block_bytes p' a" if "r = Some a" for a
      using all that type_for_enough [OF True] block_bytes_valid(1) [of p' "insert a L" "type_for len" a]
      by (simp add: allocated_def)
    ultimately show ?thesis using all by (auto simp: allocated_def split: option.splits)
  qed (use 1 assms in simp)
qed

interpretation pool_alloc: block_allocator pool_ok env_ok BlockAllocate BlockDeallocate block_bytes
proof
  show "runs (BlockDeallocate t a) s (\<lambda>_ s'. pool_ok s' (L - {a}) \<and> (\<forall>b \<in> L. block_bytes s' b = block_bytes s b))"
    if "pool_ok s L" "a \<in> L" for s L a t
    by (rule runs_mono [OF BlockDeallocate_ok [OF that]]) (auto intro!: block_bytes_prefix [OF that(1)])
qed (fact BlockAllocate_new block_bytes_apart)+

lemma BlockDeallocate_keeps:
  assumes "pool_ok p L" and "a \<in> L"
  shows "runs (BlockDeallocate t a) p (\<lambda>_ p'. \<exists>l. a \<in> set (map n_start (nodes_at p' l)))"
proof -
  obtain gi where gi: "g_info p = Some gi" using pool_okD(4) [OF assms(1)] by blast
  obtain r where r: "GetRegion p a = Some r" "0 < a" by (rule live_region [OF assms])
  obtain q where q: "BlockDeallocate t a p = Inr ((), q)"
    using BlockDeallocate_ok [OF assms, of t] by (auto simp: runs_iff)
  let ?n = "\<lparr>n_start = a, n_len = g_block_size (r_block_type r)\<rparr>"
  have "?n \<in> set (nodes_at q (Tls t)) \<or> ?n \<in> set (nodes_at q (Idle (r_block_type r) (bucket_of r a)))"
    using q r gi by (auto simp: BlockDeallocate_def Let_def split: if_splits)
  then obtain l where "?n \<in> set (nodes_at q l)" by blast
  then have "a \<in> set (map n_start (nodes_at q l))" by force
  then show ?thesis using q by (auto simp: runs_def)
qed

lemma InitBlockPool_ok:
  assumes "g_pd p" and "g_regions p = []" and "g_mrs p \<noteq> None" and "env_ok p e"
    and "\<And>t. tls_idle_list (tls p t) = [] \<and> tls_idle_num (tls p t) = 0"
  shows "runs (InitBlockPool e) p (\<lambda>ok p'. pool_ok p' {} \<and> (\<not> ok \<longrightarrow> no_region p e) \<and>
     (ok \<longrightarrow> (\<forall>i < RDMA_MEMPOOL_BUCKETS. nodes_at p' (Exp 0 i) \<noteq> [])))"
proof -
  let ?p = "p\<lparr>g_info := Some empty_info\<rparr>"
  have "nodes_at ?p l = []" for l using assms(5) by (cases l) (simp_all add: empty_info_def)
  then have none: "nodes_at ?p = (\<lambda>_. [])" by (rule ext)
  have "pool_ok ?p {}"
    using assms by (simp add: pool_ok_def none nodes_good_def held_def part_def regions_ok_def tls_ok_def pool_consts)
  moreover have "env_ok ?p e" using assms(4) by (simp add: env_ok_def split: option.splits)
  ultimately have "runs (ExtendBlockPool e RDMA_INITIAL_REGION_SIZE 0) ?p (grown ?p e 0 {})"
    by (rule ExtendBlockPool_ok) (simp add: pool_consts)
  then show ?thesis
    using assms(1,2) by (auto simp: InitBlockPool_def runs_def grown_def no_region_def split: sum.splits)
qed

section \<open>A pool in use\<close>

text \<open>The pool after initialisation with one region at \<open>2 ^ 30\<close>, and a system that gives no
  further region.\<close>

definition pool_ready :: pool where
  "pool_ready = pool_init\<lparr>g_pd := True, g_mrs := Some []\<rparr>"

definition demo_env :: pool_env where
  "demo_env = \<lparr>e_rand = 5, e_memalign = Some (2 ^ 30), e_reg_mr = Some 7, e_stale = 0\<rparr>"

definition demo_full :: pool_env where
  "demo_full = \<lparr>e_rand = 5, e_memalign = None, e_reg_mr = None, e_stale = 0\<rparr>"

definition demo_pool :: pool where
  "demo_pool = pool_ready\<lparr>g_mrs := Some [7],
     g_regions := [\<lparr>r_start = 2 ^ 30, r_size = 2 ^ 30, r_block_type = 0, r_lkey = 7, r_rkey = 7\<rparr>],
     g_info := Some (add_region empty_info (2 ^ 30) (2 ^ 30) 0)\<rparr>"

lemmas demo_defs = pool_ready_def demo_env_def demo_full_def demo_pool_def pool_init_def

lemma demo_init: "InitBlockPool demo_env pool_ready = Inr (True, demo_pool)"
  by (simp add: InitBlockPool_def ExtendBlockPool_def ExtendBlockPoolImpl_def RdmaRegisterMemory_def
      region_bytes_initial initial_region_pos demo_defs RDMA_MEMPOOL_MAX_REGIONS_def)

lemma demo_pool_ok: "pool_ok demo_pool {}"
proof -
  have "runs (InitBlockPool demo_env) pool_ready (\<lambda>ok p'. pool_ok p' {} \<and> (\<not> ok \<longrightarrow> no_region pool_ready demo_env) \<and>
     (ok \<longrightarrow> (\<forall>i < RDMA_MEMPOOL_BUCKETS. nodes_at p' (Exp 0 i) \<noteq> [])))"
    by (rule InitBlockPool_ok) (simp_all add: demo_defs env_ok_def)
  then show ?thesis by (simp add: runs_def demo_init)
qed

lemma demo_full_ok: "env_ok p demo_full"
  by (simp add: env_ok_def demo_full_def)

text \<open>The first block comes from bucket \<open>5 mod 4\<close>, the second quarter of the region.\<close>

lemma demo_alloc: "\<exists>p'. BlockAllocate 3 demo_full 100 demo_pool = Inr (Some (2 ^ 30 + 2 ^ 28), p')"
  by (simp add: BlockAllocate_def AllocBlockFrom_def refill_def MoveExpansionList2EmptyIdleList_def
      take_block_def bindp_def ret_def Let_def demo_defs add_region_def empty_info_def bucket_node_def
      g_block_size_def pool_consts)

text \<open>Two extensions, then the expansion list of bucket 1 is moved over: its idle list has two
  quarters of a region.\<close>

definition demo_env2 :: pool_env where
  "demo_env2 = \<lparr>e_rand = 5, e_memalign = Some (2 ^ 32), e_reg_mr = Some 8, e_stale = 0\<rparr>"

definition demo_twice :: "(pool, unit) prog" where
  "demo_twice = bindp (ExtendBlockPool demo_env2 RDMA_INITIAL_REGION_SIZE 0)
     (\<lambda>_. MoveExpansionList2EmptyIdleList 0 1)"

lemma demo_twice_ok:
  "runs demo_twice demo_pool (\<lambda>_ p. pool_ok p {} \<and> tls_idle_list (tls p 3) = [] \<and>
     (\<exists>gi n m. g_info p = Some gi \<and> idle_list gi 0 1 = [n, m] \<and> n_len n = 2 ^ 28 \<and> n_len m = 2 ^ 28))"
proof -
  have e: "env_ok demo_pool demo_env2" by (simp add: env_ok_def demo_env2_def demo_defs)
  have "runs demo_twice demo_pool (\<lambda>_ p. pool_ok p {})"
    unfolding demo_twice_def
    by (rule runs_then [OF ExtendBlockPool_ok [OF demo_pool_ok e]])
      (auto simp: pool_consts grown_def demo_defs add_region_def empty_info_def
        intro!: runs_mono [OF MoveExpansion_ok])
  moreover have "runs demo_twice demo_pool (\<lambda>_ p. tls_idle_list (tls p 3) = [] \<and>
     (\<exists>gi n m. g_info p = Some gi \<and> idle_list gi 0 1 = [n, m] \<and> n_len n = 2 ^ 28 \<and> n_len m = 2 ^ 28))"
    by (simp add: demo_twice_def runs_def bindp_def ExtendBlockPool_def ExtendBlockPoolImpl_def
        RdmaRegisterMemory_def MoveExpansionList2EmptyIdleList_def region_bytes_initial initial_region_pos
        demo_env2_def demo_defs RDMA_MEMPOOL_MAX_REGIONS_def RDMA_MEMPOOL_BUCKETS_def add_region_def
        empty_info_def bucket_node_def)
  ultimately show ?thesis by (auto simp: runs_def split: sum.splits)
qed

section \<open>Properties\<close>



text \<open>C2: whatever sequence of allocations and releases several threads make, the run does not
  crash, and the blocks in use at the end are distinct and share no byte.\<close>

theorem pool_session_apart:
  assumes "pool_ok p {}"
  shows "runs (session env_ok BlockAllocate BlockDeallocate rs []) p (\<lambda>live p'. distinct live \<and>
     (\<forall>a \<in> set live. \<forall>b \<in> set live. a \<noteq> b \<longrightarrow> block_bytes p' a \<inter> block_bytes p' b = {}))"
  by (rule pool_alloc.session_apart) (use assms in simp_all)

theorem pool_session_apart_witness:
  "runs (session env_ok BlockAllocate BlockDeallocate [(0, Inl (demo_full, 100)), (1, Inl (demo_full, 8192))] []) demo_pool
     (\<lambda>live p'. distinct live \<and>
       (\<forall>a \<in> set live. \<forall>b \<in> set live. a \<noteq> b \<longrightarrow> block_bytes p' a \<inter> block_bytes p' b = {}))"
  by (rule pool_session_apart [OF demo_pool_ok])



text \<open>C4: initialisation with an allocated \<open>g_mrs\<close> vector establishes the invariant, and on success
  every bucket of the smallest block type has memory. With \<open>g_mrs\<close> still null, which is how the
  program starts and nothing changes, a successful registration is a null dereference.\<close>

theorem InitBlockPool_establishes:
  assumes "g_pd p" and "g_regions p = []" and "env_ok p e"
    and "\<And>t. tls_idle_list (tls p t) = [] \<and> tls_idle_num (tls p t) = 0"
  shows "if g_mrs p = None
     then e_memalign e \<noteq> None \<and> e_reg_mr e \<noteq> None \<longrightarrow> InitBlockPool e p = Inl NullDeref
     else runs (InitBlockPool e) p (\<lambda>ok p'. pool_ok p' {} \<and> (\<not> ok \<longrightarrow> no_region p e) \<and>
       (ok \<longrightarrow> (\<forall>i < RDMA_MEMPOOL_BUCKETS. nodes_at p' (Exp 0 i) \<noteq> [])))"
  using InitBlockPool_ok [OF assms(1,2) _ assms(3,4)] assms(1,2)
  by (auto simp: InitBlockPool_def ExtendBlockPool_def ExtendBlockPoolImpl_def RdmaRegisterMemory_def
      initial_region_pos RDMA_MEMPOOL_MAX_REGIONS_def)

theorem InitBlockPool_establishes_witness:
  "InitBlockPool demo_env (pool_init\<lparr>g_pd := True\<rparr>) = Inl NullDeref \<and>
   runs (InitBlockPool demo_env) pool_ready (\<lambda>ok p'. pool_ok p' {})"
proof
  show "InitBlockPool demo_env (pool_init\<lparr>g_pd := True\<rparr>) = Inl NullDeref"
    using InitBlockPool_establishes [of "pool_init\<lparr>g_pd := True\<rparr>" demo_env]
    by (simp add: demo_defs env_ok_def)
  show "runs (InitBlockPool demo_env) pool_ready (\<lambda>ok p'. pool_ok p' {})"
    using InitBlockPool_establishes [of pool_ready demo_env]
    by (auto simp: demo_defs env_ok_def elim: runs_mono)
qed

text \<open>C5: an allocation whose idle list starts with a range of more than two blocks cuts that list
  to its first node: every block of the nodes behind it is in no list of the pool afterwards,
  and nobody holds it, so it is lost.\<close>

theorem AllocBlockFrom_drops_idle_nodes:
  assumes "pool_ok p L" and "g_info p = Some gi" and "tls_idle_list (tls p t) = []"
    and "idle_list gi 0 (e_rand e mod RDMA_MEMPOOL_BUCKETS) = n # rest" and "2 * g_block_size 0 < n_len n"
  shows "runs (AllocBlockFrom t e 0) p (\<lambda>r p'. r = Some (n_start n) \<and>
     (\<forall>a \<in> set (blocks_of (g_block_size 0) rest). a \<notin> L \<and> (\<forall>l. a \<notin> set (held (nodes_at p') l))))"
proof -
  let ?i = "e_rand e mod RDMA_MEMPOOL_BUCKETS" and ?bs = "g_block_size 0"
  let ?n = "n\<lparr>n_start := n_start n + ?bs, n_len := n_len n - ?bs\<rparr>"
  let ?g = "gi\<lparr>idle_list := set2 (idle_list gi) 0 ?i (?n # rest),
      idle_size := set2 (idle_size gi) 0 ?i (idle_size gi 0 ?i - of_nat (n_len ?n))\<rparr>"
  have a: "AllocBlockFrom t e 0 p = Inr (Some (n_start n), fill_tls t ?i ?g p)"
    using assms(2-5) by (simp add: AllocBlockFrom_def refill_def take_block_def bindp_def ret_def Let_def)
  have n0: "tls_idle_num (tls p t) = 0"
    using pool_okD(3) [OF assms(1), of t] assms(3) by (simp add: tls_ok_def)
  have "?bs < n_len n - ?bs" using assms(5) by linarith
  then have grab: "tls_grab 0 (?n # rest) = ([], ?n # rest, 0)" by simp
  let ?g' = "?g\<lparr>idle_list := set2 (idle_list ?g) 0 ?i [?n]\<rparr>"
  have f: "fill_tls t ?i ?g p = p\<lparr>g_info := Some ?g',
      tls := (tls p)(t := (tls p t)\<lparr>tls_idle_list := [], tls_idle_num := 0\<rparr>)\<rparr>"
    using grab unfolding fill_tls_def n0 by simp
  obtain p' where p': "AllocBlockFrom t e 0 p = Inr (Some (n_start n), p')"
      "nodes_at p' = (nodes_at p)(Idle 0 ?i := [?n], Tls t := [])"
    unfolding a f using nodes_at_idle_tls [OF assms(2), of ?g' 0 ?i "[?n]" t] by simp
  note pt = nodes_goodD(2) [OF pool_okD(2) [OF assms(1)]]
  have "node_ok (Idle 0 ?i) n"
    using nodes_goodD(1) [OF pool_okD(2) [OF assms(1)], of "Idle 0 ?i"] assms(2,4) by simp
  then have h: "held (nodes_at p) (Idle 0 ?i) = n_start n # node_blocks ?bs ?n @ blocks_of ?bs rest"
    using assms(2,4,5) node_blocks_cut [of ?bs n] by (simp add: held_def node_ok_def)
  have "a \<notin> L \<and> (\<forall>l. a \<notin> set (held (nodes_at p') l))" if "a \<in> set (blocks_of ?bs rest)" for a
  proof -
    have i: "a \<in> set (held (nodes_at p) (Idle 0 ?i))" using h that by simp
    have n: "a \<notin> set (node_blocks ?bs ?n)" using part_distinct [OF pt, of "Idle 0 ?i"] h that by auto
    have "a \<notin> set (held (nodes_at p) l)" if "l \<noteq> Idle 0 ?i" for l
      using part_same [OF pt i, of l] that by blast
    then show ?thesis using part_live [OF pt i] n by (auto simp: p'(2))
  qed
  then show ?thesis using p'(1) by (simp add: runs_def)
qed

theorem AllocBlockFrom_drops_idle_nodes_witness:
  "\<exists>p gi n m. pool_ok p {} \<and> g_info p = Some gi \<and> idle_list gi 0 1 = [n, m] \<and> n_len m = 2 ^ 28 \<and>
     runs (AllocBlockFrom 3 demo_full 0) p (\<lambda>r p'.
       \<forall>a \<in> set (blocks_of (g_block_size 0) [m]). \<forall>l. a \<notin> set (held (nodes_at p') l))"
proof -
  obtain p gi n m where p: "pool_ok p {}" "tls_idle_list (tls p 3) = []" "g_info p = Some gi"
      "idle_list gi 0 1 = [n, m]" "n_len n = 2 ^ 28" "n_len m = 2 ^ 28"
    using demo_twice_ok unfolding runs_iff by blast
  have "runs (AllocBlockFrom 3 demo_full 0) p (\<lambda>r p'. r = Some (n_start n) \<and>
     (\<forall>a \<in> set (blocks_of (g_block_size 0) [m]). a \<notin> {} \<and> (\<forall>l. a \<notin> set (held (nodes_at p') l))))"
    by (rule AllocBlockFrom_drops_idle_nodes [OF p(1,3,2)])
      (use p in \<open>simp_all add: demo_full_def RDMA_MEMPOOL_BUCKETS_def g_block_size_def\<close>)
  then have "runs (AllocBlockFrom 3 demo_full 0) p (\<lambda>r p'.
       \<forall>a \<in> set (blocks_of (g_block_size 0) [m]). \<forall>l. a \<notin> set (held (nodes_at p') l))"
    by (rule runs_mono) simp
  then show ?thesis using p by blast
qed

end
