(* ===== verification/IOBuf_Model.thy ===== *)
theory IOBuf_Model
  imports Block_Pool
begin

text \<open>
  The zero-copy buffer \<open>IOBuf\<close>: \<open>inc/fast_iobuf.h\<close>, \<open>inc/fast_iobuf_inl.h\<close> and
  \<open>src-common/fast_iobuf.cc\<close>. This theory has the data, the reference counted blocks, the
  per-thread chain of blocks, and the operations on the references of one buffer: push with
  merging, pop at both ends, and the change between the two layouts of the object.

  A pointer to a block names memory of the block pool or memory from \<open>malloc\<close>; the two are
  different address spaces here. The chain of the thread's blocks, linked through
  \<open>u.portal_next\<close>, is a list. The bytes a block's \<open>data\<close> pointer leads to are part of the block.
  A buffer is a value: an operation takes it and returns it changed, so two arguments are two
  buffers.
\<close>

section \<open>State\<close>

datatype bptr = InPool addr | InHeap addr

record Block =
  nshared :: int
  user_data :: bool
  bsize :: nat
  bcap :: nat
  data_meta :: u64
  data :: addr
  bytes :: "nat \<Rightarrow> byte"

record BlockRef =
  r_offset :: nat
  r_length :: nat
  r_block :: "bptr option"

record BigView =
  bv_start :: nat
  bv_refs :: "BlockRef list"
  bv_nref :: nat
  bv_cap_mask :: nat
  bv_nbytes :: nat

text \<open>The union of the two views. The object is read as a \<open>BigView\<close> where the first four bytes,
  \<open>refs[0].offset\<close> or \<open>magic\<close>, are negative as an \<open>int32_t\<close>.\<close>

datatype IOBuf = Small BlockRef BlockRef | Big BigView

text \<open>The blocks of the process, the thread's chain, the block pool, and what lies outside the
  repository: how the system answers the \<open>n\<close>-th request of the pool, and what new memory holds.
  \<open>io_deleted\<close> lists the arguments of the deleters that ran.\<close>

record io =
  heap :: "bptr \<Rightarrow> Block option"
  block_head :: "bptr list"
  num_blocks :: int
  registered :: bool
  io_pool :: pool
  io_self :: nat
  io_calls :: nat
  io_env :: "nat \<Rightarrow> pool \<Rightarrow> pool_env"
  io_junk :: "nat \<Rightarrow> nat \<Rightarrow> byte"
  io_deleted :: "addr list"

definition DEFAULT_BLOCK_SIZE :: nat where "DEFAULT_BLOCK_SIZE = 8192"
definition INITIAL_CAP :: nat where "INITIAL_CAP = 32"
definition MAX_BLOCKS_PER_THREAD :: int where "MAX_BLOCKS_PER_THREAD = 8"
definition sizeof_Block :: nat where "sizeof_Block = 32"

section \<open>Blocks\<close>

definition get_block :: "bptr \<Rightarrow> (io, Block) prog" where
  "get_block p = (\<lambda>s. case heap s p of None \<Rightarrow> Inl UseAfterFree | Some b \<Rightarrow> Inr (b, s))"

definition put_block :: "bptr \<Rightarrow> Block \<Rightarrow> (io, unit) prog" where
  "put_block p b = upd (\<lambda>s. s\<lparr>heap := (heap s)(p := Some b)\<rparr>)"

definition inc_ref :: "bptr \<Rightarrow> (io, unit) prog" where
  "inc_ref p = bindp (get_block p) (\<lambda>b. put_block p (b\<lparr>nshared := nshared b + 1\<rparr>))"

text \<open>\<open>this->~Block()\<close> ends the block. The pool sets \<open>errno\<close> for an address it does not know.\<close>

definition blockmem_deallocate :: "bptr \<Rightarrow> (io, unit) prog" where
  "blockmem_deallocate p = (\<lambda>s. case p of
     InPool a \<Rightarrow> (case BlockDeallocate (io_self s) a (io_pool s) of
         Inl f \<Rightarrow> Inl f
       | Inr (_, q) \<Rightarrow> Inr ((), s\<lparr>heap := (heap s)(p := None), io_pool := q\<rparr>))
   | InHeap a \<Rightarrow> Inr ((), s\<lparr>heap := (heap s)(p := None), io_pool := (io_pool s)\<lparr>p_erange := True\<rparr>\<rparr>))"

definition dec_ref :: "bptr \<Rightarrow> (io, unit) prog" where
  "dec_ref p = bindp (get_block p) (\<lambda>b.
     if nshared b = 1 then
       (if user_data b
        then upd (\<lambda>s. s\<lparr>heap := (heap s)(p := None), io_deleted := io_deleted s @ [data b]\<rparr>)
        else blockmem_deallocate p)
     else put_block p (b\<lparr>nshared := nshared b - 1\<rparr>))"

definition full :: "Block \<Rightarrow> bool" where
  "full b = (bsize b \<ge> bcap b)"

text \<open>\<open>cap\<close> and \<open>size\<close> are \<open>uint32_t\<close>, so is their difference.\<close>

definition left_space :: "Block \<Rightarrow> nat" where
  "left_space b = nat ((int (bcap b) - int (bsize b)) mod 2 ^ 32)"

definition new_Block :: "addr \<Rightarrow> nat \<Rightarrow> (nat \<Rightarrow> byte) \<Rightarrow> Block" where
  "new_Block d c bs = \<lparr>nshared = 1, user_data = False, bsize = 0, bcap = c, data_meta = 0, data = d, bytes = bs\<rparr>"

text \<open>The capacity passed to the constructor is \<open>block_size - sizeof(Block)\<close> as a \<open>uint32_t\<close>.\<close>

definition create_block :: "nat \<Rightarrow> (io, bptr option) prog" where
  "create_block block_size = (\<lambda>s.
     if block_size > 2 ^ 32 - 1 then Inl Aborted
     else (case BlockAllocate (io_self s) (io_env s (io_calls s) (io_pool s)) block_size (io_pool s) of
         Inl f \<Rightarrow> Inl f
       | Inr (r, q) \<Rightarrow>
           let s' = s\<lparr>io_pool := q, io_calls := io_calls s + 1\<rparr> in
           (case r of
              None \<Rightarrow> Inr (None, s')
            | Some a \<Rightarrow> Inr (Some (InPool a), s'\<lparr>heap := (heap s')(InPool a := Some (new_Block
                (a + sizeof_Block) (nat ((int block_size - int sizeof_Block) mod 2 ^ 32)) (io_junk s (io_calls s))))\<rparr>))))"

section \<open>The thread's chain of blocks\<close>

fun dec_all :: "bptr list \<Rightarrow> (io, unit) prog" where
  "dec_all [] = ret ()"
| "dec_all (p # ps) = bindp (dec_ref p) (\<lambda>_. dec_all ps)"

definition clear_tls_block_chain :: "(io, unit) prog" where
  "clear_tls_block_chain = (\<lambda>s.
     bindp (dec_all (block_head s)) (\<lambda>_. upd (\<lambda>s. s\<lparr>num_blocks := 0\<rparr>)) (s\<lparr>block_head := []\<rparr>))"

text \<open>Drop full blocks from the front: the chain that remains.\<close>

fun drop_full :: "bptr list \<Rightarrow> (io, bptr list) prog" where
  "drop_full [] = ret []"
| "drop_full (p # ps) = bindp (get_block p) (\<lambda>b.
     if full b then
       bindp (dec_ref p) (\<lambda>_. bindp (upd (\<lambda>s. s\<lparr>num_blocks := num_blocks s - 1\<rparr>)) (\<lambda>_. drop_full ps))
     else ret (p # ps))"

text \<open>The head of the chain when it has room, else the first block with room, else a new one.\<close>

definition share_tls_block :: "(io, bptr option) prog" where
  "share_tls_block = (\<lambda>s.
     bindp (case block_head s of
              [] \<Rightarrow> bindp (upd (\<lambda>s. s\<lparr>registered := True\<rparr>)) (\<lambda>_. ret [])
            | p # ps \<Rightarrow> drop_full (p # ps))
       (\<lambda>l. case l of
          p # ps \<Rightarrow> bindp (upd (\<lambda>s. s\<lparr>block_head := l\<rparr>)) (\<lambda>_. ret (Some p))
        | [] \<Rightarrow> bindp (create_block DEFAULT_BLOCK_SIZE) (\<lambda>r. case r of
            None \<Rightarrow> bindp (upd (\<lambda>s. s\<lparr>block_head := []\<rparr>)) (\<lambda>_. ret None)
          | Some p \<Rightarrow> bindp (upd (\<lambda>s. s\<lparr>block_head := [p], num_blocks := num_blocks s + 1\<rparr>))
              (\<lambda>_. ret (Some p)))) s)"

definition release_tls_block :: "bptr option \<Rightarrow> (io, unit) prog" where
  "release_tls_block r = (case r of
     None \<Rightarrow> ret ()
   | Some p \<Rightarrow> bindp (get_block p) (\<lambda>b s.
       if full b then dec_ref p s
       else if num_blocks s \<ge> MAX_BLOCKS_PER_THREAD then dec_ref p s
       else Inr ((), s\<lparr>block_head := p # block_head s, num_blocks := num_blocks s + 1, registered := True\<rparr>)))"

text \<open>The loop \<open>while (b->full())\<close> does not test \<open>b\<close> for null.\<close>

fun acquire_walk :: "bptr list \<Rightarrow> (io, bptr) prog" where
  "acquire_walk [] = crash NullDeref"
| "acquire_walk (p # ps) = bindp (get_block p) (\<lambda>b.
     if full b then
       bindp (dec_ref p) (\<lambda>_.
         bindp (upd (\<lambda>s. s\<lparr>block_head := ps, num_blocks := num_blocks s - 1\<rparr>)) (\<lambda>_. acquire_walk ps))
     else bindp (upd (\<lambda>s. s\<lparr>block_head := ps, num_blocks := num_blocks s - 1\<rparr>)) (\<lambda>_. ret p))"

definition acquire_tls_block :: "(io, bptr option) prog" where
  "acquire_tls_block = (\<lambda>s. case block_head s of
     [] \<Rightarrow> create_block DEFAULT_BLOCK_SIZE s
   | p # ps \<Rightarrow> bindp (acquire_walk (p # ps)) (\<lambda>b. ret (Some b)) s)"

section \<open>The references of a buffer\<close>

definition null_ref :: BlockRef where
  "null_ref = \<lparr>r_offset = 0, r_length = 0, r_block = None\<rparr>"

definition IOBuf_new :: IOBuf where
  "IOBuf_new = Small null_ref null_ref"

text \<open>\<open>_small()\<close> followed by the branch taken. A small object whose first offset reads as a
  negative \<open>magic\<close> would be taken for a \<open>BigView\<close>.\<close>

definition view :: "IOBuf \<Rightarrow> (BlockRef \<Rightarrow> BlockRef \<Rightarrow> ('s, 'a) prog) \<Rightarrow> (BigView \<Rightarrow> ('s, 'a) prog) \<Rightarrow> ('s, 'a) prog" where
  "view x f g = (case x of
     Small r0 r1 \<Rightarrow> if r_offset r0 < 2 ^ 31 then f r0 r1 else crash UnionMisread
   | Big bv \<Rightarrow> g bv)"

definition capacity :: "BigView \<Rightarrow> nat" where
  "capacity bv = add32 (bv_cap_mask bv) 1"

definition array_at :: "BlockRef list \<Rightarrow> nat \<Rightarrow> ('s, BlockRef) prog" where
  "array_at refs i = (if i < length refs then ret (refs ! i) else crash OutOfBounds)"

definition bv_ref_at :: "BigView \<Rightarrow> nat \<Rightarrow> ('s, BlockRef) prog" where
  "bv_ref_at bv i = array_at (bv_refs bv) ((bv_start bv + i) AND bv_cap_mask bv)"

fun bv_copy :: "BigView \<Rightarrow> nat \<Rightarrow> nat \<Rightarrow> ('s, BlockRef list) prog" where
  "bv_copy bv i 0 = ret []"
| "bv_copy bv i (Suc n) = bindp (bv_ref_at bv i) (\<lambda>r. bindp (bv_copy bv (Suc i) n) (\<lambda>rs. ret (r # rs)))"

definition on_block :: "(bptr \<Rightarrow> (io, 'a) prog) \<Rightarrow> BlockRef \<Rightarrow> (io, 'a) prog" where
  "on_block f r = (case r_block r of None \<Rightarrow> crash NullDeref | Some p \<Rightarrow> f p)"

definition IOBuf_empty :: "IOBuf \<Rightarrow> (io, bool) prog" where
  "IOBuf_empty x = view x (\<lambda>r0 r1. ret (r_block r0 = None)) (\<lambda>bv. ret (bv_nbytes bv = 0))"

definition IOBuf_length :: "IOBuf \<Rightarrow> (io, nat) prog" where
  "IOBuf_length x = view x (\<lambda>r0 r1. ret (add32 (r_length r0) (r_length r1))) (\<lambda>bv. ret (bv_nbytes bv))"

definition ref_num :: "IOBuf \<Rightarrow> (io, nat) prog" where
  "ref_num x = view x
     (\<lambda>r0 r1. ret (of_bool (r_block r0 \<noteq> None) + of_bool (r_block r1 \<noteq> None))) (\<lambda>bv. ret (bv_nref bv))"

definition front_ref :: "IOBuf \<Rightarrow> (io, BlockRef) prog" where
  "front_ref x = view x (\<lambda>r0 r1. ret r0) (\<lambda>bv. array_at (bv_refs bv) (bv_start bv))"

definition back_ref :: "IOBuf \<Rightarrow> (io, BlockRef) prog" where
  "back_ref x = view x (\<lambda>r0 r1. ret (if r_block r1 \<noteq> None then r1 else r0))
     (\<lambda>bv. bv_ref_at bv (bv_nref bv - 1))"

definition ref_at :: "IOBuf \<Rightarrow> nat \<Rightarrow> (io, BlockRef) prog" where
  "ref_at x i = view x (\<lambda>r0 r1. array_at [r0, r1] i) (\<lambda>bv. bv_ref_at bv i)"

definition pref_at :: "IOBuf \<Rightarrow> nat \<Rightarrow> (io, BlockRef option) prog" where
  "pref_at x i = view x
     (\<lambda>r0 r1. if i < of_bool (r_block r0 \<noteq> None) + of_bool (r_block r1 \<noteq> None)
        then bindp (array_at [r0, r1] i) (\<lambda>r. ret (Some r)) else ret None)
     (\<lambda>bv. if i < bv_nref bv then bindp (bv_ref_at bv i) (\<lambda>r. ret (Some r)) else ret None)"

text \<open>Assignments through the reference that \<open>_front_ref\<close> or \<open>_back_ref\<close> returned. \<open>n\<close> bytes go
  from the front or the back of it, and from \<open>nbytes\<close> in the big layout.\<close>

definition trim_front :: "nat \<Rightarrow> IOBuf \<Rightarrow> IOBuf" where
  "trim_front n x = (case x of
     Small r0 r1 \<Rightarrow> Small (r0\<lparr>r_offset := add32 (r_offset r0) n, r_length := r_length r0 - n\<rparr>) r1
   | Big bv \<Rightarrow> Big (bv\<lparr>bv_refs := (bv_refs bv)[bv_start bv :=
         (let r = bv_refs bv ! bv_start bv in
            r\<lparr>r_offset := add32 (r_offset r) n, r_length := r_length r - n\<rparr>)],
       bv_nbytes := sub64 (bv_nbytes bv) n\<rparr>))"

definition trim_back :: "nat \<Rightarrow> IOBuf \<Rightarrow> IOBuf" where
  "trim_back n x = (case x of
     Small r0 r1 \<Rightarrow>
       if r_block r1 \<noteq> None then Small r0 (r1\<lparr>r_length := r_length r1 - n\<rparr>)
       else Small (r0\<lparr>r_length := r_length r0 - n\<rparr>) r1
   | Big bv \<Rightarrow> let j = (bv_start bv + (bv_nref bv - 1)) AND bv_cap_mask bv; r = bv_refs bv ! j in
       Big (bv\<lparr>bv_refs := (bv_refs bv)[j := r\<lparr>r_length := r_length r - n\<rparr>],
               bv_nbytes := sub64 (bv_nbytes bv) n\<rparr>))"

section \<open>Push and pop of references\<close>

definition mergeable :: "BlockRef \<Rightarrow> BlockRef \<Rightarrow> bool" where
  "mergeable q r = (r_block q = r_block r \<and> add32 (r_offset q) (r_length q) = r_offset r)"

definition merge :: "BlockRef \<Rightarrow> BlockRef \<Rightarrow> BlockRef" where
  "merge q r = q\<lparr>r_length := add32 (r_length q) (r_length r)\<rparr>"

definition inc_unless :: "bool \<Rightarrow> BlockRef \<Rightarrow> (io, unit) prog" where
  "inc_unless mv r = (if mv then ret () else on_block inc_ref r)"

definition dec_if :: "bool \<Rightarrow> BlockRef \<Rightarrow> (io, unit) prog" where
  "dec_if mv r = (if mv then on_block dec_ref r else ret ())"

definition push_to_smallview :: "bool \<Rightarrow> BlockRef \<Rightarrow> BlockRef \<Rightarrow> BlockRef \<Rightarrow> (io, IOBuf) prog" where
  "push_to_smallview mv r r0 r1 =
     (if r_block r0 = None then bindp (inc_unless mv r) (\<lambda>_. ret (Small r r1))
      else if r_block r1 = None then
        (if mergeable r0 r then bindp (dec_if mv r) (\<lambda>_. ret (Small (merge r0 r) r1))
         else bindp (inc_unless mv r) (\<lambda>_. ret (Small r0 r)))
      else if mergeable r1 r then bindp (dec_if mv r) (\<lambda>_. ret (Small r0 (merge r1 r)))
      else bindp (inc_unless mv r) (\<lambda>_. ret (Big \<lparr>bv_start = 0,
        bv_refs = [r0, r1, r] @ replicate (INITIAL_CAP - 3) null_ref, bv_nref = 3,
        bv_cap_mask = INITIAL_CAP - 1,
        bv_nbytes = add32 (add32 (r_length r0) (r_length r1)) (r_length r)\<rparr>)))"

definition push_to_bigview :: "bool \<Rightarrow> BlockRef \<Rightarrow> BigView \<Rightarrow> (io, IOBuf) prog" where
  "push_to_bigview mv r bv = bindp (bv_ref_at bv (bv_nref bv - 1)) (\<lambda>back.
     let j = (bv_start bv + (bv_nref bv - 1)) AND bv_cap_mask bv;
         e = (bv_start bv + bv_nref bv) AND bv_cap_mask bv;
         total = add64 (bv_nbytes bv) (r_length r) in
     if mergeable back r then
       bindp (dec_if mv r) (\<lambda>_. ret (Big (bv\<lparr>bv_refs := (bv_refs bv)[j := merge back r], bv_nbytes := total\<rparr>)))
     else if bv_nref bv \<noteq> capacity bv then
       bindp (bv_ref_at bv (bv_nref bv)) (\<lambda>_. bindp (inc_unless mv r) (\<lambda>_. ret (Big (bv\<lparr>
         bv_refs := (bv_refs bv)[e := r], bv_nref := bv_nref bv + 1, bv_nbytes := total\<rparr>))))
     else let new_cap = add32 (capacity bv) (capacity bv) in
       bindp (bv_copy bv 0 (bv_nref bv)) (\<lambda>rs.
         if length rs < new_cap then
           bindp (inc_unless mv r) (\<lambda>_. ret (Big \<lparr>bv_start = 0,
             bv_refs = rs @ [r] @ replicate (new_cap - Suc (length rs)) null_ref,
             bv_nref = bv_nref bv + 1, bv_cap_mask = new_cap - 1, bv_nbytes = total\<rparr>))
         else crash OutOfBounds))"

definition push_ref :: "bool \<Rightarrow> BlockRef \<Rightarrow> IOBuf \<Rightarrow> (io, IOBuf) prog" where
  "push_ref mv r x = view x (push_to_smallview mv r) (push_to_bigview mv r)"

abbreviation push_back_ref :: "BlockRef \<Rightarrow> IOBuf \<Rightarrow> (io, IOBuf) prog" where
  "push_back_ref \<equiv> push_ref False"

abbreviation move_back_ref :: "BlockRef \<Rightarrow> IOBuf \<Rightarrow> (io, IOBuf) prog" where
  "move_back_ref \<equiv> push_ref True"

definition pop_front_ref :: "bool \<Rightarrow> IOBuf \<Rightarrow> (io, IOBuf \<times> int) prog" where
  "pop_front_ref moveout x = view x
     (\<lambda>r0 r1. if r_block r0 \<noteq> None
        then bindp (dec_if (\<not> moveout) r0) (\<lambda>_. ret (Small r1 null_ref, 0))
        else ret (x, -1))
     (\<lambda>bv. bindp (array_at (bv_refs bv) (bv_start bv)) (\<lambda>r.
        bindp (dec_if (\<not> moveout) r) (\<lambda>_.
          if bv_nref bv - 1 > 2 then
            ret (Big (bv\<lparr>bv_nref := bv_nref bv - 1, bv_start := (bv_start bv + 1) AND bv_cap_mask bv,
                        bv_nbytes := sub64 (bv_nbytes bv) (r_length r)\<rparr>), 0)
          else bindp (bv_ref_at bv 1) (\<lambda>q0. bindp (bv_ref_at bv 2) (\<lambda>q1. ret (Small q0 q1, 0))))))"

definition pop_back_ref :: "IOBuf \<Rightarrow> (io, IOBuf \<times> int) prog" where
  "pop_back_ref x = view x
     (\<lambda>r0 r1. if r_block r1 \<noteq> None then bindp (on_block dec_ref r1) (\<lambda>_. ret (Small r0 null_ref, 0))
        else if r_block r0 \<noteq> None then bindp (on_block dec_ref r0) (\<lambda>_. ret (Small null_ref r1, 0))
        else ret (x, -1))
     (\<lambda>bv. bindp (bv_ref_at bv (bv_nref bv - 1)) (\<lambda>back.
        bindp (on_block dec_ref back) (\<lambda>_.
          if bv_nref bv - 1 > 2 then
            ret (Big (bv\<lparr>bv_nref := bv_nref bv - 1, bv_nbytes := sub64 (bv_nbytes bv) (r_length back)\<rparr>), 0)
          else bindp (array_at (bv_refs bv) (bv_start bv)) (\<lambda>q0. bindp (bv_ref_at bv 1) (\<lambda>q1. ret (Small q0 q1, 0))))))"

end
