(* ===== verification/IOBuf_Ops.thy ===== *)
theory IOBuf_Ops
  imports IOBuf_Model
begin

text \<open>
  The public operations of \<open>IOBuf\<close>, in the order of \<open>src-common/fast_iobuf.cc\<close>. The memory an
  operation writes for its caller is a list of bytes it returns. A loop whose end depends on the
  buffer's contents runs on fuel, one unit for each reference or byte it may consume; running
  out of fuel is the fault \<open>Diverges\<close>.
\<close>

section \<open>Copying and clearing\<close>

fun inc_all :: "BlockRef list \<Rightarrow> (io, unit) prog" where
  "inc_all [] = ret ()"
| "inc_all (r # rs) = bindp (on_block inc_ref r) (\<lambda>_. inc_all rs)"

fun dec_refs :: "BlockRef list \<Rightarrow> (io, unit) prog" where
  "dec_refs [] = ret ()"
| "dec_refs (r # rs) = bindp (on_block dec_ref r) (\<lambda>_. dec_refs rs)"

text \<open>The copy constructor. In the big layout the new array starts at index 0.\<close>

definition IOBuf_copy :: "IOBuf \<Rightarrow> (io, IOBuf) prog" where
  "IOBuf_copy rhs = view rhs
     (\<lambda>r0 r1. bindp (if r_block r0 \<noteq> None then on_block inc_ref r0 else ret ()) (\<lambda>_.
        bindp (if r_block r1 \<noteq> None then on_block inc_ref r1 else ret ()) (\<lambda>_. ret (Small r0 r1))))
     (\<lambda>bv. bindp (bv_copy bv 0 (bv_nref bv)) (\<lambda>rs.
        if length rs \<le> capacity bv then
          bindp (inc_all rs) (\<lambda>_. ret (Big \<lparr>bv_start = 0,
            bv_refs = rs @ replicate (capacity bv - length rs) null_ref, bv_nref = bv_nref bv,
            bv_cap_mask = bv_cap_mask bv, bv_nbytes = bv_nbytes bv\<rparr>))
        else crash OutOfBounds))"

definition IOBuf_clear :: "IOBuf \<Rightarrow> (io, IOBuf) prog" where
  "IOBuf_clear x = view x
     (\<lambda>r0 r1. if r_block r0 \<noteq> None then
          bindp (on_block dec_ref r0) (\<lambda>_.
            if r_block r1 \<noteq> None then bindp (on_block dec_ref r1) (\<lambda>_. ret (Small null_ref null_ref))
            else ret (Small null_ref r1))
        else ret x)
     (\<lambda>bv. bindp (bv_copy bv 0 (bv_nref bv)) (\<lambda>rs. bindp (dec_refs rs) (\<lambda>_. ret IOBuf_new)))"

text \<open>Assignment from another buffer: the array is reused where both are big and of one
  capacity.\<close>

definition IOBuf_assign :: "IOBuf \<Rightarrow> IOBuf \<Rightarrow> (io, IOBuf) prog" where
  "IOBuf_assign rhs x =
     (let fresh = bindp (IOBuf_clear x) (\<lambda>_. IOBuf_copy rhs) in
      view rhs (\<lambda>_ _. fresh) (\<lambda>rb. view x (\<lambda>_ _. fresh) (\<lambda>bv.
        if bv_cap_mask bv = bv_cap_mask rb then
          bindp (bv_copy bv 0 (bv_nref bv)) (\<lambda>old. bindp (dec_refs old) (\<lambda>_.
            bindp (bv_copy rb 0 (bv_nref rb)) (\<lambda>rs. bindp (inc_all rs) (\<lambda>_. ret (Big (bv\<lparr>
              bv_start := 0, bv_refs := rs @ drop (length rs) (bv_refs bv), bv_nref := bv_nref rb,
              bv_nbytes := bv_nbytes rb\<rparr>))))))
        else fresh)))"

text \<open>Move construction and assignment leave the source empty; \<open>swap\<close> exchanges the objects.\<close>

definition IOBuf_move :: "IOBuf \<Rightarrow> IOBuf \<times> IOBuf" where
  "IOBuf_move rhs = (rhs, IOBuf_new)"

definition IOBuf_move_assign :: "IOBuf \<Rightarrow> IOBuf \<Rightarrow> (io, IOBuf \<times> IOBuf) prog" where
  "IOBuf_move_assign rhs x = bindp (IOBuf_clear x) (\<lambda>_. ret (IOBuf_move rhs))"

definition IOBuf_swap :: "IOBuf \<Rightarrow> IOBuf \<Rightarrow> IOBuf \<times> IOBuf" where
  "IOBuf_swap x y = (y, x)"

section \<open>Cutting\<close>

fun pop_front_loop :: "nat \<Rightarrow> nat \<Rightarrow> IOBuf \<Rightarrow> (io, IOBuf) prog" where
  "pop_front_loop fuel 0 x = ret x"
| "pop_front_loop 0 (Suc n) x = crash Diverges"
| "pop_front_loop (Suc fuel) (Suc n) x = bindp (front_ref x) (\<lambda>r.
     if r_length r > Suc n then ret (trim_front (Suc n) x)
     else bindp (pop_front_ref False x) (\<lambda>(x', _). pop_front_loop fuel (Suc n - r_length r) x'))"

definition pop_front :: "nat \<Rightarrow> IOBuf \<Rightarrow> (io, IOBuf \<times> nat) prog" where
  "pop_front n x = bindp (IOBuf_length x) (\<lambda>len.
     if n \<ge> len then bindp (IOBuf_clear x) (\<lambda>x'. ret (x', len))
     else bindp (ref_num x) (\<lambda>k. bindp (pop_front_loop k n x) (\<lambda>x'. ret (x', n))))"

fun pop_back_loop :: "nat \<Rightarrow> nat \<Rightarrow> IOBuf \<Rightarrow> (io, IOBuf) prog" where
  "pop_back_loop fuel 0 x = ret x"
| "pop_back_loop 0 (Suc n) x = crash Diverges"
| "pop_back_loop (Suc fuel) (Suc n) x = bindp (back_ref x) (\<lambda>r.
     if r_length r > Suc n then ret (trim_back (Suc n) x)
     else bindp (pop_back_ref x) (\<lambda>(x', _). pop_back_loop fuel (Suc n - r_length r) x'))"

definition pop_back :: "nat \<Rightarrow> IOBuf \<Rightarrow> (io, IOBuf \<times> nat) prog" where
  "pop_back n x = bindp (IOBuf_length x) (\<lambda>len.
     if n \<ge> len then bindp (IOBuf_clear x) (\<lambda>x'. ret (x', len))
     else bindp (ref_num x) (\<lambda>k. bindp (pop_back_loop k n x) (\<lambda>x'. ret (x', n))))"

text \<open>Cut into another buffer: whole references move, the last one is split.\<close>

fun cutn_loop :: "nat \<Rightarrow> nat \<Rightarrow> IOBuf \<Rightarrow> IOBuf \<Rightarrow> (io, IOBuf \<times> IOBuf) prog" where
  "cutn_loop fuel 0 x out = ret (x, out)"
| "cutn_loop 0 (Suc n) x out = crash Diverges"
| "cutn_loop (Suc fuel) (Suc n) x out = bindp (front_ref x) (\<lambda>r.
     if r_length r \<le> Suc n then
       bindp (move_back_ref r out) (\<lambda>out'. bindp (pop_front_ref True x) (\<lambda>(x', _).
         cutn_loop fuel (Suc n - r_length r) x' out'))
     else bindp (push_back_ref (r\<lparr>r_length := Suc n\<rparr>) out) (\<lambda>out'. ret (trim_front (Suc n) x, out')))"

definition cutn_buf :: "nat \<Rightarrow> IOBuf \<Rightarrow> IOBuf \<Rightarrow> (io, IOBuf \<times> IOBuf \<times> nat) prog" where
  "cutn_buf n x out = bindp (IOBuf_length x) (\<lambda>len. bindp (ref_num x) (\<lambda>k.
     bindp (cutn_loop k (min n len) x out) (\<lambda>(x', out'). ret (x', out', min n len))))"

text \<open>\<open>memcpy\<close> out of a block.\<close>

definition read_block :: "BlockRef \<Rightarrow> nat \<Rightarrow> nat \<Rightarrow> (io, byte list) prog" where
  "read_block r off n = on_block (\<lambda>p. bindp (get_block p) (\<lambda>b.
     ret (map (\<lambda>k. bytes b (r_offset r + off + k)) [0..<n]))) r"

text \<open>\<open>copy_to\<close>: skip \<open>pos\<close> bytes, then copy up to \<open>n\<close>. The first loop returns the index and the
  offset in that reference.\<close>

fun copy_skip :: "IOBuf \<Rightarrow> nat \<Rightarrow> nat \<Rightarrow> nat \<Rightarrow> (io, nat \<times> nat) prog" where
  "copy_skip x 0 i offset = ret (i, offset)"
| "copy_skip x (Suc left) i offset =
     (if offset = 0 then ret (i, offset)
      else bindp (ref_at x i) (\<lambda>r. if offset < r_length r then ret (i, offset)
             else copy_skip x left (Suc i) (offset - r_length r)))"

fun copy_loop :: "IOBuf \<Rightarrow> nat \<Rightarrow> nat \<Rightarrow> nat \<Rightarrow> nat \<Rightarrow> (io, byte list) prog" where
  "copy_loop x 0 i offset m = ret []"
| "copy_loop x (Suc left) i offset m =
     (if m = 0 then ret []
      else bindp (ref_at x i) (\<lambda>r. let nc = min m (r_length r - offset) in
             bindp (read_block r offset nc) (\<lambda>bs.
               bindp (copy_loop x left (Suc i) 0 (m - nc)) (\<lambda>rest. ret (bs @ rest)))))"

definition copy_to :: "nat \<Rightarrow> nat \<Rightarrow> IOBuf \<Rightarrow> (io, byte list) prog" where
  "copy_to n pos x = bindp (ref_num x) (\<lambda>nref.
     bindp (copy_skip x nref 0 pos) (\<lambda>(i, offset). copy_loop x (nref - i) i offset n))"

fun cutn_mem_loop :: "nat \<Rightarrow> nat \<Rightarrow> IOBuf \<Rightarrow> (io, IOBuf \<times> byte list) prog" where
  "cutn_mem_loop fuel 0 x = ret (x, [])"
| "cutn_mem_loop 0 (Suc n) x = crash Diverges"
| "cutn_mem_loop (Suc fuel) (Suc n) x = bindp (front_ref x) (\<lambda>r.
     if r_length r \<le> Suc n then
       bindp (read_block r 0 (r_length r)) (\<lambda>bs. bindp (pop_front_ref False x) (\<lambda>(x', _).
         bindp (cutn_mem_loop fuel (Suc n - r_length r) x') (\<lambda>(x'', rest). ret (x'', bs @ rest))))
     else bindp (read_block r 0 (Suc n)) (\<lambda>bs. ret (trim_front (Suc n) x, bs)))"

definition cutn_mem :: "nat \<Rightarrow> IOBuf \<Rightarrow> (io, IOBuf \<times> byte list) prog" where
  "cutn_mem n x = bindp (IOBuf_length x) (\<lambda>len. bindp (ref_num x) (\<lambda>k. cutn_mem_loop k (min n len) x))"

definition cutn_string :: "nat \<Rightarrow> IOBuf \<Rightarrow> byte list \<Rightarrow> (io, IOBuf \<times> byte list \<times> nat) prog" where
  "cutn_string n x out = (if n = 0 then ret (x, out, 0)
     else bindp (IOBuf_length x) (\<lambda>len.
       bindp (cutn_mem (min n len) x) (\<lambda>(x', bs). ret (x', out @ bs, length bs))))"

definition cut1 :: "IOBuf \<Rightarrow> (io, IOBuf \<times> byte option) prog" where
  "cut1 x = bindp (IOBuf_empty x) (\<lambda>e. if e then ret (x, None)
     else bindp (front_ref x) (\<lambda>r. bindp (read_block r 0 1) (\<lambda>bs.
       if r_length r > 1 then ret (trim_front 1 x, Some (hd bs))
       else bindp (pop_front_ref False x) (\<lambda>(x', _). ret (x', Some (hd bs))))))"

text \<open>\<open>fetch1\<close> returns a pointer into the front block: the bytes that may be read through it are
  those of the block from there on.\<close>

definition fetch1 :: "IOBuf \<Rightarrow> (io, (bptr \<times> nat) option) prog" where
  "fetch1 x = bindp (IOBuf_empty x) (\<lambda>e. if e then ret None
     else bindp (front_ref x) (\<lambda>r. on_block (\<lambda>p. bindp (get_block p) (\<lambda>_. ret (Some (p, r_offset r)))) r))"

section \<open>Appending\<close>

fun push_refs :: "bool \<Rightarrow> BlockRef list \<Rightarrow> IOBuf \<Rightarrow> (io, IOBuf) prog" where
  "push_refs mv [] x = ret x"
| "push_refs mv (r # rs) x = bindp (push_ref mv r x) (push_refs mv rs)"

fun refs_from :: "IOBuf \<Rightarrow> nat \<Rightarrow> nat \<Rightarrow> (io, BlockRef list) prog" where
  "refs_from x i 0 = ret []"
| "refs_from x i (Suc n) = bindp (ref_at x i) (\<lambda>r. bindp (refs_from x (Suc i) n) (\<lambda>rs. ret (r # rs)))"

definition append_buf :: "IOBuf \<Rightarrow> IOBuf \<Rightarrow> (io, IOBuf) prog" where
  "append_buf other x = bindp (ref_num other) (\<lambda>nref. bindp (refs_from other 0 nref) (\<lambda>rs. push_refs False rs x))"

text \<open>Appending a buffer that may be moved from: the result and what is left of the source.\<close>

definition append_movable :: "IOBuf \<Rightarrow> IOBuf \<Rightarrow> (io, IOBuf \<times> IOBuf) prog" where
  "append_movable other x = bindp (IOBuf_empty x) (\<lambda>e.
     if e then ret (IOBuf_swap x other)
     else bindp (ref_num other) (\<lambda>nref. bindp (refs_from other 0 nref) (\<lambda>rs.
       bindp (push_refs True rs x) (\<lambda>x'. ret (x', IOBuf_new)))))"

definition write_block :: "bptr \<Rightarrow> nat \<Rightarrow> byte list \<Rightarrow> (io, unit) prog" where
  "write_block p off bs = bindp (get_block p) (\<lambda>b.
     if off + length bs \<le> bcap b
     then put_block p (b\<lparr>bytes := (\<lambda>k. if off \<le> k \<and> k < off + length bs then bs ! (k - off) else bytes b k)\<rparr>)
     else crash OutOfBounds)"

definition grow_block :: "bptr \<Rightarrow> nat \<Rightarrow> (io, unit) prog" where
  "grow_block p n = bindp (get_block p) (\<lambda>b. put_block p (b\<lparr>bsize := add32 (bsize b) n\<rparr>))"

definition push_back :: "byte \<Rightarrow> IOBuf \<Rightarrow> (io, IOBuf \<times> int) prog" where
  "push_back c x = bindp share_tls_block (\<lambda>r. case r of
     None \<Rightarrow> ret (x, -1)
   | Some p \<Rightarrow> bindp (get_block p) (\<lambda>b. bindp (write_block p (bsize b) [c]) (\<lambda>_.
       bindp (grow_block p 1) (\<lambda>_.
         bindp (push_back_ref \<lparr>r_offset = bsize b, r_length = 1, r_block = Some p\<rparr> x) (\<lambda>x'. ret (x', 0))))))"

text \<open>One round of the loops of \<open>append\<close> and \<open>resize\<close>: as many of the bytes \<open>bs\<close> as the shared
  block has room for.\<close>

definition append_step :: "byte list \<Rightarrow> IOBuf \<Rightarrow> (io, IOBuf \<times> nat option) prog" where
  "append_step bs x = bindp share_tls_block (\<lambda>r. case r of
     None \<Rightarrow> ret (x, None)
   | Some p \<Rightarrow> bindp (get_block p) (\<lambda>b. let nc = min (length bs) (left_space b) in
       bindp (write_block p (bsize b) (take nc bs)) (\<lambda>_.
         bindp (push_back_ref \<lparr>r_offset = bsize b, r_length = nc, r_block = Some p\<rparr> x) (\<lambda>x'.
           bindp (grow_block p nc) (\<lambda>_. ret (x', Some nc))))))"

fun append_loop :: "nat \<Rightarrow> byte list \<Rightarrow> IOBuf \<Rightarrow> (io, IOBuf \<times> int) prog" where
  "append_loop fuel [] x = ret (x, 0)"
| "append_loop 0 (b # bs) x = crash Diverges"
| "append_loop (Suc fuel) (b # bs) x = bindp (append_step (b # bs) x) (\<lambda>(x', r). case r of
     None \<Rightarrow> ret (x', -1)
   | Some nc \<Rightarrow> append_loop fuel (drop nc (b # bs)) x')"

text \<open>\<open>append(data, count)\<close>; a null pointer is \<open>None\<close>. \<open>append(const char*)\<close> and
  \<open>append(const std::string&)\<close> call it with the length of the string.\<close>

definition append_data :: "byte list option \<Rightarrow> IOBuf \<Rightarrow> (io, IOBuf \<times> int) prog" where
  "append_data src x = (case src of
     None \<Rightarrow> ret (x, -1)
   | Some bs \<Rightarrow> if length bs = 1 then push_back (hd bs) x else append_loop (length bs) bs x)"

definition append_cstr :: "byte list option \<Rightarrow> IOBuf \<Rightarrow> (io, IOBuf \<times> int) prog" where
  "append_cstr s x = (case s of None \<Rightarrow> ret (x, -1)
     | Some bs \<Rightarrow> append_data (Some (takeWhile (\<lambda>c. c \<noteq> 0) bs)) x)"

definition assign_data :: "byte list \<Rightarrow> IOBuf \<Rightarrow> (io, IOBuf) prog" where
  "assign_data bs x = bindp (IOBuf_clear x) (\<lambda>x'. bindp (append_data (Some bs) x') (\<lambda>(x'', _). ret x''))"

definition resize :: "nat \<Rightarrow> byte \<Rightarrow> IOBuf \<Rightarrow> (io, IOBuf \<times> int) prog" where
  "resize n c x = bindp (IOBuf_length x) (\<lambda>len.
     if n < len then bindp (pop_back (len - n) x) (\<lambda>(x', _). ret (x', 0))
     else append_loop (n - len) (replicate (n - len) c) x)"

text \<open>A block around memory of the caller. \<open>mem\<close> is what \<open>malloc\<close> returns for its header, \<open>d\<close>
  the caller's pointer and \<open>bs\<close> the bytes there; the deleter runs at once where there are none.\<close>

definition append_user_data_with_meta :: "addr option \<Rightarrow> addr \<Rightarrow> byte list \<Rightarrow> u64 \<Rightarrow> IOBuf \<Rightarrow> (io, IOBuf \<times> int) prog" where
  "append_user_data_with_meta mem d bs meta x =
     (if length bs > 2 ^ 32 - 1 - 100 then crash Aborted
      else if bs = [] then bindp (upd (\<lambda>s. s\<lparr>io_deleted := io_deleted s @ [d]\<rparr>)) (\<lambda>_. ret (x, 0))
      else (case mem of
          None \<Rightarrow> ret (x, -1)
        | Some a \<Rightarrow> bindp (put_block (InHeap a) \<lparr>nshared = 1, user_data = True, bsize = length bs,
              bcap = length bs, data_meta = meta, data = d,
              bytes = (\<lambda>k. if k < length bs then bs ! k else 0)\<rparr>) (\<lambda>_.
            bindp (move_back_ref \<lparr>r_offset = 0, r_length = length bs, r_block = Some (InHeap a)\<rparr> x)
              (\<lambda>x'. ret (x', 0)))))"

section \<open>Comparison\<close>

text \<open>The walk over both buffers at once. A cursor \<open>(r, o, n)\<close> is the current reference, the
  offset in it and the bytes left there; \<open>l\<close> are the references behind it. After \<open>c\<close> equal bytes a
  cursor moves on; \<open>None\<close> is the end of the buffer.\<close>

type_synonym cursor = "BlockRef \<times> nat \<times> nat"

definition advance :: "nat \<Rightarrow> cursor \<Rightarrow> BlockRef list \<Rightarrow> (cursor \<times> BlockRef list) option" where
  "advance c k l = (case k of (r, o', n) \<Rightarrow>
     if n - c = 0 then (case l of [] \<Rightarrow> None | q # l' \<Rightarrow> Some ((q, 0, r_length q), l'))
     else Some ((r, o' + c, n - c), l))"

primrec equals_loop :: "nat \<Rightarrow> cursor \<Rightarrow> BlockRef list \<Rightarrow> cursor \<Rightarrow> BlockRef list \<Rightarrow> (io, bool) prog" where
  "equals_loop 0 k1 l1 k2 l2 = crash Diverges"
| "equals_loop (Suc fuel) k1 l1 k2 l2 =
     (let c = min (snd (snd k1)) (snd (snd k2)) in
      bindp (read_block (fst k1) (fst (snd k1)) c) (\<lambda>b1.
        bindp (read_block (fst k2) (fst (snd k2)) c) (\<lambda>b2.
          if b1 \<noteq> b2 then ret False
          else (case advance c k1 l1 of
              None \<Rightarrow> ret True
            | Some (k1', l1') \<Rightarrow> (case advance c k2 l2 of
                  None \<Rightarrow> ret True
                | Some (k2', l2') \<Rightarrow> equals_loop fuel k1' l1' k2' l2')))))"

definition IOBuf_equals :: "IOBuf \<Rightarrow> IOBuf \<Rightarrow> (io, bool) prog" where
  "IOBuf_equals x y = bindp (IOBuf_length x) (\<lambda>sz1. bindp (IOBuf_length y) (\<lambda>sz2.
     if sz1 \<noteq> sz2 then ret False
     else if sz1 = 0 then ret True
     else bindp (ref_num x) (\<lambda>m. bindp (ref_num y) (\<lambda>n.
       bindp (ref_at x 0) (\<lambda>r1. bindp (ref_at y 0) (\<lambda>r2.
         bindp (refs_from x 1 (m - 1)) (\<lambda>l1. bindp (refs_from y 1 (n - 1)) (\<lambda>l2.
           equals_loop (m + n) (r1, 0, r_length r1) l1 (r2, 0, r_length r2) l2))))))))"

end
