(* ===== verification/IOBuf_Refs.thy ===== *)
theory IOBuf_Refs
  imports IOBuf_Ops
begin

text \<open>
  The references of a buffer as a list. Both layouts of the object, two inline references or a
  ring of them, represent a list of references; every operation on references is shown to be the
  list operation it stands for, together with the reference count changes it makes.
\<close>

section \<open>The abstraction\<close>

fun brefs :: "IOBuf \<Rightarrow> BlockRef list" where
  "brefs (Small r0 r1) = filter (\<lambda>r. r_block r \<noteq> None) [r0, r1]"
| "brefs (Big bv) = map (\<lambda>i. bv_refs bv ! ((bv_start bv + i) AND bv_cap_mask bv)) [0..<bv_nref bv]"

definition blen :: "BlockRef list \<Rightarrow> nat" where
  "blen rs = sum_list (map r_length rs)"

definition ref_fmt :: "BlockRef \<Rightarrow> bool" where
  "ref_fmt r = (r_block r \<noteq> None \<and> 0 < r_length r \<and> r_offset r + r_length r \<le> 2 ^ 31)"

definition ring_ok :: "BigView \<Rightarrow> bool" where
  "ring_ok bv = ((\<exists>k. bv_cap_mask bv = mask k) \<and> length (bv_refs bv) = Suc (bv_cap_mask bv) \<and>
     bv_start bv \<le> bv_cap_mask bv \<and> bv_nref bv \<le> Suc (bv_cap_mask bv) \<and> bv_cap_mask bv < 2 ^ 31)"

fun layout_ok :: "IOBuf \<Rightarrow> bool" where
  "layout_ok (Small r0 r1) = ((r_block r0 = None \<longrightarrow> r0 = null_ref \<and> r1 = null_ref) \<and>
     (r_block r1 = None \<longrightarrow> r1 = null_ref))"
| "layout_ok (Big bv) = (ring_ok bv \<and> 3 \<le> bv_nref bv \<and> bv_nbytes bv = blen (brefs (Big bv)))"

text \<open>The invariant of a buffer: its layout, the form of its references, and less than 2 GiB of
  content, so that no 32 bit sum wraps.\<close>

definition buf_ok :: "IOBuf \<Rightarrow> bool" where
  "buf_ok x = (layout_ok x \<and> list_all ref_fmt (brefs x) \<and> blen (brefs x) < 2 ^ 31)"

definition push_list :: "BlockRef list \<Rightarrow> BlockRef \<Rightarrow> BlockRef list" where
  "push_list rs r = (if rs \<noteq> [] \<and> mergeable (last rs) r then butlast rs @ [merge (last rs) r] else rs @ [r])"

definition merges :: "BlockRef list \<Rightarrow> BlockRef \<Rightarrow> bool" where
  "merges rs r = (rs \<noteq> [] \<and> mergeable (last rs) r)"

declare brefs.simps(2) [simp del] layout_ok.simps(2) [simp del]

section \<open>Reading\<close>

lemma bindp_ret [simp]: "bindp (ret x) f = f x"
  by (simp add: bindp_def ret_def)

lemma bindp_assoc: "bindp (bindp m f) g = bindp m (\<lambda>x. bindp (f x) g)"
  by (auto simp: bindp_def fun_eq_iff split: sum.splits)

lemma and_mask_mod: "(x :: nat) AND mask k = x mod 2 ^ k"
  by (simp add: take_bit_eq_mask [symmetric] take_bit_eq_mod)

lemma Suc_mask: "Suc (mask k) = 2 ^ k"
  by (simp add: mask_eq_exp_minus_1)

lemma blen_simps [simp]:
  "blen [] = 0" "blen (r # rs) = r_length r + blen rs" "blen (rs @ qs) = blen rs + blen qs"
  by (simp_all add: blen_def)

lemma buf_okD:
  assumes "buf_ok x"
  shows "layout_ok x" and "list_all ref_fmt (brefs x)" and "blen (brefs x) < 2 ^ 31"
  using assms by (simp_all add: buf_ok_def)

lemma length_le_blen: "list_all ref_fmt rs \<Longrightarrow> length rs \<le> blen rs"
  by (induction rs) (auto simp: ref_fmt_def)

text \<open>The four shapes a buffer can have.\<close>

lemma null_ref_simps [simp]: "r_block null_ref = None" "r_length null_ref = 0" "r_offset null_ref = 0"
  by (simp_all add: null_ref_def)

lemma ref_fmtD: "ref_fmt r \<Longrightarrow> r_block r \<noteq> None" "ref_fmt r \<Longrightarrow> r_offset r < 2 ^ 31" "ref_fmt r \<Longrightarrow> 0 < r_length r"
  by (auto simp: ref_fmt_def)

lemma view_shapes [simp]:
  "view (Small null_ref r) f g = f null_ref r"
  "ref_fmt r0 \<Longrightarrow> view (Small r0 r) f g = f r0 r"
  "view (Big bv) f g = g bv"
  by (simp_all add: view_def ref_fmt_def)

lemma brefs_shapes [simp]:
  "brefs (Small null_ref null_ref) = []"
  "ref_fmt r0 \<Longrightarrow> brefs (Small r0 null_ref) = [r0]"
  "ref_fmt r0 \<Longrightarrow> ref_fmt r1 \<Longrightarrow> brefs (Small r0 r1) = [r0, r1]"
  by (auto simp: ref_fmt_def)

lemma buf_cases [consumes 1, case_names zero one two big]:
  assumes "buf_ok x"
  obtains "x = Small null_ref null_ref"
  | r0 where "x = Small r0 null_ref" and "ref_fmt r0" and "r_length r0 < 2 ^ 31"
  | r0 r1 where "x = Small r0 r1" and "ref_fmt r0" and "ref_fmt r1" and "r_length r0 + r_length r1 < 2 ^ 31"
  | bv where "x = Big bv" and "layout_ok (Big bv)"
proof (cases x)
  case (Small r0 r1)
  then show thesis
    using assms that by (cases "r_block r0"; cases "r_block r1") (auto simp: buf_ok_def)
next
  case (Big bv)
  then show thesis using assms that by (simp add: buf_ok_def)
qed

lemma buf_ok_shapes:
  "buf_ok (Small null_ref null_ref)"
  "ref_fmt r0 \<Longrightarrow> r_length r0 < 2 ^ 31 \<Longrightarrow> buf_ok (Small r0 null_ref)"
  "ref_fmt r0 \<Longrightarrow> ref_fmt r1 \<Longrightarrow> r_length r0 + r_length r1 < 2 ^ 31 \<Longrightarrow> buf_ok (Small r0 r1)"
  by (simp_all add: buf_ok_def ref_fmtD del: brefs.simps)

lemma length_brefs_Big [simp]: "length (brefs (Big bv)) = bv_nref bv"
  by (simp add: brefs.simps(2))

lemma brefs_Big_nth: "i < bv_nref bv \<Longrightarrow> brefs (Big bv) ! i = bv_refs bv ! ((bv_start bv + i) AND bv_cap_mask bv)"
  by (simp add: brefs.simps(2))

lemma ring_okE:
  assumes "ring_ok bv"
  obtains k where "bv_cap_mask bv = mask k" and "length (bv_refs bv) = 2 ^ k" and "bv_start bv < 2 ^ k"
    and "bv_nref bv \<le> 2 ^ k" and "2 ^ k \<le> (2 ^ 31 :: nat)" and "k \<le> 31"
proof -
  obtain k where k: "bv_cap_mask bv = mask k" using assms by (auto simp: ring_ok_def)
  have "Suc (bv_cap_mask bv) = 2 ^ k" unfolding k by (rule Suc_mask)
  moreover have "2 ^ k \<le> (2 ^ 31 :: nat)" using assms calculation by (simp add: ring_ok_def)
  moreover have "k \<le> 31" using calculation(2) power_le_imp_le_exp [of "2 :: nat" k 31] by simp
  ultimately show ?thesis using assms k by (intro that [OF k]) (auto simp: ring_ok_def)
qed

lemma ring_index:
  assumes "ring_ok bv"
  shows "(bv_start bv + i) AND bv_cap_mask bv < length (bv_refs bv)"
  by (rule ring_okE [OF assms]) (simp add: and_mask_mod)

lemma bv_ref_at_ok:
  assumes "ring_ok bv" and "i < bv_nref bv"
  shows "bv_ref_at bv i = ret (brefs (Big bv) ! i)"
  using assms ring_index [OF assms(1), of i] by (simp add: bv_ref_at_def array_at_def brefs_Big_nth)

lemma bv_copy_from:
  assumes "ring_ok bv" and "i + n \<le> bv_nref bv"
  shows "bv_copy bv i n = ret (take n (drop i (brefs (Big bv))))"
  using assms(2)
proof (induction n arbitrary: i)
  case (Suc n)
  then have "i < length (brefs (Big bv))" by simp
  then have "take (Suc n) (drop i (brefs (Big bv))) = brefs (Big bv) ! i # take n (drop (Suc i) (brefs (Big bv)))"
    by (metis Cons_nth_drop_Suc take_Suc_Cons)
  then show ?case using Suc by (simp add: bv_ref_at_ok [OF assms(1)])
qed simp

lemma bv_copy_ok:
  assumes "ring_ok bv"
  shows "bv_copy bv 0 (bv_nref bv) = ret (brefs (Big bv))"
  using bv_copy_from [OF assms, of 0 "bv_nref bv"] by simp

lemma ring_start:
  assumes "ring_ok bv"
  shows "bv_start bv AND bv_cap_mask bv = bv_start bv" and "bv_start bv < length (bv_refs bv)"
  by (rule ring_okE [OF assms]; simp add: and_mask_mod)+

lemma layout_Big:
  assumes "layout_ok (Big bv)"
  shows "ring_ok bv" and "3 \<le> bv_nref bv" and "bv_nbytes bv = blen (brefs (Big bv))" and "brefs (Big bv) \<noteq> []"
  using assms by (auto simp: layout_ok.simps(2) brefs.simps(2))

declare brefs.simps [simp del]

lemma ref_num_ok:
  assumes "buf_ok x"
  shows "ref_num x = ret (length (brefs x))"
  using assms by (cases rule: buf_cases) (simp_all add: ref_num_def ref_fmtD)

lemma IOBuf_length_ok:
  assumes "buf_ok x"
  shows "IOBuf_length x = ret (blen (brefs x))"
  using assms by (cases rule: buf_cases) (simp_all add: IOBuf_length_def layout_ok.simps(2))

lemma brefs_Big_blen:
  assumes "buf_ok (Big bv)"
  shows "0 < bv_nbytes bv"
proof -
  have "3 \<le> bv_nref bv" "bv_nbytes bv = blen (brefs (Big bv))"
    using buf_okD(1) [OF assms] by (auto simp: layout_ok.simps(2))
  then show ?thesis using length_le_blen [OF buf_okD(2) [OF assms]] by simp
qed

lemma IOBuf_empty_ok:
  assumes "buf_ok x"
  shows "IOBuf_empty x = ret (brefs x = [])"
  using assms
proof (cases rule: buf_cases)
  case (big bv)
  then show ?thesis
    using assms brefs_Big_blen [of bv] layout_Big(4) [of bv] by (simp add: IOBuf_empty_def)
qed (simp_all add: IOBuf_empty_def ref_fmtD)

lemma ref_at_ok:
  assumes "buf_ok x" and "i < length (brefs x)"
  shows "ref_at x i = ret (brefs x ! i)"
  using assms(1)
proof (cases rule: buf_cases)
  case (two r0 r1)
  then show ?thesis using assms(2) by (auto simp: ref_at_def array_at_def less_Suc_eq)
next
  case (big bv)
  then show ?thesis using assms(2) layout_Big(1) [of bv] by (simp add: ref_at_def bv_ref_at_ok)
qed (use assms(2) in \<open>simp_all add: ref_at_def array_at_def\<close>)

lemma front_ref_ok:
  assumes "buf_ok x" and "brefs x \<noteq> []"
  shows "front_ref x = ret (hd (brefs x))"
  using assms(1)
proof (cases rule: buf_cases)
  case (big bv)
  then show ?thesis
    using layout_Big [of bv] ring_start [of bv]
    by (simp add: front_ref_def array_at_def hd_conv_nth brefs_Big_nth)
qed (use assms(2) in \<open>simp_all add: front_ref_def\<close>)

lemma back_ref_ok:
  assumes "buf_ok x" and "brefs x \<noteq> []"
  shows "back_ref x = ret (last (brefs x))"
  using assms(1)
proof (cases rule: buf_cases)
  case (big bv)
  then show ?thesis
    using layout_Big [of bv] by (simp add: back_ref_def bv_ref_at_ok last_conv_nth)
qed (use assms(2) in \<open>simp_all add: back_ref_def ref_fmtD\<close>)

lemma pref_at_ok:
  assumes "buf_ok x"
  shows "pref_at x i = ret (if i < length (brefs x) then Some (brefs x ! i) else None)"
  using assms
proof (cases rule: buf_cases)
  case (two r0 r1)
  consider "i = 0" | "i = 1" | "2 \<le> i" by linarith
  then show ?thesis using two by cases (simp_all add: pref_at_def array_at_def ref_fmtD)
next
  case (big bv)
  then show ?thesis using layout_Big(1) [of bv] by (simp add: pref_at_def bv_ref_at_ok)
qed (simp_all add: pref_at_def array_at_def ref_fmtD)

lemma refs_from_ok:
  assumes "buf_ok x" and "i + n \<le> length (brefs x)"
  shows "refs_from x i n = ret (take n (drop i (brefs x)))"
  using assms(2)
proof (induction n arbitrary: i)
  case (Suc n)
  then have "i < length (brefs x)" by simp
  then have "take (Suc n) (drop i (brefs x)) = brefs x ! i # take n (drop (Suc i) (brefs x))"
    by (metis Cons_nth_drop_Suc take_Suc_Cons)
  then show ?case using Suc by (simp add: ref_at_ok [OF assms(1)])
qed simp

lemmas read_ok = ref_num_ok IOBuf_length_ok IOBuf_empty_ok ref_at_ok front_ref_ok back_ref_ok pref_at_ok refs_from_ok

section \<open>Pushing a reference\<close>

lemma mod_add_inj:
  fixes a i j m :: nat
  assumes "(a + i) mod m = (a + j) mod m" and "i < m" and "j < m"
  shows "i = j"
proof -
  have le: "i = j" if "(a + i) mod m = (a + j) mod m" "i \<le> j" "j < m" for i j
  proof (rule ccontr)
    assume "i \<noteq> j"
    have "m dvd (a + j) - (a + i)" using that mod_eq_dvd_iff_nat [of "a + i" "a + j" m] by simp
    then show False using that \<open>i \<noteq> j\<close> dvd_imp_le [of m "j - i"] by simp
  qed
  show ?thesis using le [of i j] le [of j i] assms by (cases "i \<le> j") simp_all
qed

lemma ring_set:
  assumes "ring_ok bv" and "i < bv_nref bv"
  shows "brefs (Big (bv\<lparr>bv_refs := (bv_refs bv)[(bv_start bv + i) AND bv_cap_mask bv := r], bv_nbytes := n\<rparr>)) =
     (brefs (Big bv))[i := r]" (is "brefs (Big ?bv) = _")
proof -
  obtain k where k: "bv_cap_mask bv = mask k" "length (bv_refs bv) = 2 ^ k" "bv_nref bv \<le> 2 ^ k"
    by (rule ring_okE [OF assms(1)])
  show ?thesis
  proof (rule nth_equalityI)
    fix j assume "j < length (brefs (Big ?bv))"
    then have j: "j < bv_nref bv" by simp
    then have "i < 2 ^ k" "j < 2 ^ k" using k(3) assms(2) by simp_all
    then have "i = j" if "(bv_start bv + i) mod 2 ^ k = (bv_start bv + j) mod 2 ^ k"
      using mod_add_inj [OF that] by simp
    then show "brefs (Big ?bv) ! j = (brefs (Big bv))[i := r] ! j"
      using j k assms(2) by (cases "i = j") (auto simp: brefs_Big_nth and_mask_mod nth_list_update)
  qed simp
qed

lemma ring_array:
  assumes "bv_start bv = 0" and "bv_cap_mask bv = mask k" and "bv_refs bv = rs @ pad"
    and "length rs + length pad = 2 ^ k" and "k \<le> 31" and "bv_nref bv = length rs"
  shows "ring_ok bv" and "brefs (Big bv) = rs"
proof -
  have "2 ^ k \<le> (2 ^ 31 :: nat)" using assms(5) by (intro power_increasing) simp_all
  then show "ring_ok bv" using assms by (auto simp: ring_ok_def Suc_mask less_eq_Suc_le)
  have "length rs \<le> 2 ^ k" using assms(4) by simp
  then show "brefs (Big bv) = rs"
    using assms by (intro nth_equalityI) (auto simp: brefs_Big_nth and_mask_mod nth_append)
qed

lemma ring_snoc:
  assumes "ring_ok bv" and "bv_nref bv \<noteq> capacity bv"
  shows "ring_ok (bv\<lparr>bv_refs := (bv_refs bv)[(bv_start bv + bv_nref bv) AND bv_cap_mask bv := r],
       bv_nref := bv_nref bv + 1, bv_nbytes := n\<rparr>)"
    and "brefs (Big (bv\<lparr>bv_refs := (bv_refs bv)[(bv_start bv + bv_nref bv) AND bv_cap_mask bv := r],
       bv_nref := bv_nref bv + 1, bv_nbytes := n\<rparr>)) = brefs (Big bv) @ [r]"
proof -
  let ?bv = "bv\<lparr>bv_nref := bv_nref bv + 1\<rparr>"
  have "bv_nref bv < Suc (bv_cap_mask bv)"
    using assms by (simp add: ring_ok_def capacity_def)
  then have ok: "ring_ok ?bv" using assms(1) by (simp add: ring_ok_def)
  then show "ring_ok (bv\<lparr>bv_refs := (bv_refs bv)[(bv_start bv + bv_nref bv) AND bv_cap_mask bv := r],
       bv_nref := bv_nref bv + 1, bv_nbytes := n\<rparr>)"
    by (simp add: ring_ok_def)
  have "brefs (Big ?bv) = brefs (Big bv) @ [brefs (Big ?bv) ! bv_nref bv]"
    by (simp add: brefs.simps(2) nth_append)
  then have "(brefs (Big ?bv))[bv_nref bv := r] = brefs (Big bv) @ [r]"
    by (metis length_brefs_Big list_update_length)
  moreover have eq: "bv\<lparr>bv_refs := l, bv_nref := bv_nref bv + 1, bv_nbytes := n\<rparr> = ?bv\<lparr>bv_refs := l, bv_nbytes := n\<rparr>" for l
    by simp
  ultimately show "brefs (Big (bv\<lparr>bv_refs := (bv_refs bv)[(bv_start bv + bv_nref bv) AND bv_cap_mask bv := r],
       bv_nref := bv_nref bv + 1, bv_nbytes := n\<rparr>)) = brefs (Big bv) @ [r]"
    unfolding eq using ring_set [OF ok, where i = "bv_nref bv" and r = r and n = n] by simp
qed

lemma merge_fmt:
  assumes "ref_fmt q" and "ref_fmt r" and "mergeable q r"
  shows "ref_fmt (merge q r)" and "r_length (merge q r) = r_length q + r_length r"
    and "r_offset r = r_offset q + r_length q" and "r_block (merge q r) = r_block q" and "r_offset (merge q r) = r_offset q"
  using assms by (auto simp: ref_fmt_def mergeable_def merge_def)

lemma push_list_fmt:
  assumes "list_all ref_fmt rs" and "ref_fmt r"
  shows "list_all ref_fmt (push_list rs r)" and "blen (push_list rs r) = blen rs + r_length r"
proof -
  show "list_all ref_fmt (push_list rs r)"
    using assms list_all_last_butlast [OF assms(1)] merge_fmt(1) [of "last rs" r]
    by (auto simp: push_list_def)
  have "blen rs = blen (butlast rs) + r_length (last rs)" if "rs \<noteq> []"
    using that by (metis append_butlast_last_id blen_simps(1,2,3) add.right_neutral)
  then show "blen (push_list rs r) = blen rs + r_length r"
    using assms list_all_last_butlast [OF assms(1)] merge_fmt(2) [of "last rs" r]
    by (auto simp: push_list_def)
qed

text \<open>A push is the list operation, after a merge or a change of the layout where the code makes
  one; the reference count is touched once.\<close>

lemma push_small_ok:
  assumes "buf_ok (Small r0 r1)" and "ref_fmt r" and "blen (brefs (Small r0 r1)) + r_length r < 2 ^ 31"
  shows "\<exists>x'. layout_ok x' \<and> brefs x' = push_list (brefs (Small r0 r1)) r \<and>
    push_to_smallview mv r r0 r1 =
      bindp (if merges (brefs (Small r0 r1)) r then dec_if mv r else inc_unless mv r) (\<lambda>_. ret x')"
  using assms(1)
proof (cases rule: buf_cases)
  case zero
  then show ?thesis
    using assms(2) by (intro exI [of _ "Small r null_ref"]) (auto simp: push_list_def merges_def push_to_smallview_def ref_fmtD)
next
  case (one q)
  then show ?thesis
    using assms(2) merge_fmt(1) [of r0 r]
    by (intro exI [of _ "if mergeable r0 r then Small (merge r0 r) null_ref else Small r0 r"])
      (auto simp: push_list_def merges_def push_to_smallview_def ref_fmtD)
next
  case (two q0 q1)
  let ?bv = "\<lparr>bv_start = 0, bv_refs = [r0, r1, r] @ replicate (INITIAL_CAP - 3) null_ref, bv_nref = 3,
    bv_cap_mask = INITIAL_CAP - 1, bv_nbytes = add32 (add32 (r_length r0) (r_length r1)) (r_length r)\<rparr>"
  have ring: "ring_ok ?bv" "brefs (Big ?bv) = [r0, r1, r]"
    using ring_array [where bv = ?bv and k = 5 and rs = "[r0, r1, r]" and pad = "replicate (INITIAL_CAP - 3) null_ref"]
    by (simp_all add: INITIAL_CAP_def mask_eq_exp_minus_1)
  then have "layout_ok (Big ?bv)" using assms(3) two by (simp add: layout_ok.simps(2))
  then show ?thesis
    using two assms(2) merge_fmt(1) [of r1 r] ring
    by (intro exI [of _ "if mergeable r1 r then Small r0 (merge r1 r) else Big ?bv"])
      (auto simp: push_list_def merges_def push_to_smallview_def ref_fmtD)
qed simp

lemma ring_grow:
  assumes "ring_ok bv" and "bv_nref bv = capacity bv" and "bv_nref bv < 2 ^ 30"
  shows "\<exists>k. add32 (capacity bv) (capacity bv) = 2 ^ k \<and> k \<le> 31 \<and> bv_nref bv < 2 ^ k"
proof -
  obtain k where k: "bv_cap_mask bv = mask k" "2 ^ k \<le> (2 ^ 31 :: nat)" by (rule ring_okE [OF assms(1)])
  have "mask k + 1 = (2 ^ k :: nat)" by (simp add: mask_eq_exp_minus_1)
  then have c: "capacity bv = 2 ^ k" using k by (simp add: capacity_def)
  then have "2 ^ Suc k < (2 ^ 31 :: nat)" using assms(2,3) by simp
  then have "Suc k < 31" by (rule power_less_imp_less_exp [rotated]) simp
  then show ?thesis
    using c assms(2) \<open>2 ^ Suc k < 2 ^ 31\<close> by (intro exI [of _ "Suc k"]) simp
qed

lemma update_last: "rs \<noteq> [] \<Longrightarrow> rs[length rs - 1 := v] = butlast rs @ [v]"
  by (cases rs rule: rev_cases) simp_all

lemma push_big_ok:
  assumes "buf_ok (Big bv)" and "ref_fmt r" and "blen (brefs (Big bv)) + r_length r < 2 ^ 31"
    and "length (brefs (Big bv)) < 2 ^ 30"
  shows "\<exists>x'. layout_ok x' \<and> brefs x' = push_list (brefs (Big bv)) r \<and>
    push_to_bigview mv r bv =
      bindp (if merges (brefs (Big bv)) r then dec_if mv r else inc_unless mv r) (\<lambda>_. ret x')"
proof -
  note l = layout_Big [OF buf_okD(1) [OF assms(1)]]
  let ?rs = "brefs (Big bv)" and ?i = "bv_nref bv - 1"
  have bk: "(bv_ref_at bv ?i :: (io, BlockRef) prog) = ret (last ?rs)"
    using l by (simp add: bv_ref_at_ok last_conv_nth)
  have fmt: "ref_fmt (last ?rs)" using list_all_last_butlast [OF buf_okD(2) [OF assms(1)] l(4)] by simp
  have tot: "add64 (bv_nbytes bv) (r_length r) = blen ?rs + r_length r" using assms(3) l(3) by simp
  note pl = push_list_fmt(2) [OF buf_okD(2) [OF assms(1)] assms(2)]
  consider (merge) "mergeable (last ?rs) r" | (room) "\<not> mergeable (last ?rs) r" "bv_nref bv \<noteq> capacity bv"
    | (grow) "\<not> mergeable (last ?rs) r" "bv_nref bv = capacity bv" by blast
  then show ?thesis
  proof cases
    case merge
    let ?b = "bv\<lparr>bv_refs := (bv_refs bv)[(bv_start bv + ?i) AND bv_cap_mask bv := IOBuf_Model.merge (last ?rs) r],
      bv_nbytes := blen ?rs + r_length r\<rparr>"
    have b: "brefs (Big ?b) = push_list ?rs r"
      using ring_set [OF l(1), where i = ?i] l(2) merge update_last [OF l(4)] l(4) by (simp add: push_list_def)
    then have "layout_ok (Big ?b)" using l(1,2) pl by (simp add: layout_ok.simps(2) ring_ok_def)
    then show ?thesis
      using b merge bk tot l(4)
      by (intro exI [of _ "Big ?b"]) (simp add: push_to_bigview_def merges_def Let_def)
  next
    case room
    let ?b = "bv\<lparr>bv_refs := (bv_refs bv)[(bv_start bv + bv_nref bv) AND bv_cap_mask bv := r],
      bv_nref := bv_nref bv + 1, bv_nbytes := blen ?rs + r_length r\<rparr>"
    have b: "ring_ok ?b" "brefs (Big ?b) = push_list ?rs r"
      using ring_snoc [OF l(1) room(2)] room(1) by (simp_all add: push_list_def)
    then have "layout_ok (Big ?b)" using l(2) pl by (simp add: layout_ok.simps(2))
    moreover have "\<exists>q. (bv_ref_at bv (bv_nref bv) :: (io, BlockRef) prog) = ret q"
      using ring_index [OF l(1)] by (auto simp: bv_ref_at_def array_at_def)
    ultimately show ?thesis
      using b(2) room bk tot
      by (intro exI [of _ "Big ?b"]) (auto simp: push_to_bigview_def merges_def Let_def)
  next
    case grow
    obtain k where k: "add32 (capacity bv) (capacity bv) = 2 ^ k" "k \<le> 31" "bv_nref bv < 2 ^ k"
      using ring_grow [OF l(1) grow(2)] assms(4) by auto
    let ?b = "\<lparr>bv_start = 0, bv_refs = ?rs @ [r] @ replicate (2 ^ k - Suc (length ?rs)) null_ref,
      bv_nref = bv_nref bv + 1, bv_cap_mask = 2 ^ k - 1, bv_nbytes = blen ?rs + r_length r\<rparr>"
    have b: "ring_ok ?b" "brefs (Big ?b) = ?rs @ [r]"
      using ring_array [where bv = ?b and k = k and rs = "?rs @ [r]" and pad = "replicate (2 ^ k - Suc (length ?rs)) null_ref"] k
      by (simp_all add: mask_eq_exp_minus_1)
    then have "layout_ok (Big ?b)" using l(2) by (simp add: layout_ok.simps(2))
    then show ?thesis
      using b(2) grow bk tot k
      by (intro exI [of _ "Big ?b"]) (simp add: push_to_bigview_def merges_def Let_def push_list_def bv_copy_ok [OF l(1), unfolded grow(2)])
  qed
qed

text \<open>The room an operation needs: the content stays below 2 GiB, the references below
  \<open>2 ^ 30\<close>.\<close>

definition fits :: "IOBuf \<Rightarrow> nat \<Rightarrow> bool" where
  "fits x n = (blen (brefs x) + n < 2 ^ 31 \<and> length (brefs x) + n < 2 ^ 30)"

lemma push_ref_ok:
  assumes "buf_ok x" and "ref_fmt r" and "fits x (r_length r)"
  obtains x' where "buf_ok x'" and "brefs x' = push_list (brefs x) r"
    and "push_ref mv r x = bindp (if merges (brefs x) r then dec_if mv r else inc_unless mv r) (\<lambda>_. ret x')"
proof -
  have f: "blen (brefs x) + r_length r < 2 ^ 31" "length (brefs x) < 2 ^ 30"
    using assms(3) by (simp_all add: fits_def)
  have "\<exists>x'. layout_ok x' \<and> brefs x' = push_list (brefs x) r \<and> push_ref mv r x =
      bindp (if merges (brefs x) r then dec_if mv r else inc_unless mv r) (\<lambda>_. ret x')"
  proof (cases x)
    case (Small r0 r1)
    have "view (Small r0 r1) (push_to_smallview mv r) (push_to_bigview mv r) = push_to_smallview mv r r0 r1"
      using assms(1) Small by (cases rule: buf_cases [OF assms(1)]) simp_all
    then show ?thesis
      using push_small_ok [of r0 r1 r mv] assms(1,2) f Small by (simp add: push_ref_def)
  next
    case (Big bv)
    then show ?thesis using push_big_ok [of bv r mv] assms(1,2) f by (simp add: push_ref_def)
  qed
  then show thesis
    using that push_list_fmt [OF buf_okD(2) [OF assms(1)] assms(2)] f(1) by (auto simp: buf_ok_def)
qed

section \<open>Popping references\<close>

lemma ring_tail:
  assumes "ring_ok bv" and "3 < bv_nref bv"
  shows "ring_ok (bv\<lparr>bv_nref := bv_nref bv - 1, bv_start := (bv_start bv + 1) AND bv_cap_mask bv, bv_nbytes := n\<rparr>)"
    and "brefs (Big (bv\<lparr>bv_nref := bv_nref bv - 1, bv_start := (bv_start bv + 1) AND bv_cap_mask bv, bv_nbytes := n\<rparr>))
      = tl (brefs (Big bv))"
proof -
  obtain k where k: "bv_cap_mask bv = mask k" "bv_nref bv \<le> 2 ^ k" by (rule ring_okE [OF assms(1)])
  have "(bv_start bv + 1) mod 2 ^ k \<le> mask k"
    using Suc_mask [of k] by (metis less_Suc_eq_le mod_less_divisor zero_less_numeral zero_less_power)
  then show "ring_ok (bv\<lparr>bv_nref := bv_nref bv - 1, bv_start := (bv_start bv + 1) AND bv_cap_mask bv, bv_nbytes := n\<rparr>)"
    using assms(1) k by (auto simp: ring_ok_def and_mask_mod)
  show "brefs (Big (bv\<lparr>bv_nref := bv_nref bv - 1, bv_start := (bv_start bv + 1) AND bv_cap_mask bv, bv_nbytes := n\<rparr>))
      = tl (brefs (Big bv))"
    by (rule nth_equalityI) (auto simp: brefs_Big_nth nth_tl k and_mask_mod mod_simps)
qed

lemma ring_butlast:
  assumes "ring_ok bv"
  shows "ring_ok (bv\<lparr>bv_nref := bv_nref bv - 1, bv_nbytes := n\<rparr>)"
    and "brefs (Big (bv\<lparr>bv_nref := bv_nref bv - 1, bv_nbytes := n\<rparr>)) = butlast (brefs (Big bv))"
  using assms by (auto simp: ring_ok_def brefs_Big_nth nth_butlast intro!: nth_equalityI)

lemma three_refs:
  assumes "length rs = 3"
  shows "rs = [rs ! 0, rs ! 1, rs ! 2]"
  using assms by (auto simp: numeral_3_eq_3 length_Suc_conv)

lemma pop_front_ref_ok:
  assumes "buf_ok x" and "brefs x = r # rs"
  obtains x' where "buf_ok x'" and "brefs x' = rs"
    and "pop_front_ref mo x = bindp (dec_if (\<not> mo) r) (\<lambda>_. ret (x', 0))"
proof -
  have fmt: "list_all ref_fmt rs" "blen rs < 2 ^ 31" using assms by (auto simp: buf_ok_def)
  have "\<exists>x'. layout_ok x' \<and> brefs x' = rs \<and> pop_front_ref mo x = bindp (dec_if (\<not> mo) r) (\<lambda>_. ret (x', 0))"
    using assms(1)
  proof (cases rule: buf_cases)
    case (big bv)
    note l = layout_Big [OF big(2)]
    have hd: "(array_at (bv_refs bv) (bv_start bv) :: (io, BlockRef) prog) = ret r"
      using front_ref_ok [OF assms(1)] assms(2) big by (simp add: front_ref_def)
    show ?thesis
    proof (cases "bv_nref bv = 3")
      case True
      then have "brefs x = [r, brefs x ! 1, brefs x ! 2]"
        using three_refs [of "brefs x"] big assms(2) by simp
      then have rs: "rs = [brefs x ! 1, brefs x ! 2]" using assms(2) by simp
      then have "layout_ok (Small (brefs x ! 1) (brefs x ! 2)) \<and> brefs (Small (brefs x ! 1) (brefs x ! 2)) = rs"
        using fmt by (simp add: ref_fmtD)
      then show ?thesis
        using True hd big l(1)
        by (intro exI [of _ "Small (brefs x ! 1) (brefs x ! 2)"]) (simp add: pop_front_ref_def bv_ref_at_ok)
    next
      case False
      let ?b = "bv\<lparr>bv_nref := bv_nref bv - 1, bv_start := (bv_start bv + 1) AND bv_cap_mask bv,
        bv_nbytes := blen rs\<rparr>"
      have n: "3 < bv_nref bv" "2 < bv_nref bv - 1" using l(2) False by simp_all
      have "sub64 (bv_nbytes bv) (r_length r) = blen rs"
        using l(3) big assms(2) buf_okD(3) [OF assms(1)] by simp
      moreover have b: "ring_ok ?b" "brefs (Big ?b) = rs"
        using ring_tail [OF l(1) n(1)] big assms(2) by simp_all
      moreover have "layout_ok (Big ?b)" using b n by (simp add: layout_ok.simps(2))
      ultimately show ?thesis
        using n hd big by (intro exI [of _ "Big ?b"]) (simp add: pop_front_ref_def)
    qed
  next
    case (one r0)
    then show ?thesis using assms(2)
      by (intro exI [of _ "Small null_ref null_ref"]) (auto simp: pop_front_ref_def ref_fmtD)
  next
    case (two r0 r1)
    then show ?thesis using assms(2)
      by (intro exI [of _ "Small r1 null_ref"]) (auto simp: pop_front_ref_def ref_fmtD)
  qed (use assms(2) in simp)
  then show thesis using that fmt by (auto simp: buf_ok_def)
qed

lemma pop_back_ref_ok:
  assumes "buf_ok x" and "brefs x = rs @ [r]"
  obtains x' where "buf_ok x'" and "brefs x' = rs"
    and "pop_back_ref x = bindp (on_block dec_ref r) (\<lambda>_. ret (x', 0))"
proof -
  have fmt: "list_all ref_fmt rs" "blen rs < 2 ^ 31" using assms by (auto simp: buf_ok_def)
  have "\<exists>x'. layout_ok x' \<and> brefs x' = rs \<and> pop_back_ref x = bindp (on_block dec_ref r) (\<lambda>_. ret (x', 0))"
    using assms(1)
  proof (cases rule: buf_cases)
    case (big bv)
    note l = layout_Big [OF big(2)]
    have bk: "(bv_ref_at bv (bv_nref bv - 1) :: (io, BlockRef) prog) = ret r"
      using back_ref_ok [OF assms(1)] assms(2) big by (simp add: back_ref_def)
    have hd: "(array_at (bv_refs bv) (bv_start bv) :: (io, BlockRef) prog) = ret (hd (brefs x))"
      using front_ref_ok [OF assms(1)] assms(2) big by (simp add: front_ref_def)
    show ?thesis
    proof (cases "bv_nref bv = 3")
      case True
      then have "brefs x = [brefs x ! 0, brefs x ! 1, brefs x ! 2]"
        using three_refs [of "brefs x"] big by simp
      then have rs: "rs = [brefs x ! 0, brefs x ! 1]"
        using assms(2) by (metis append1_eq_conv append_Cons append_Nil)
      then have "layout_ok (Small (brefs x ! 0) (brefs x ! 1)) \<and> brefs (Small (brefs x ! 0) (brefs x ! 1)) = rs"
        using fmt by (simp add: ref_fmtD)
      moreover have "hd (brefs x) = brefs x ! 0" using assms(2) by (simp add: hd_conv_nth)
      ultimately show ?thesis
        using True bk hd big l(1)
        by (intro exI [of _ "Small (brefs x ! 0) (brefs x ! 1)"]) (simp add: pop_back_ref_def bv_ref_at_ok)
    next
      case False
      let ?b = "bv\<lparr>bv_nref := bv_nref bv - 1, bv_nbytes := blen rs\<rparr>"
      have n: "3 < bv_nref bv" "2 < bv_nref bv - 1" using l(2) False by simp_all
      have "sub64 (bv_nbytes bv) (r_length r) = blen rs"
        using l(3) big assms(2) buf_okD(3) [OF assms(1)] by simp
      moreover have b: "ring_ok ?b" "brefs (Big ?b) = rs"
        using ring_butlast [OF l(1)] big assms(2) by simp_all
      moreover have "layout_ok (Big ?b)" using b n by (simp add: layout_ok.simps(2))
      ultimately show ?thesis
        using n bk big by (intro exI [of _ "Big ?b"]) (simp add: pop_back_ref_def)
    qed
  next
    case (one r0)
    then show ?thesis using assms(2)
      by (intro exI [of _ "Small null_ref null_ref"]) (auto simp: pop_back_ref_def ref_fmtD append_eq_Cons_conv)
  next
    case (two r0 r1)
    then show ?thesis using assms(2)
      by (intro exI [of _ "Small r0 null_ref"]) (auto simp: pop_back_ref_def ref_fmtD append_eq_Cons_conv)
  qed (use assms(2) in simp)
  then show thesis using that fmt by (auto simp: buf_ok_def)
qed

text \<open>Trimming the first or the last reference in place.\<close>

definition cut_front :: "nat \<Rightarrow> BlockRef \<Rightarrow> BlockRef" where
  "cut_front n r = r\<lparr>r_offset := r_offset r + n, r_length := r_length r - n\<rparr>"

definition cut_back :: "nat \<Rightarrow> BlockRef \<Rightarrow> BlockRef" where
  "cut_back n r = r\<lparr>r_length := r_length r - n\<rparr>"

lemma cut_fmt:
  assumes "ref_fmt r" and "n < r_length r"
  shows "ref_fmt (cut_front n r)" and "ref_fmt (cut_back n r)"
    and "r\<lparr>r_offset := add32 (r_offset r) n, r_length := r_length r - n\<rparr> = cut_front n r"
  using assms by (auto simp: ref_fmt_def cut_front_def cut_back_def)

lemma trim_front_ok:
  assumes "buf_ok x" and "brefs x = r # rs" and "n < r_length r"
  shows "buf_ok (trim_front n x)" and "brefs (trim_front n x) = cut_front n r # rs"
proof -
  have fmt: "ref_fmt r" "list_all ref_fmt rs" "r_length r + blen rs < 2 ^ 31"
    using assms by (auto simp: buf_ok_def)
  have len: "r_length (cut_front n r) = r_length r - n" by (simp add: cut_front_def)
  have "layout_ok (trim_front n x) \<and> brefs (trim_front n x) = cut_front n r # rs"
    using assms(1)
  proof (cases rule: buf_cases)
    case (big bv)
    note l = layout_Big [OF big(2)]
    have r: "bv_refs bv ! bv_start bv = r"
      using l ring_start [OF l(1)] assms(2) big brefs_Big_nth [of 0 bv] by simp
    let ?b = "bv\<lparr>bv_refs := (bv_refs bv)[bv_start bv := cut_front n r], bv_nbytes := blen (cut_front n r # rs)\<rparr>"
    have b: "brefs (Big ?b) = cut_front n r # rs"
      using ring_set [OF l(1), where i = 0 and r = "cut_front n r"] l(2) assms(2) big ring_start(1) [OF l(1)] by simp
    then have "layout_ok (Big ?b)" using l(1,2) by (simp add: layout_ok.simps(2) ring_ok_def)
    moreover have "sub64 (bv_nbytes bv) n = blen (cut_front n r # rs)"
      using l(3) big assms(2,3) fmt(3) len by simp
    moreover have "(bv_refs bv)[bv_start bv := (let r = bv_refs bv ! bv_start bv in
        r\<lparr>r_offset := add32 (r_offset r) n, r_length := r_length r - n\<rparr>)] = (bv_refs bv)[bv_start bv := cut_front n r]"
      using cut_fmt(3) [OF fmt(1) assms(3)] r by simp
    ultimately show ?thesis using b big by (simp add: trim_front_def)
  qed (use assms(2,3) fmt cut_fmt [OF fmt(1) assms(3)] in \<open>auto simp: trim_front_def ref_fmtD\<close>)
  then show "buf_ok (trim_front n x)" "brefs (trim_front n x) = cut_front n r # rs"
    using fmt cut_fmt(1) [OF fmt(1) assms(3)] len by (auto simp: buf_ok_def)
qed

lemma trim_back_ok:
  assumes "buf_ok x" and "brefs x = rs @ [r]" and "n < r_length r"
  shows "buf_ok (trim_back n x)" and "brefs (trim_back n x) = rs @ [cut_back n r]"
proof -
  have fmt: "ref_fmt r" "list_all ref_fmt rs" "blen rs + r_length r < 2 ^ 31"
    using assms by (auto simp: buf_ok_def)
  have len: "r_length (cut_back n r) = r_length r - n" by (simp add: cut_back_def)
  have "layout_ok (trim_back n x) \<and> brefs (trim_back n x) = rs @ [cut_back n r]"
    using assms(1)
  proof (cases rule: buf_cases)
    case (big bv)
    note l = layout_Big [OF big(2)]
    let ?i = "bv_nref bv - 1" and ?j = "(bv_start bv + (bv_nref bv - 1)) AND bv_cap_mask bv"
    have n: "length rs = ?i" "brefs (Big bv) ! ?i = r"
      using assms(2) big l(2) length_brefs_Big [of bv] by (auto simp: nth_append)
    have r: "bv_refs bv ! ?j = r" using n(2) l(2) by (simp add: brefs_Big_nth)
    let ?b = "bv\<lparr>bv_refs := (bv_refs bv)[?j := cut_back n r], bv_nbytes := blen (rs @ [cut_back n r])\<rparr>"
    have b: "brefs (Big ?b) = rs @ [cut_back n r]"
      using ring_set [OF l(1), where i = ?i and r = "cut_back n r"] l(2) assms(2) big n(1) by (simp add: list_update_append)
    then have "layout_ok (Big ?b)" using l(1,2) by (simp add: layout_ok.simps(2) ring_ok_def)
    moreover have "sub64 (bv_nbytes bv) n = blen (rs @ [cut_back n r])"
      using l(3) big assms(2,3) fmt(3) len by simp
    ultimately show ?thesis using b big r by (simp add: trim_back_def Let_def cut_back_def)
  qed (use assms(2,3) fmt cut_fmt(2) [OF fmt(1) assms(3)] in
      \<open>auto simp: trim_back_def ref_fmtD append_eq_Cons_conv cut_back_def [symmetric]\<close>)
  then show "buf_ok (trim_back n x)" "brefs (trim_back n x) = rs @ [cut_back n r]"
    using fmt cut_fmt(2) [OF fmt(1) assms(3)] len by (auto simp: buf_ok_def)
qed

section \<open>Clearing and copying\<close>

lemma IOBuf_new_ok: "buf_ok IOBuf_new" "brefs IOBuf_new = []"
  by (simp_all add: IOBuf_new_def buf_ok_shapes)

lemma IOBuf_clear_ok:
  assumes "buf_ok x"
  shows "IOBuf_clear x = bindp (dec_refs (brefs x)) (\<lambda>_. ret IOBuf_new)"
  using assms
proof (cases rule: buf_cases)
  case (big bv)
  then show ?thesis by (simp add: IOBuf_clear_def bv_copy_ok [OF layout_Big(1)])
qed (simp_all add: IOBuf_clear_def IOBuf_new_def ref_fmtD bindp_assoc)

lemma IOBuf_copy_ok:
  assumes "buf_ok x"
  obtains x' where "buf_ok x'" and "brefs x' = brefs x"
    and "IOBuf_copy x = bindp (inc_all (brefs x)) (\<lambda>_. ret x')"
  using assms
proof (cases rule: buf_cases)
  case (big bv)
  note l = layout_Big [OF big(2)]
  obtain k where k: "bv_cap_mask bv = mask k" "bv_nref bv \<le> 2 ^ k" "2 ^ k \<le> (2 ^ 31 :: nat)" "k \<le> 31"
    by (rule ring_okE [OF l(1)])
  have cap: "capacity bv = 2 ^ k" using k Suc_mask [of k] by (simp add: capacity_def)
  let ?b = "\<lparr>bv_start = 0, bv_refs = brefs x @ replicate (capacity bv - length (brefs x)) null_ref,
    bv_nref = bv_nref bv, bv_cap_mask = bv_cap_mask bv, bv_nbytes = bv_nbytes bv\<rparr>"
  have b: "ring_ok ?b" "brefs (Big ?b) = brefs x"
    using ring_array [where bv = ?b and k = k and rs = "brefs x" and pad = "replicate (capacity bv - length (brefs x)) null_ref"]
      k cap big by simp_all
  then have "buf_ok (Big ?b)" using assms l(2,3) big by (simp add: buf_ok_def layout_ok.simps(2))
  then show thesis
    using b(2) k cap big by (intro that [of "Big ?b"]) (simp_all add: IOBuf_copy_def bv_copy_ok [OF l(1)])
next
  case zero
  then show thesis using assms by (intro that [of x]) (simp_all add: IOBuf_copy_def)
next
  case (one r0)
  then show thesis using assms by (intro that [of x]) (simp_all add: IOBuf_copy_def ref_fmtD bindp_assoc)
next
  case (two r0 r1)
  then show thesis using assms by (intro that [of x]) (simp_all add: IOBuf_copy_def ref_fmtD bindp_assoc)
qed

lemma IOBuf_assign_ok:
  assumes "buf_ok rhs" and "buf_ok x"
  obtains x' where "buf_ok x'" and "brefs x' = brefs rhs"
    and "IOBuf_assign rhs x = bindp (dec_refs (brefs x)) (\<lambda>_. bindp (inc_all (brefs rhs)) (\<lambda>_. ret x'))"
proof -
  obtain c where c: "buf_ok c" "brefs c = brefs rhs" "IOBuf_copy rhs = bindp (inc_all (brefs rhs)) (\<lambda>_. ret c)"
    by (rule IOBuf_copy_ok [OF assms(1)])
  have fresh: "bindp (IOBuf_clear x) (\<lambda>_. IOBuf_copy rhs) =
      bindp (dec_refs (brefs x)) (\<lambda>_. bindp (inc_all (brefs rhs)) (\<lambda>_. ret c))"
    by (simp add: IOBuf_clear_ok [OF assms(2)] c(3) bindp_assoc)
  show thesis
  proof (cases "\<exists>rb bv. rhs = Big rb \<and> x = Big bv \<and> bv_cap_mask bv = bv_cap_mask rb")
    case False
    have "IOBuf_assign rhs x = bindp (IOBuf_clear x) (\<lambda>_. IOBuf_copy rhs)"
      using False buf_cases [OF assms(1)] buf_cases [OF assms(2)]
      by (cases rule: buf_cases [OF assms(1)]; cases rule: buf_cases [OF assms(2)]) (auto simp: IOBuf_assign_def Let_def)
    then show thesis using that [OF c(1,2)] fresh by simp
  next
    case True
    then obtain rb bv where big: "rhs = Big rb" "x = Big bv" "bv_cap_mask bv = bv_cap_mask rb" by blast
    note l = layout_Big [of bv] layout_Big [of rb]
    have lay: "layout_ok (Big bv)" "layout_ok (Big rb)" using assms big by (auto simp: buf_ok_def)
    obtain k where k: "bv_cap_mask rb = mask k" "bv_nref rb \<le> 2 ^ k" "k \<le> 31" "length (bv_refs rb) = 2 ^ k"
      by (rule ring_okE [OF layout_Big(1) [OF lay(2)]])
    have len: "length (bv_refs bv) = 2 ^ k"
      using layout_Big(1) [OF lay(1)] k(1) big(3) by (simp add: ring_ok_def Suc_mask)
    let ?b = "bv\<lparr>bv_start := 0, bv_refs := brefs rhs @ drop (length (brefs rhs)) (bv_refs bv), bv_nref := bv_nref rb,
      bv_nbytes := bv_nbytes rb\<rparr>"
    have b: "ring_ok ?b" "brefs (Big ?b) = brefs rhs"
      using ring_array [where bv = ?b and k = k and rs = "brefs rhs" and pad = "drop (length (brefs rhs)) (bv_refs bv)"]
        k big len by simp_all
    then have "buf_ok (Big ?b)"
      using assms(1) layout_Big(2,3) [OF lay(2)] big by (simp add: buf_ok_def layout_ok.simps(2))
    then show thesis
      using b(2) big
      by (intro that [of "Big ?b"])
        (simp_all add: IOBuf_assign_def Let_def bv_copy_ok [OF layout_Big(1) [OF lay(1)]] bv_copy_ok [OF layout_Big(1) [OF lay(2)]])
  qed
qed

end
