(* ===== verification/IOBuf_Heap.thy ===== *)
theory IOBuf_Heap
  imports IOBuf_Refs Pool_Allocator
begin

text \<open>
  Reference counting. The count of every block is the number of references to it: from buffers
  and streams, and from the thread's chain. Blocks of the pool are exactly the pool's blocks in
  use, next to those \<open>X\<close> that other components hold. The client side of the allocator is the
  interpretation of \<open>block_allocator\<close>.
\<close>

section \<open>The invariant\<close>

definition block_ok :: "bptr \<Rightarrow> Block \<Rightarrow> bool" where
  "block_ok p b = (bsize b \<le> bcap b \<and> bcap b \<le> 2 ^ 31 \<and> user_data b = (\<exists>a. p = InHeap a))"

definition pool_blocks :: "io \<Rightarrow> addr set" where
  "pool_blocks s = {a. heap s (InPool a) \<noteq> None}"

definition heap_ok :: "addr set \<Rightarrow> io \<Rightarrow> bptr multiset \<Rightarrow> bool" where
  "heap_ok X s T = ((\<forall>p b. heap s p = Some b \<longrightarrow> block_ok p b \<and> nshared b = int (count T p) \<and> p \<in># T) \<and>
     (\<forall>p \<in># T. heap s p \<noteq> None) \<and>
     pool_ok (io_pool s) (pool_blocks s \<union> X) \<and> pool_blocks s \<inter> X = {} \<and>
     (\<forall>n q. env_ok q (io_env s n q)))"

text \<open>\<open>R\<close> are the references of buffers and streams; the thread's chain has one for each entry.\<close>

definition io_ok :: "addr set \<Rightarrow> io \<Rightarrow> bptr multiset \<Rightarrow> bool" where
  "io_ok X s R = (heap_ok X s (R + mset (block_head s)) \<and> num_blocks s = int (length (block_head s)))"

text \<open>\<open>still T s s'\<close>: the blocks of \<open>T\<close> are the same but for their counts, and so is the chain.
  \<open>grows T s s'\<close>: they may have grown, with the bytes they had kept.\<close>

definition still :: "bptr multiset \<Rightarrow> io \<Rightarrow> io \<Rightarrow> bool" where
  "still T s s' = (block_head s' = block_head s \<and> num_blocks s' = num_blocks s \<and>
     (\<forall>p \<in># T. \<forall>b. heap s p = Some b \<longrightarrow> (\<exists>n. heap s' p = Some (b\<lparr>nshared := n\<rparr>))))"

definition grows :: "bptr multiset \<Rightarrow> io \<Rightarrow> io \<Rightarrow> bool" where
  "grows T s s' = (\<forall>p \<in># T. \<forall>b. heap s p = Some b \<longrightarrow> (\<exists>b'. heap s' p = Some b' \<and>
     bsize b \<le> bsize b' \<and> bcap b' = bcap b \<and> user_data b' = user_data b \<and> (\<forall>k < bsize b. bytes b' k = bytes b k)))"

lemma nshared_self [simp]: "\<exists>n. b = b\<lparr>nshared := n\<rparr>"
  by (rule exI [of _ "nshared b"]) simp

lemma still_refl [simp]: "still T s s"
  by (simp add: still_def)

lemma still_trans:
  assumes "still T s s'" and "still T s' s''"
  shows "still T s s''"
proof -
  have "\<exists>n. heap s'' p = Some (b\<lparr>nshared := n\<rparr>)" if p: "p \<in># T" "heap s p = Some b" for p b
  proof -
    obtain n where "heap s' p = Some (b\<lparr>nshared := n\<rparr>)" using assms(1) p unfolding still_def by blast
    then obtain m where "heap s'' p = Some (b\<lparr>nshared := n\<rparr>\<lparr>nshared := m\<rparr>)"
      using assms(2) p(1) unfolding still_def by blast
    then show ?thesis by auto
  qed
  then show ?thesis using assms unfolding still_def by auto
qed

lemma still_mono: "still T s s' \<Longrightarrow> T' \<subseteq># T \<Longrightarrow> still T' s s'"
  unfolding still_def by (meson mset_subset_eqD)

lemma still_weaken:
  "still (A + T) s s' \<Longrightarrow> still T s s'" "still (T + A) s s' \<Longrightarrow> still T s s'" "still (add_mset p T) s s' \<Longrightarrow> still T s s'"
  by (erule still_mono; simp)+

lemma still_grows: "still T s s' \<Longrightarrow> grows T s s'"
  unfolding still_def grows_def by fastforce

lemma grows_refl [simp]: "grows T s s"
  by (simp add: grows_def)

lemma grows_trans:
  assumes "grows T s s'" and "grows T s' s''"
  shows "grows T s s''"
  unfolding grows_def
proof (intro ballI allI impI)
  fix p b assume p: "p \<in># T" "heap s p = Some b"
  obtain b' where b': "heap s' p = Some b'" "bsize b \<le> bsize b'" "bcap b' = bcap b" "user_data b' = user_data b"
      "\<forall>k < bsize b. bytes b' k = bytes b k"
    using assms(1) p unfolding grows_def by blast
  obtain b'' where "heap s'' p = Some b''" "bsize b' \<le> bsize b''" "bcap b'' = bcap b'" "user_data b'' = user_data b'"
      "\<forall>k < bsize b'. bytes b'' k = bytes b' k"
    using assms(2) p(1) b'(1) unfolding grows_def by blast
  then show "\<exists>b'. heap s'' p = Some b' \<and> bsize b \<le> bsize b' \<and> bcap b' = bcap b \<and> user_data b' = user_data b \<and>
      (\<forall>k < bsize b. bytes b' k = bytes b k)"
    using b' by auto
qed

lemma grows_mono: "grows T s s' \<Longrightarrow> T' \<subseteq># T \<Longrightarrow> grows T' s s'"
  unfolding grows_def by (meson mset_subset_eqD)

lemma grows_weaken:
  "grows (A + T) s s' \<Longrightarrow> grows T s s'" "grows (T + A) s s' \<Longrightarrow> grows T s s'" "grows (add_mset p T) s s' \<Longrightarrow> grows T s s'"
  by (erule grows_mono; simp)+

lemma heap_okD:
  assumes "heap_ok X s T"
  shows "heap s p = Some b \<Longrightarrow> block_ok p b" and "heap s p = Some b \<Longrightarrow> nshared b = int (count T p)"
    and "heap s p = Some b \<Longrightarrow> p \<in># T" and "p \<in># T \<Longrightarrow> \<exists>b. heap s p = Some b"
    and "pool_ok (io_pool s) (pool_blocks s \<union> X)" and "pool_blocks s \<inter> X = {}" and "env_ok q (io_env s n q)"
  using assms unfolding heap_ok_def by auto

section \<open>Counting\<close>

lemma runs_get_block: "heap s p = Some b \<Longrightarrow> runs (get_block p) s Q = Q b s"
  by (simp add: runs_def get_block_def)

lemma runs_put_block [simp]: "runs (put_block p b) s Q = Q () (s\<lparr>heap := (heap s)(p := Some b)\<rparr>)"
  by (simp add: put_block_def)

lemma heap_ok_recount:
  assumes "heap_ok X s T" and "heap s p = Some b" and "p \<in># T'" and "\<And>q. q \<noteq> p \<Longrightarrow> count T' q = count T q"
    and "n = int (count T' p)"
  shows "heap_ok X (s\<lparr>heap := (heap s)(p := Some (b\<lparr>nshared := n\<rparr>))\<rparr>) T'"
proof -
  have pb: "pool_blocks (s\<lparr>heap := (heap s)(p := Some (b\<lparr>nshared := n\<rparr>))\<rparr>) = pool_blocks s"
    using assms(2) by (auto simp: pool_blocks_def)
  have mem: "q \<in># T' \<longleftrightarrow> q \<in># T" if "q \<noteq> p" for q
    using assms(4) [OF that] by (metis count_eq_zero_iff)
  show ?thesis
    using assms heap_okD [OF assms(1)] mem unfolding heap_ok_def pb
    by (auto simp: block_ok_def)
qed

lemma inc_ref_ok:
  assumes "heap_ok X s T" and "p \<in># T"
  shows "runs (inc_ref p) s (\<lambda>_ s'. heap_ok X s' (add_mset p T) \<and> still T s s')"
proof -
  obtain b where b: "heap s p = Some b" using heap_okD(4) [OF assms] by blast
  have "heap_ok X (s\<lparr>heap := (heap s)(p := Some (b\<lparr>nshared := nshared b + 1\<rparr>))\<rparr>) (add_mset p T)"
    by (rule heap_ok_recount [OF assms(1) b]) (use heap_okD(2) [OF assms(1) b] in simp_all)
  moreover have "still T s (s\<lparr>heap := (heap s)(p := Some (b\<lparr>nshared := nshared b + 1\<rparr>))\<rparr>)"
    using still_refl [of T s] b by (auto simp: still_def)
  ultimately show ?thesis
    using b by (simp add: inc_ref_def runs_bindp_iff runs_get_block)
qed

text \<open>The last reference frees the block.\<close>

lemma heap_ok_remove:
  assumes "heap_ok X s (add_mset p T)" and "p \<notin># T"
    and "pool_ok q (pool_blocks (s\<lparr>heap := (heap s)(p := None)\<rparr>) \<union> X)"
  shows "heap_ok X (s\<lparr>heap := (heap s)(p := None), io_pool := q\<rparr>) T"
    and "heap_ok X (s\<lparr>heap := (heap s)(p := None), io_pool := q, io_deleted := d\<rparr>) T"
proof -
  have sub: "pool_blocks (s\<lparr>heap := (heap s)(p := None)\<rparr>) \<subseteq> pool_blocks s" by (auto simp: pool_blocks_def)
  have "count (add_mset p T) r = count T r" if "heap s r = Some b" "r \<noteq> p" for r b using that by simp
  then show "heap_ok X (s\<lparr>heap := (heap s)(p := None), io_pool := q\<rparr>) T"
    "heap_ok X (s\<lparr>heap := (heap s)(p := None), io_pool := q, io_deleted := d\<rparr>) T"
    using assms sub heap_okD [OF assms(1)] unfolding heap_ok_def by (auto simp: pool_blocks_def)
qed

lemma dec_ref_ok:
  assumes "heap_ok X s (add_mset p T)"
  shows "runs (dec_ref p) s (\<lambda>_ s'. heap_ok X s' T \<and> still T s s')"
proof -
  obtain b where b: "heap s p = Some b" using heap_okD(4) [OF assms, of p] by auto
  note bo = heap_okD(1,2) [OF assms b]
  note run = dec_ref_def runs_bindp_iff runs_get_block [OF b]
  consider (more) "p \<in># T" | (user) "p \<notin># T" "user_data b" | (pool) "p \<notin># T" "\<not> user_data b" by blast
  then show ?thesis
  proof cases
    case more
    then have n: "nshared b \<noteq> 1" using bo(2) by (simp add: count_eq_zero_iff [symmetric])
    have "heap_ok X (s\<lparr>heap := (heap s)(p := Some (b\<lparr>nshared := nshared b - 1\<rparr>))\<rparr>) T"
      by (rule heap_ok_recount [OF assms b]) (use more bo(2) in simp_all)
    moreover have "still T s (s\<lparr>heap := (heap s)(p := Some (b\<lparr>nshared := nshared b - 1\<rparr>))\<rparr>)"
      using b by (auto simp: still_def)
    ultimately show ?thesis using n by (simp add: run)
  next
    case user
    then have n: "nshared b = 1" "\<exists>a. p = InHeap a" using bo by (auto simp: block_ok_def not_in_iff)
    then have "pool_blocks (s\<lparr>heap := (heap s)(p := None)\<rparr>) = pool_blocks s" by (auto simp: pool_blocks_def)
    then have "heap_ok X (s\<lparr>heap := (heap s)(p := None), io_pool := io_pool s, io_deleted := io_deleted s @ [data b]\<rparr>) T"
      using heap_ok_remove(2) [OF assms user(1), of "io_pool s" "io_deleted s @ [data b]"] heap_okD(5) [OF assms] by simp
    moreover have "still T s (s\<lparr>heap := (heap s)(p := None), io_deleted := io_deleted s @ [data b]\<rparr>)"
      using user(1) by (auto simp: still_def)
    ultimately show ?thesis using n user by (simp add: run)
  next
    case pool
    then obtain a where n: "nshared b = 1" "p = InPool a" using bo by (cases p) (auto simp: block_ok_def not_in_iff)
    have a: "a \<in> pool_blocks s \<union> X" "a \<notin> X" using b n(2) heap_okD(6) [OF assms] by (auto simp: pool_blocks_def)
    obtain q where q: "BlockDeallocate (io_self s) a (io_pool s) = Inr ((), q)" "pool_ok q (pool_blocks s \<union> X - {a})"
      using pool_alloc.dealloc_old [OF heap_okD(5) [OF assms] a(1), of "io_self s"] by (auto simp: runs_iff)
    have "pool_blocks s \<union> X - {a} = pool_blocks (s\<lparr>heap := (heap s)(p := None)\<rparr>) \<union> X"
      using a(2) n(2) by (auto simp: pool_blocks_def)
    then have "heap_ok X (s\<lparr>heap := (heap s)(p := None), io_pool := q\<rparr>) T"
      using heap_ok_remove(1) [OF assms pool(1)] q(2) by simp
    moreover have "still T s (s\<lparr>heap := (heap s)(p := None), io_pool := q\<rparr>)"
      using pool(1) by (auto simp: still_def)
    ultimately have "runs (blockmem_deallocate p) s (\<lambda>_ s'. heap_ok X s' T \<and> still T s s')"
      using n q(1) by (simp add: runs_def blockmem_deallocate_def)
    then show ?thesis using n(1) pool by (simp add: run)
  qed
qed

lemma dec_all_ok:
  "heap_ok X s (mset ps + T) \<Longrightarrow> runs (dec_all ps) s (\<lambda>_ s'. heap_ok X s' T \<and> still T s s')"
proof (induction ps arbitrary: s)
  case (Cons p ps)
  have "runs (dec_ref p) s (\<lambda>_ s'. heap_ok X s' (mset ps + T) \<and> still (mset ps + T) s s')"
    using Cons(2) by (intro dec_ref_ok) simp
  then show ?case
    unfolding dec_all.simps
    by (rule runs_then) (auto intro!: runs_mono [OF Cons(1)] dest: still_weaken intro: still_trans)
qed simp

text \<open>The pointers of a list of references.\<close>

definition ptrs :: "BlockRef list \<Rightarrow> bptr multiset" where
  "ptrs rs = mset (map (\<lambda>r. the (r_block r)) rs)"

lemma ptrs_simps [simp]:
  "ptrs [] = {#}" "ptrs (r # rs) = add_mset (the (r_block r)) (ptrs rs)" "ptrs (rs @ qs) = ptrs rs + ptrs qs"
  by (simp_all add: ptrs_def)

lemma runs_on_block: "ref_fmt r \<Longrightarrow> on_block f r = f (the (r_block r))"
  by (auto simp: on_block_def ref_fmt_def)

lemma dec_refs_ok:
  "heap_ok X s (ptrs rs + T) \<Longrightarrow> list_all ref_fmt rs \<Longrightarrow> runs (dec_refs rs) s (\<lambda>_ s'. heap_ok X s' T \<and> still T s s')"
proof (induction rs arbitrary: s)
  case (Cons r rs)
  have "runs (on_block dec_ref r) s (\<lambda>_ s'. heap_ok X s' (ptrs rs + T) \<and> still (ptrs rs + T) s s')"
    using Cons(2,3) by (simp add: runs_on_block dec_ref_ok)
  then show ?case
    unfolding dec_refs.simps
    by (rule runs_then) (use Cons(3) in \<open>auto intro!: runs_mono [OF Cons(1)] dest: still_weaken intro: still_trans\<close>)
qed simp

lemma inc_all_ok:
  "heap_ok X s T \<Longrightarrow> list_all ref_fmt rs \<Longrightarrow> ptrs rs \<subseteq># T \<Longrightarrow>
     runs (inc_all rs) s (\<lambda>_ s'. heap_ok X s' (ptrs rs + T) \<and> still T s s')"
proof (induction rs arbitrary: s T)
  case (Cons r rs)
  let ?p = "the (r_block r)"
  have p: "?p \<in># T" using Cons(4) by (simp add: insert_subset_eq_iff)
  have "ptrs rs \<subseteq># add_mset ?p T"
    using Cons(4) by (metis ptrs_simps(2) subset_mset.trans mset_subset_eq_add_right add_mset_add_single union_commute mset_subset_eq_add_left)
  note IH = Cons(1) [OF _ _ this]
  have "runs (on_block inc_ref r) s (\<lambda>_ s'. heap_ok X s' (add_mset ?p T) \<and> still T s s')"
    using Cons(3) by (simp add: runs_on_block inc_ref_ok [OF Cons(2) p])
  then show ?case
    unfolding inc_all.simps
    by (rule runs_then) (use Cons(3) in \<open>auto intro!: runs_mono [OF IH] dest: still_weaken intro: still_trans\<close>)
qed simp

section \<open>Content\<close>

text \<open>The bytes a reference covers, and that it lies in the written part of its block.\<close>

definition rbytes :: "io \<Rightarrow> BlockRef \<Rightarrow> byte list" where
  "rbytes s r = (case heap s (the (r_block r)) of None \<Rightarrow> []
     | Some b \<Rightarrow> map (\<lambda>k. bytes b (r_offset r + k)) [0..<r_length r])"

definition content :: "io \<Rightarrow> BlockRef list \<Rightarrow> byte list" where
  "content s rs = concat (map (rbytes s) rs)"

definition ref_in :: "io \<Rightarrow> BlockRef \<Rightarrow> bool" where
  "ref_in s r = (\<exists>b. heap s (the (r_block r)) = Some b \<and> r_offset r + r_length r \<le> bsize b)"

lemma content_simps [simp]:
  "content s [] = []" "content s (r # rs) = rbytes s r @ content s rs"
  "content s (rs @ qs) = content s rs @ content s qs"
  by (simp_all add: content_def)

lemma length_rbytes: "ref_in s r \<Longrightarrow> length (rbytes s r) = r_length r"
  by (auto simp: ref_in_def rbytes_def)

lemma length_content: "list_all (ref_in s) rs \<Longrightarrow> length (content s rs) = blen rs"
  by (induction rs) (simp_all add: length_rbytes)

lemma ref_grows:
  assumes "grows T s s'" and "the (r_block r) \<in># T" and "ref_in s r"
  shows "ref_in s' r" and "rbytes s' r = rbytes s r"
proof -
  obtain b where b: "heap s (the (r_block r)) = Some b" "r_offset r + r_length r \<le> bsize b"
    using assms(3) by (auto simp: ref_in_def)
  obtain b' where b': "heap s' (the (r_block r)) = Some b'" "bsize b \<le> bsize b'" "\<forall>k < bsize b. bytes b' k = bytes b k"
    using assms(1,2) b(1) unfolding grows_def by blast
  show "ref_in s' r" using b b' by (auto simp: ref_in_def)
  show "rbytes s' r = rbytes s r" using b b' by (simp add: rbytes_def)
qed

lemma content_grows:
  assumes "grows T s s'" and "ptrs rs \<subseteq># T" and "list_all (ref_in s) rs"
  shows "list_all (ref_in s') rs" and "content s' rs = content s rs"
proof -
  have "list_all (ref_in s') rs \<and> content s' rs = content s rs"
    using assms(2,3)
  proof (induction rs)
    case (Cons r rs)
    have p: "the (r_block r) \<in># T" "ptrs rs \<subseteq># T"
      using Cons(2) by (auto simp: insert_subset_eq_iff intro: subset_mset.trans)
    then show ?case using Cons ref_grows [OF assms(1) p(1)] by simp
  qed simp
  then show "list_all (ref_in s') rs" "content s' rs = content s rs" by auto
qed

text \<open>\<open>holds X s x F\<close>: the buffer \<open>x\<close> is well-formed, and with the references \<open>F\<close> of everybody else
  it accounts for all counts.\<close>

definition holds :: "addr set \<Rightarrow> io \<Rightarrow> IOBuf \<Rightarrow> bptr multiset \<Rightarrow> bool" where
  "holds X s x F = (buf_ok x \<and> list_all (ref_in s) (brefs x) \<and> io_ok X s (ptrs (brefs x) + F))"

abbreviation btext :: "io \<Rightarrow> IOBuf \<Rightarrow> byte list" where
  "btext s x \<equiv> content s (brefs x)"

lemma holdsD:
  assumes "holds X s x F"
  shows "buf_ok x" and "list_all (ref_in s) (brefs x)" and "io_ok X s (ptrs (brefs x) + F)"
    and "length (btext s x) = blen (brefs x)" and "list_all ref_fmt (brefs x)"
  using assms by (auto simp: holds_def length_content buf_ok_def)

lemma io_ok_step:
  assumes "io_ok X s R" and "heap_ok X s' (R' + mset (block_head s))" and "still T s s'"
  shows "io_ok X s' R'"
  using assms by (auto simp: io_ok_def still_def)

end
