(* ===== verification/IOBuf_Bytes.thy ===== *)
theory IOBuf_Bytes
  imports IOBuf_Heap
begin

text \<open>
  What the operations of \<open>IOBuf\<close> do to the bytes of a buffer: a buffer is a byte string, and
  cutting, appending, copying and comparing are the operations on strings. No operation faults,
  and every other buffer keeps its bytes.
\<close>

section \<open>References\<close>

lemma map_upt_add: "map f [0..<m + n] = map f [0..<m] @ map (\<lambda>k. f (m + k)) [0..<n]"
  by (induction n) simp_all

lemma merges_in:
  assumes "merges rs r" and "list_all ref_fmt rs"
  shows "the (r_block r) \<in># ptrs rs" and "ptrs (push_list rs r) = ptrs rs"
proof -
  have rs: "rs = butlast rs @ [last rs]" "mergeable (last rs) r" using assms(1) by (auto simp: merges_def)
  then have "r_block (last rs) = r_block r" by (simp add: mergeable_def)
  moreover have "ptrs rs = add_mset (the (r_block (last rs))) (ptrs (butlast rs))"
    by (subst rs(1)) simp
  ultimately show "the (r_block r) \<in># ptrs rs" "ptrs (push_list rs r) = ptrs rs"
    using assms(1) by (auto simp: push_list_def merges_def merge_def)
qed

lemma not_merges: "\<not> merges rs r \<Longrightarrow> push_list rs r = rs @ [r]"
  by (auto simp: merges_def push_list_def)

lemma push_content:
  assumes "list_all ref_fmt rs" and "ref_fmt r" and "list_all (ref_in s) rs" and "ref_in s r"
  shows "content s (push_list rs r) = content s rs @ rbytes s r" and "list_all (ref_in s) (push_list rs r)"
proof -
  have "content s (push_list rs r) = content s rs @ rbytes s r \<and> list_all (ref_in s) (push_list rs r)"
  proof (cases "merges rs r")
    case True
    let ?q = "last rs"
    have rs: "rs = butlast rs @ [?q]" "mergeable ?q r" using True by (auto simp: merges_def)
    have q: "ref_fmt ?q" "ref_in s ?q" "list_all (ref_in s) (butlast rs)"
      using assms(1,3) True list_all_last_butlast by (auto simp: merges_def)
    note m = merge_fmt [OF q(1) assms(2) rs(2)]
    obtain b where b: "heap s (the (r_block r)) = Some b" "r_offset r + r_length r \<le> bsize b"
      using assms(4) by (auto simp: ref_in_def)
    have same: "r_block ?q = r_block r" using rs(2) by (simp add: mergeable_def)
    have "rbytes s (merge ?q r) = rbytes s ?q @ rbytes s r"
      using b m same by (simp add: rbytes_def map_upt_add add.assoc)
    moreover have "ref_in s (merge ?q r)" using b m same by (auto simp: ref_in_def)
    moreover have "content s rs = content s (butlast rs) @ rbytes s ?q" by (subst rs(1)) simp
    ultimately show ?thesis using True q(3) by (simp add: push_list_def merges_def)
  qed (use assms in \<open>simp add: not_merges\<close>)
  then show "content s (push_list rs r) = content s rs @ rbytes s r" "list_all (ref_in s) (push_list rs r)" by auto
qed

lemma push_ref_runs:
  assumes "buf_ok x" and "ref_fmt r" and "fits x (r_length r)"
    and "heap_ok X s ((if mv then {#the (r_block r)#} else {#}) + ptrs (brefs x) + T)"
    and "mv \<or> the (r_block r) \<in># ptrs (brefs x) + T"
  shows "runs (push_ref mv r x) s (\<lambda>x' s'. buf_ok x' \<and> brefs x' = push_list (brefs x) r \<and>
     heap_ok X s' (ptrs (brefs x') + T) \<and> still ((if mv then {#the (r_block r)#} else {#}) + ptrs (brefs x) + T) s s')"
proof -
  let ?p = "the (r_block r)" and ?T = "ptrs (brefs x) + T"
  obtain x' where x': "buf_ok x'" "brefs x' = push_list (brefs x) r"
      "push_ref mv r x = bindp (if merges (brefs x) r then dec_if mv r else inc_unless mv r) (\<lambda>_. ret x')"
    by (rule push_ref_ok [OF assms(1-3)])
  note m = merges_in [OF _ buf_okD(2) [OF assms(1)], of r]
  have h: "heap_ok X s ((if mv then {#?p#} else {#}) + ?T)" using assms(4) by (simp add: ac_simps)
  have "runs (if merges (brefs x) r then dec_if mv r else inc_unless mv r) s (\<lambda>_ s'.
      heap_ok X s' (ptrs (brefs x') + T) \<and> still ((if mv then {#?p#} else {#}) + ptrs (brefs x) + T) s s')"
  proof (cases "merges (brefs x) r")
    case True
    then have "?p \<in># ?T" using m(1) by simp
    have w: "still ({#?p#} + ?T) s s'" if "still ?T s s'" for s'
      using that \<open>?p \<in># ?T\<close> by (auto simp: still_def)
    show ?thesis
    proof (cases mv)
      assume mv: mv
      have "runs (dec_ref ?p) s (\<lambda>_ s'. heap_ok X s' ?T \<and> still ?T s s')"
        using h mv by (intro dec_ref_ok) simp
      then show ?thesis
        using mv True m(2) x'(2) w assms(2) by (auto simp: dec_if_def runs_on_block ac_simps elim!: runs_mono)
    qed (use True h x'(2) m(2) in \<open>simp add: dec_if_def ac_simps\<close>)
  next
    case False
    then have eq: "ptrs (brefs x') + T = add_mset ?p ?T" using x'(2) by (simp add: not_merges ac_simps)
    show ?thesis
    proof (cases mv)
      assume "\<not> mv"
      then show ?thesis
        using inc_ref_ok [of X s ?T ?p] h assms(2,5) False eq by (simp add: inc_unless_def runs_on_block)
    qed (use False h eq in \<open>simp add: inc_unless_def\<close>)
  qed
  then show ?thesis unfolding x'(3) by (rule runs_then) (use x'(1,2) in simp)
qed

section \<open>Cutting\<close>

lemma pop_front_ref_runs:
  assumes "holds X s x F" and "brefs x = r # rs"
  shows "runs (pop_front_ref False x) s (\<lambda>(x', rc) s'. brefs x' = rs \<and> holds X s' x' F \<and>
     btext s' x' = content s rs \<and> still (ptrs rs + F) s s')"
proof -
  note h = holdsD [OF assms(1)]
  obtain x' where x': "buf_ok x'" "brefs x' = rs" "pop_front_ref False x = bindp (dec_if True r) (\<lambda>_. ret (x', 0))"
    using pop_front_ref_ok [OF h(1) assms(2), of False] by auto
  have fmt: "ref_fmt r" "list_all (ref_in s) rs" using h(2,5) assms(2) by simp_all
  let ?T = "ptrs rs + F + mset (block_head s)"
  have "runs (dec_ref (the (r_block r))) s (\<lambda>_ s'. heap_ok X s' ?T \<and> still ?T s s')"
    using h(3) assms(2) by (intro dec_ref_ok) (simp add: io_ok_def)
  then have "runs (dec_if True r) s (\<lambda>_ s'. heap_ok X s' ?T \<and> still ?T s s')"
    using fmt(1) by (simp add: dec_if_def runs_on_block)
  then show ?thesis
    unfolding x'(3)
  proof (rule runs_then)
    fix u s' assume s': "heap_ok X s' ?T \<and> still ?T s s'"
    then have st: "still (ptrs rs + F) s s'" by (auto dest: still_weaken)
    have "list_all (ref_in s') rs" "content s' rs = content s rs"
      using content_grows [OF still_grows [OF st] _ fmt(2)] by auto
    moreover have "io_ok X s' (ptrs rs + F)" using s' h(3) by (auto intro: io_ok_step)
    ultimately show "runs (ret (x', 0)) s' (\<lambda>(x', rc) s'. brefs x' = rs \<and> holds X s' x' F \<and>
        btext s' x' = content s rs \<and> still (ptrs rs + F) s s')"
      using x' st by (simp add: holds_def)
  qed
qed

lemma pop_back_ref_runs:
  assumes "holds X s x F" and "brefs x = rs @ [r]"
  shows "runs (pop_back_ref x) s (\<lambda>(x', rc) s'. brefs x' = rs \<and> holds X s' x' F \<and>
     btext s' x' = content s rs \<and> still (ptrs rs + F) s s')"
proof -
  note h = holdsD [OF assms(1)]
  obtain x' where x': "buf_ok x'" "brefs x' = rs" "pop_back_ref x = bindp (on_block dec_ref r) (\<lambda>_. ret (x', 0))"
    by (rule pop_back_ref_ok [OF h(1) assms(2)])
  have fmt: "ref_fmt r" "list_all (ref_in s) rs" using h(2,5) assms(2) by simp_all
  let ?T = "ptrs rs + F + mset (block_head s)"
  have "runs (dec_ref (the (r_block r))) s (\<lambda>_ s'. heap_ok X s' ?T \<and> still ?T s s')"
    using h(3) assms(2) by (intro dec_ref_ok) (simp add: io_ok_def ac_simps)
  then have "runs (on_block dec_ref r) s (\<lambda>_ s'. heap_ok X s' ?T \<and> still ?T s s')"
    using fmt(1) by (simp add: runs_on_block)
  then show ?thesis
    unfolding x'(3)
  proof (rule runs_then)
    fix u s' assume s': "heap_ok X s' ?T \<and> still ?T s s'"
    then have st: "still (ptrs rs + F) s s'" by (auto dest: still_weaken)
    have "list_all (ref_in s') rs" "content s' rs = content s rs"
      using content_grows [OF still_grows [OF st] _ fmt(2)] by auto
    moreover have "io_ok X s' (ptrs rs + F)" using s' h(3) by (auto intro: io_ok_step)
    ultimately show "runs (ret (x', 0)) s' (\<lambda>(x', rc) s'. brefs x' = rs \<and> holds X s' x' F \<and>
        btext s' x' = content s rs \<and> still (ptrs rs + F) s s')"
      using x' st by (simp add: holds_def)
  qed
qed

lemma trim_front_holds:
  assumes "holds X s x F" and "brefs x = r # rs" and "n < r_length r"
  shows "holds X s (trim_front n x) F" and "btext s (trim_front n x) = drop n (btext s x)"
proof -
  note h = holdsD [OF assms(1)]
  note t = trim_front_ok [OF h(1) assms(2,3)]
  obtain b where b: "heap s (the (r_block r)) = Some b" "r_offset r + r_length r \<le> bsize b"
    using h(2) assms(2) by (auto simp: ref_in_def)
  have "rbytes s (cut_front n r) = drop n (rbytes s r)"
    using b by (auto simp: rbytes_def cut_front_def add.assoc intro!: nth_equalityI)
  moreover have "ref_in s (cut_front n r)" using b assms(3) by (auto simp: ref_in_def cut_front_def)
  moreover have "n \<le> length (rbytes s r)" using assms(2,3) h(2) by (simp add: length_rbytes)
  ultimately show "holds X s (trim_front n x) F" "btext s (trim_front n x) = drop n (btext s x)"
    using t h(2,3) assms(2) by (simp_all add: holds_def cut_front_def)
qed

lemma trim_back_holds:
  assumes "holds X s x F" and "brefs x = rs @ [r]" and "n < r_length r"
  shows "holds X s (trim_back n x) F" and "btext s (trim_back n x) = take (blen (brefs x) - n) (btext s x)"
proof -
  note h = holdsD [OF assms(1)]
  note t = trim_back_ok [OF h(1) assms(2,3)]
  obtain b where b: "heap s (the (r_block r)) = Some b" "r_offset r + r_length r \<le> bsize b"
    using h(2) assms(2) by (auto simp: ref_in_def)
  have "rbytes s (cut_back n r) = take (r_length r - n) (rbytes s r)"
    using b by (simp add: rbytes_def cut_back_def take_map)
  moreover have "ref_in s (cut_back n r)" using b assms(3) by (auto simp: ref_in_def cut_back_def)
  moreover have "blen (brefs x) - n = blen rs + (r_length r - n)" "length (content s rs) = blen rs"
    using assms(2,3) h(2) by (simp_all add: length_content)
  ultimately show "holds X s (trim_back n x) F" "btext s (trim_back n x) = take (blen (brefs x) - n) (btext s x)"
    using t h(2,3) assms(2) by (simp_all add: holds_def cut_back_def)
qed

lemma pop_front_loop_runs:
  "holds X s x F \<Longrightarrow> n \<le> blen (brefs x) \<Longrightarrow> length (brefs x) \<le> fuel \<Longrightarrow>
     runs (pop_front_loop fuel n x) s (\<lambda>x' s'. holds X s' x' F \<and> btext s' x' = drop n (btext s x) \<and> still F s s')"
proof (induction fuel n x arbitrary: s rule: pop_front_loop.induct)
  case (3 fuel n x)
  note h = holdsD [OF 3(2)]
  obtain r rs where rs: "brefs x = r # rs" using 3(3) by (cases "brefs x") auto
  have fr: "front_ref x = ret r" using front_ref_ok [OF h(1)] rs by simp
  show ?case
  proof (cases "r_length r > Suc n")
    case True
    then show ?thesis using trim_front_holds [OF 3(2) rs True] fr by simp
  next
    case False
    have dr: "drop (Suc n) (btext s x) = drop (Suc n - r_length r) (content s rs)"
      using False h(2) rs by (simp add: length_rbytes)
    have "runs (bindp (pop_front_ref False x) (\<lambda>(x', _). pop_front_loop fuel (Suc n - r_length r) x')) s
        (\<lambda>x' s'. holds X s' x' F \<and> btext s' x' = drop (Suc n) (btext s x) \<and> still F s s')"
    proof (rule runs_then [OF pop_front_ref_runs [OF 3(2) rs]], clarify)
      fix x' rc s' assume s': "rs = brefs x'" "holds X s' x' F" "btext s' x' = content s (brefs x')"
        "still (ptrs (brefs x') + F) s s'"
      have "runs (pop_front_loop fuel (Suc n - r_length r) x') s' (\<lambda>x'' s''. holds X s'' x'' F \<and>
          btext s'' x'' = drop (Suc n - r_length r) (btext s' x') \<and> still F s' s'')"
        using 3(3,4) rs s' False by (intro 3(1)) simp_all
      then show "runs (pop_front_loop fuel (Suc n - r_length r) x') s'
          (\<lambda>x' s'. holds X s' x' F \<and> btext s' x' = drop (Suc n) (btext s x) \<and> still F s s')"
        by (rule runs_mono) (use s' dr in \<open>auto intro: still_trans dest: still_weaken\<close>)
    qed
    then show ?thesis using False fr by simp
  qed
qed auto

lemma clear_runs:
  assumes "holds X s x F"
  shows "runs (IOBuf_clear x) s (\<lambda>x' s'. x' = IOBuf_new \<and> holds X s' x' F \<and> still F s s')"
proof -
  note h = holdsD [OF assms]
  let ?T = "F + mset (block_head s)"
  have "heap_ok X s (ptrs (brefs x) + ?T)" using h(3) by (simp add: io_ok_def ac_simps)
  then have "runs (dec_refs (brefs x)) s (\<lambda>_ s'. heap_ok X s' ?T \<and> still ?T s s')"
    by (rule dec_refs_ok) (rule h(5))
  then show ?thesis
    unfolding IOBuf_clear_ok [OF h(1)]
    by (rule runs_then) (use h(3) in \<open>auto simp: holds_def IOBuf_new_ok dest: still_weaken intro: io_ok_step\<close>)
qed

lemma pop_front_runs:
  assumes "holds X s x F"
  shows "runs (pop_front n x) s (\<lambda>(x', k) s'. holds X s' x' F \<and> btext s' x' = drop n (btext s x) \<and>
     k = min n (length (btext s x)) \<and> still F s s')"
proof -
  note h = holdsD [OF assms]
  show ?thesis
  proof (cases "blen (brefs x) \<le> n")
    case True
    then show ?thesis
      using h(4)
      by (auto simp: pop_front_def IOBuf_length_ok [OF h(1)] IOBuf_new_ok runs_bindp_iff
          intro!: runs_mono [OF clear_runs [OF assms]])
  next
    case False
    then show ?thesis
      using h(4)
      by (auto simp: pop_front_def IOBuf_length_ok [OF h(1)] ref_num_ok [OF h(1)] runs_bindp_iff
          intro!: runs_mono [OF pop_front_loop_runs [OF assms]])
  qed
qed

lemma pop_back_loop_runs:
  "holds X s x F \<Longrightarrow> n \<le> blen (brefs x) \<Longrightarrow> length (brefs x) \<le> fuel \<Longrightarrow>
     runs (pop_back_loop fuel n x) s (\<lambda>x' s'. holds X s' x' F \<and>
       btext s' x' = take (blen (brefs x) - n) (btext s x) \<and> still F s s')"
proof (induction fuel n x arbitrary: s rule: pop_back_loop.induct)
  case (3 fuel n x)
  note h = holdsD [OF 3(2)]
  obtain rs r where rs: "brefs x = rs @ [r]" using 3(3) by (cases "brefs x" rule: rev_cases) auto
  have fr: "back_ref x = ret r" using back_ref_ok [OF h(1)] rs by simp
  show ?case
  proof (cases "r_length r > Suc n")
    case True
    then show ?thesis using trim_back_holds [OF 3(2) rs True] fr by simp
  next
    case False
    have "length (content s rs) = blen rs" using h(2) rs by (simp add: length_content)
    then have dr: "take (blen (brefs x) - Suc n) (btext s x) = take (blen rs - (Suc n - r_length r)) (content s rs)"
      using False rs by simp
    have "runs (bindp (pop_back_ref x) (\<lambda>(x', _). pop_back_loop fuel (Suc n - r_length r) x')) s
        (\<lambda>x' s'. holds X s' x' F \<and> btext s' x' = take (blen (brefs x) - Suc n) (btext s x) \<and> still F s s')"
    proof (rule runs_then [OF pop_back_ref_runs [OF 3(2) rs]], clarify)
      fix x' rc s' assume s': "rs = brefs x'" "holds X s' x' F" "btext s' x' = content s (brefs x')"
        "still (ptrs (brefs x') + F) s s'"
      have "runs (pop_back_loop fuel (Suc n - r_length r) x') s' (\<lambda>x'' s''. holds X s'' x'' F \<and>
          btext s'' x'' = take (blen (brefs x') - (Suc n - r_length r)) (btext s' x') \<and> still F s' s'')"
        using 3(3,4) rs s' False by (intro 3(1)) simp_all
      then show "runs (pop_back_loop fuel (Suc n - r_length r) x') s'
          (\<lambda>x' s'. holds X s' x' F \<and> btext s' x' = take (blen (brefs x) - Suc n) (btext s x) \<and> still F s s')"
        by (rule runs_mono) (use s' dr in \<open>auto intro: still_trans dest: still_weaken\<close>)
    qed
    then show ?thesis using False fr by simp
  qed
qed (auto simp: length_content holds_def)

lemma pop_back_runs:
  assumes "holds X s x F"
  shows "runs (pop_back n x) s (\<lambda>(x', k) s'. holds X s' x' F \<and>
     btext s' x' = take (length (btext s x) - n) (btext s x) \<and> k = min n (length (btext s x)) \<and> still F s s')"
proof -
  note h = holdsD [OF assms]
  show ?thesis
  proof (cases "blen (brefs x) \<le> n")
    case True
    then show ?thesis
      using h(4)
      by (auto simp: pop_back_def IOBuf_length_ok [OF h(1)] IOBuf_new_ok runs_bindp_iff
          intro!: runs_mono [OF clear_runs [OF assms]])
  next
    case False
    then show ?thesis
      using h(4)
      by (auto simp: pop_back_def IOBuf_length_ok [OF h(1)] ref_num_ok [OF h(1)] runs_bindp_iff
          intro!: runs_mono [OF pop_back_loop_runs [OF assms]])
  qed
qed

text \<open>Copying out.\<close>

lemma read_block_runs:
  assumes "ref_fmt r" and "ref_in s r" and "off + n \<le> r_length r"
  shows "runs (read_block r off n) s (\<lambda>bs s'. s' = s \<and> bs = take n (drop off (rbytes s r)))"
proof -
  obtain b where b: "heap s (the (r_block r)) = Some b" using assms(2) by (auto simp: ref_in_def)
  have "map (\<lambda>k. bytes b (r_offset r + off + k)) [0..<n] = take n (drop off (rbytes s r))"
    using b assms(3) by (auto simp: rbytes_def add.assoc intro!: nth_equalityI)
  then show ?thesis
    using b by (simp add: read_block_def runs_on_block [OF assms(1)] runs_bindp_iff runs_get_block)
qed

lemma cutn_mem_loop_runs:
  "holds X s x F \<Longrightarrow> n \<le> blen (brefs x) \<Longrightarrow> length (brefs x) \<le> fuel \<Longrightarrow>
     runs (cutn_mem_loop fuel n x) s (\<lambda>(x', bs) s'. holds X s' x' F \<and> btext s' x' = drop n (btext s x) \<and>
       bs = take n (btext s x) \<and> still F s s')"
proof (induction fuel n x arbitrary: s rule: cutn_mem_loop.induct)
  case (3 fuel n x)
  note h = holdsD [OF 3(2)]
  obtain r rs where rs: "brefs x = r # rs" using 3(3) by (cases "brefs x") auto
  have fr: "front_ref x = ret r" using front_ref_ok [OF h(1)] rs by simp
  have r: "ref_fmt r" "ref_in s r" "length (rbytes s r) = r_length r" using h rs by (auto simp: length_rbytes)
  show ?case
  proof (cases "r_length r \<le> Suc n")
    case False
    then have lt: "Suc n < r_length r" by simp
    have "runs (read_block r 0 (Suc n)) s (\<lambda>bs s'. s' = s \<and> bs = take (Suc n) (rbytes s r))"
      using read_block_runs [OF r(1,2), of 0 "Suc n"] lt by simp
    then show ?thesis
      using trim_front_holds [OF 3(2) rs lt] fr False r(3) rs
      by (auto simp: runs_bindp_iff elim!: runs_mono)
  next
    case True
    let ?m = "Suc n - r_length r"
    let ?Q = "\<lambda>(x', bs) s'. holds X s' x' F \<and> btext s' x' = drop (Suc n) (btext s x) \<and>
       bs = take (Suc n) (btext s x) \<and> still F s s'"
    have sp: "drop (Suc n) (btext s x) = drop ?m (content s rs)" "take (Suc n) (btext s x) = rbytes s r @ take ?m (content s rs)"
      using True r(3) rs by simp_all
    have "runs (bindp (pop_front_ref False x) (\<lambda>(x', _). bindp (cutn_mem_loop fuel ?m x')
        (\<lambda>(x'', rest). ret (x'', rbytes s r @ rest)))) s ?Q"
    proof (rule runs_then [OF pop_front_ref_runs [OF 3(2) rs]], clarify)
      fix x' rc s' assume s': "rs = brefs x'" "holds X s' x' F" "btext s' x' = content s (brefs x')"
        "still (ptrs (brefs x') + F) s s'"
      have "runs (cutn_mem_loop fuel ?m x') s' (\<lambda>(x'', bs) s''. holds X s'' x'' F \<and>
          btext s'' x'' = drop ?m (btext s' x') \<and> bs = take ?m (btext s' x') \<and> still F s' s'')"
        using 3(3,4) rs s' True by (intro 3(1)) simp_all
      then show "runs (bindp (cutn_mem_loop fuel ?m x') (\<lambda>(x'', rest). ret (x'', rbytes s r @ rest))) s' ?Q"
        by (rule runs_then) (use s' still_weaken(1) [OF s'(4)] sp in \<open>auto intro: still_trans\<close>)
    qed
    moreover have "runs (read_block r 0 (r_length r)) s (\<lambda>bs s'. s' = s \<and> bs = rbytes s r)"
      using read_block_runs [OF r(1,2), of 0 "r_length r"] r(3) by simp
    ultimately show ?thesis
      using True fr by (auto simp: runs_bindp_iff elim!: runs_mono)
  qed
qed auto

lemma cutn_mem_runs:
  assumes "holds X s x F"
  shows "runs (cutn_mem n x) s (\<lambda>(x', bs) s'. holds X s' x' F \<and> btext s' x' = drop n (btext s x) \<and>
     bs = take n (btext s x) \<and> still F s s')"
proof -
  note h = holdsD [OF assms]
  have "drop (min n (blen (brefs x))) (btext s x) = drop n (btext s x)"
    "take (min n (blen (brefs x))) (btext s x) = take n (btext s x)"
    using h(4) by (auto simp: min_def)
  then show ?thesis
    using cutn_mem_loop_runs [OF assms, of "min n (blen (brefs x))" "length (brefs x)"]
    by (simp add: cutn_mem_def IOBuf_length_ok [OF h(1)] ref_num_ok [OF h(1)])
qed

lemma copy_loop_runs:
  assumes "buf_ok x" and "list_all (ref_in s) (brefs x)"
  shows "i + left = length (brefs x) \<Longrightarrow> (left \<noteq> 0 \<longrightarrow> offset \<le> r_length (brefs x ! i)) \<Longrightarrow>
     runs (copy_loop x left i offset m) s (\<lambda>bs s'. s' = s \<and> bs = take m (drop offset (content s (drop i (brefs x)))))"
proof (induction left arbitrary: i offset m)
  case 0
  then show ?case by simp
next
  case (Suc left)
  let ?r = "brefs x ! i"
  have i: "i < length (brefs x)" using Suc(2) by simp
  then have d: "drop i (brefs x) = ?r # drop (Suc i) (brefs x)" by (rule Cons_nth_drop_Suc [symmetric])
  have r: "ref_fmt ?r" "ref_in s ?r" "length (rbytes s ?r) = r_length ?r"
    using i buf_okD(2) [OF assms(1)] assms(2) by (auto simp: list_all_length length_rbytes)
  show ?case
  proof (cases "m = 0")
    case False
    let ?nc = "min m (r_length ?r - offset)"
    have "runs (read_block ?r offset ?nc) s (\<lambda>bs s'. s' = s \<and> bs = take ?nc (drop offset (rbytes s ?r)))"
      using Suc(3) by (intro read_block_runs [OF r(1,2)]) simp
    moreover have "runs (copy_loop x left (Suc i) 0 (m - ?nc)) s
        (\<lambda>bs s'. s' = s \<and> bs = take (m - ?nc) (content s (drop (Suc i) (brefs x))))"
      using Suc(1) [of "Suc i" 0 "m - ?nc"] Suc(2) by simp
    moreover have "take ?nc (drop offset (rbytes s ?r)) @ take (m - ?nc) (content s (drop (Suc i) (brefs x))) =
        take m (drop offset (content s (drop i (brefs x))))"
      using Suc(3) r(3) d by (simp add: min_def)
    ultimately show ?thesis
      using False ref_at_ok [OF assms(1) i] by (auto simp: runs_bindp_iff Let_def elim!: runs_mono)
  qed simp
qed

lemma copy_skip_runs:
  assumes "buf_ok x" and "list_all (ref_in s) (brefs x)"
  shows "i + left = length (brefs x) \<Longrightarrow>
     runs (copy_skip x left i offset) s (\<lambda>(j, off) s'. s' = s \<and> i \<le> j \<and> j \<le> length (brefs x) \<and>
       (j < length (brefs x) \<longrightarrow> off \<le> r_length (brefs x ! j)) \<and>
       drop off (content s (drop j (brefs x))) = drop offset (content s (drop i (brefs x))))"
proof (induction left arbitrary: i offset)
  case (Suc left)
  let ?r = "brefs x ! i"
  have i: "i < length (brefs x)" using Suc(2) by simp
  then have d: "drop i (brefs x) = ?r # drop (Suc i) (brefs x)" by (rule Cons_nth_drop_Suc [symmetric])
  have r: "length (rbytes s ?r) = r_length ?r" using i assms(2) by (auto simp: list_all_length length_rbytes)
  show ?case
  proof (cases "offset = 0 \<or> offset < r_length ?r")
    case True
    then show ?thesis using i ref_at_ok [OF assms(1) i] by auto
  next
    case False
    have "runs (copy_skip x left (Suc i) (offset - r_length ?r)) s (\<lambda>(j, off) s'. s' = s \<and> Suc i \<le> j \<and>
        j \<le> length (brefs x) \<and> (j < length (brefs x) \<longrightarrow> off \<le> r_length (brefs x ! j)) \<and>
        drop off (content s (drop j (brefs x))) = drop (offset - r_length ?r) (content s (drop (Suc i) (brefs x))))"
      using Suc(1) [of "Suc i" "offset - r_length ?r"] Suc(2) by simp
    then show ?thesis
      using False ref_at_ok [OF assms(1) i] r d by (auto elim!: runs_mono)
  qed
qed simp

lemma copy_to_runs:
  assumes "holds X s x F"
  shows "runs (copy_to n pos x) s (\<lambda>bs s'. s' = s \<and> bs = take n (drop pos (btext s x)))"
proof -
  note h = holdsD [OF assms]
  have "runs (bindp (copy_skip x (length (brefs x)) 0 pos) (\<lambda>(i, offset). copy_loop x (length (brefs x) - i) i offset n)) s
      (\<lambda>bs s'. s' = s \<and> bs = take n (drop pos (btext s x)))"
  proof (rule runs_then [OF copy_skip_runs [OF h(1,2)]])
    show "0 + length (brefs x) = length (brefs x)" by simp
  qed (auto intro!: runs_mono [OF copy_loop_runs [OF h(1,2)]])
  then show ?thesis by (simp add: copy_to_def ref_num_ok [OF h(1)])
qed

lemma cut1_runs:
  assumes "holds X s x F"
  shows "runs (cut1 x) s (\<lambda>(x', c) s'. holds X s' x' F \<and> btext s' x' = drop 1 (btext s x) \<and>
     c = (case btext s x of [] \<Rightarrow> None | b # _ \<Rightarrow> Some b) \<and> still F s s')"
proof (cases "brefs x")
  case Nil
  then show ?thesis using assms by (simp add: cut1_def IOBuf_empty_ok [OF holdsD(1) [OF assms]])
next
  case (Cons r rs)
  note h = holdsD [OF assms]
  have r: "ref_fmt r" "ref_in s r" "length (rbytes s r) = r_length r" "0 < r_length r"
    using h Cons by (auto simp: length_rbytes ref_fmt_def)
  then obtain c cs where c: "rbytes s r = c # cs" by (cases "rbytes s r") auto
  have rb: "runs (read_block r 0 1) s (\<lambda>bs s'. s' = s \<and> bs = [c])"
    using read_block_runs [OF r(1,2), of 0 1] r(4) c by simp
  have start: "runs (cut1 x) s Q = runs (bindp (read_block r 0 1) (\<lambda>bs.
       if r_length r > 1 then ret (trim_front 1 x, Some (hd bs))
       else bindp (pop_front_ref False x) (\<lambda>(x', _). ret (x', Some (hd bs))))) s Q" for Q
    using front_ref_ok [OF h(1)] Cons by (simp add: cut1_def IOBuf_empty_ok [OF h(1)])
  show ?thesis
  proof (cases "r_length r > 1")
    case True
    then show ?thesis
      using rb trim_front_holds [OF assms Cons True] c Cons
      by (auto simp: start runs_bindp_iff elim!: runs_mono)
  next
    case False
    then have "cs = []" using r(3,4) c by (cases cs) auto
    then show ?thesis
      using rb False c Cons
      by (auto simp: start runs_bindp_iff elim!: runs_mono
          intro!: runs_mono [OF pop_front_ref_runs [OF assms Cons]] dest: still_weaken(1))
  qed
qed

section \<open>Moving references between buffers\<close>

definition is_buf :: "io \<Rightarrow> IOBuf \<Rightarrow> bool" where
  "is_buf s x = (buf_ok x \<and> list_all (ref_in s) (brefs x))"

lemma holds_is_buf: "holds X s x F = (is_buf s x \<and> io_ok X s (ptrs (brefs x) + F))"
  by (simp add: holds_def is_buf_def)

lemma is_buf_grows:
  assumes "is_buf s x" and "grows T s s'" and "ptrs (brefs x) \<subseteq># T"
  shows "is_buf s' x" and "btext s' x = btext s x"
  using assms content_grows [OF assms(2,3)] by (simp_all add: is_buf_def)

lemma fits_push:
  assumes "fits x (r_length r + n)" and "brefs x' = push_list (brefs x) r" and "ref_fmt r" and "buf_ok x"
  shows "fits x' n"
proof -
  have "length (brefs x') \<le> length (brefs x) + r_length r"
    using assms(2,3) by (auto simp: push_list_def ref_fmt_def)
  then show ?thesis
    using assms(1,2) push_list_fmt(2) [OF buf_okD(2) [OF assms(4)] assms(3)] by (simp add: fits_def)
qed

lemma fits_mono: "fits x n \<Longrightarrow> m \<le> n \<Longrightarrow> fits x m"
  by (simp add: fits_def)

lemma push_gen:
  assumes "is_buf s y" and "ref_fmt r" and "ref_in s r" and "fits y (r_length r)"
    and "io_ok X s ((if mv then {#the (r_block r)#} else {#}) + ptrs (brefs y) + R)"
    and "mv \<or> the (r_block r) \<in># ptrs (brefs y) + R"
  shows "runs (push_ref mv r y) s (\<lambda>y' s'. is_buf s' y' \<and> brefs y' = push_list (brefs y) r \<and>
     io_ok X s' (ptrs (brefs y') + R) \<and> btext s' y' = btext s y @ rbytes s r \<and>
     still ((if mv then {#the (r_block r)#} else {#}) + ptrs (brefs y) + R) s s')"
proof -
  let ?m = "if mv then {#the (r_block r)#} else {#}" and ?c = "mset (block_head s)"
  have y: "buf_ok y" "list_all (ref_in s) (brefs y)" using assms(1) by (simp_all add: is_buf_def)
  have "runs (push_ref mv r y) s (\<lambda>y' s'. buf_ok y' \<and> brefs y' = push_list (brefs y) r \<and>
     heap_ok X s' (ptrs (brefs y') + (R + ?c)) \<and> still (?m + ptrs (brefs y) + (R + ?c)) s s')"
    using assms(5,6) by (intro push_ref_runs [OF y(1) assms(2,4)]) (auto simp: io_ok_def ac_simps)
  then show ?thesis
  proof (rule runs_mono)
    fix y' s'
    assume s': "buf_ok y' \<and> brefs y' = push_list (brefs y) r \<and>
     heap_ok X s' (ptrs (brefs y') + (R + ?c)) \<and> still (?m + ptrs (brefs y) + (R + ?c)) s s'"
    then have st: "still (?m + ptrs (brefs y) + R) s s'"
      using still_weaken(2) [of "?m + ptrs (brefs y) + R" ?c s s'] by (simp add: ac_simps)
    then have gr: "grows (?m + ptrs (brefs y) + R) s s'" by (rule still_grows)
    have p: "the (r_block r) \<in># ?m + ptrs (brefs y) + R" using assms(6) by auto
    note r' = ref_grows [OF gr p assms(3)]
    have y': "list_all (ref_in s') (brefs y)" "content s' (brefs y) = btext s y"
      using content_grows [OF gr _ y(2)] by auto
    have "io_ok X s' (ptrs (brefs y') + R)" using s' assms(5) st by (auto simp: ac_simps intro: io_ok_step)
    then show "is_buf s' y' \<and> brefs y' = push_list (brefs y) r \<and> io_ok X s' (ptrs (brefs y') + R) \<and>
        btext s' y' = btext s y @ rbytes s r \<and> still (?m + ptrs (brefs y) + R) s s'"
      using s' st push_content [OF buf_okD(2) [OF y(1)] assms(2) y'(1) r'(1)] y'(2) r'(2) by (simp add: is_buf_def)
  qed
qed

lemma cutn_loop_runs:
  "is_buf s x \<Longrightarrow> is_buf s out \<Longrightarrow> io_ok X s (ptrs (brefs x) + ptrs (brefs out) + F) \<Longrightarrow>
     n \<le> blen (brefs x) \<Longrightarrow> length (brefs x) \<le> fuel \<Longrightarrow> fits out n \<Longrightarrow>
     runs (cutn_loop fuel n x out) s (\<lambda>(x', out') s'. is_buf s' x' \<and> is_buf s' out' \<and>
       io_ok X s' (ptrs (brefs x') + ptrs (brefs out') + F) \<and> btext s' x' = drop n (btext s x) \<and>
       btext s' out' = btext s out @ take n (btext s x) \<and> still F s s')"
proof (induction fuel n x out arbitrary: s rule: cutn_loop.induct)
  case (3 fuel n x out)
  have x: "buf_ok x" "list_all (ref_in s) (brefs x)" using 3(2) by (simp_all add: is_buf_def)
  obtain r rs where rs: "brefs x = r # rs" using 3(5) by (cases "brefs x") auto
  have fr: "front_ref x = ret r" using front_ref_ok [OF x(1)] rs by simp
  have r: "ref_fmt r" "ref_in s r" "length (rbytes s r) = r_length r" "list_all (ref_in s) rs"
    using x buf_okD(2) [OF x(1)] rs by (auto simp: length_rbytes)
  let ?Q = "\<lambda>(x', out') s'. is_buf s' x' \<and> is_buf s' out' \<and>
       io_ok X s' (ptrs (brefs x') + ptrs (brefs out') + F) \<and> btext s' x' = drop (Suc n) (btext s x) \<and>
       btext s' out' = btext s out @ take (Suc n) (btext s x) \<and> still F s s'"
  let ?p = "the (r_block r)"
  show ?case
  proof (cases "r_length r \<le> Suc n")
    case True
    let ?m = "Suc n - r_length r"
    have fits: "fits out (r_length r)" using 3(7) True by (rule fits_mono)
    have sp: "drop (Suc n) (btext s x) = drop ?m (content s rs)" "take (Suc n) (btext s x) = rbytes s r @ take ?m (content s rs)"
      using True r(3) rs by simp_all
    obtain x' where x': "buf_ok x'" "brefs x' = rs" "pop_front_ref True x = ret (x', 0)"
      using pop_front_ref_ok [OF x(1) rs, of True] by (auto simp: dec_if_def)
    have "runs (push_ref True r out) s (\<lambda>out' s'. is_buf s' out' \<and> brefs out' = push_list (brefs out) r \<and>
       io_ok X s' (ptrs (brefs out') + (ptrs rs + F)) \<and> btext s' out' = btext s out @ rbytes s r \<and>
       still ({#?p#} + ptrs (brefs out) + (ptrs rs + F)) s s')"
      using push_gen [OF 3(3) r(1,2) fits, of X True "ptrs rs + F"] 3(4) rs by (simp add: ac_simps)
    then have "runs (bindp (push_ref True r out) (\<lambda>out'. cutn_loop fuel ?m x' out')) s ?Q"
    proof (rule runs_then, clarify)
      fix out' s'
      assume s': "is_buf s' out'" "brefs out' = push_list (brefs out) r" "io_ok X s' (ptrs (brefs out') + (ptrs rs + F))"
        "btext s' out' = btext s out @ rbytes s r" "still ({#?p#} + ptrs (brefs out) + (ptrs rs + F)) s s'"
      have gr: "grows (ptrs rs + F) s s'" using still_grows [OF still_weaken(1) [OF s'(5)]] .
      have c: "list_all (ref_in s') rs" "content s' rs = content s rs" using content_grows [OF gr _ r(4)] by auto
      have st: "still F s s'" using s'(5) by (intro still_weaken(1) [of "ptrs rs" F] still_weaken(1) [OF s'(5)])
      have f: "fits out' ?m"
        using 3(7) True by (intro fits_push [OF _ s'(2) r(1)]) (use 3(3) in \<open>simp_all add: is_buf_def\<close>)
      have "runs (cutn_loop fuel ?m x' out') s' (\<lambda>(x'', out'') s''. is_buf s'' x'' \<and> is_buf s'' out'' \<and>
          io_ok X s'' (ptrs (brefs x'') + ptrs (brefs out'') + F) \<and> btext s'' x'' = drop ?m (btext s' x') \<and>
          btext s'' out'' = btext s' out' @ take ?m (btext s' x') \<and> still F s' s'')"
        using s' f x' rs c 3(5,6) True by (intro 3(1) [of r]) (simp_all add: is_buf_def ac_simps)
      then show "runs (cutn_loop fuel ?m x' out') s' ?Q"
        by (rule runs_mono) (use c x'(2) s'(4) sp st in \<open>auto intro: still_trans\<close>)
    qed
    then show ?thesis using True fr x'(3) by simp
  next
    case False
    then have lt: "Suc n < r_length r" by simp
    let ?r = "r\<lparr>r_length := Suc n\<rparr>"
    have r': "ref_fmt ?r" "ref_in s ?r" "rbytes s ?r = take (Suc n) (rbytes s r)"
      using r lt by (auto simp: ref_fmt_def ref_in_def rbytes_def take_map split: option.splits)
    have "runs (push_ref False ?r out) s (\<lambda>out' s'. is_buf s' out' \<and> brefs out' = push_list (brefs out) ?r \<and>
       io_ok X s' (ptrs (brefs out') + (ptrs (brefs x) + F)) \<and> btext s' out' = btext s out @ rbytes s ?r \<and>
       still (ptrs (brefs out) + (ptrs (brefs x) + F)) s s')"
      using push_gen [OF 3(3) r'(1,2), of X False "ptrs (brefs x) + F"] 3(4,7) rs by (simp add: ac_simps)
    then have "runs (bindp (push_ref False ?r out) (\<lambda>out'. ret (trim_front (Suc n) x, out'))) s ?Q"
    proof (rule runs_then, clarify)
      fix out' s'
      assume s': "is_buf s' out'" "brefs out' = push_list (brefs out) ?r" "io_ok X s' (ptrs (brefs out') + (ptrs (brefs x) + F))"
        "btext s' out' = btext s out @ rbytes s ?r" "still (ptrs (brefs out) + (ptrs (brefs x) + F)) s s'"
      have st: "still (ptrs (brefs x) + F) s s'" "still F s s'"
        using still_weaken(1) [OF s'(5)] still_weaken(1) [OF still_weaken(1) [OF s'(5)]] by auto
      have c: "is_buf s' x" "btext s' x = btext s x"
        using is_buf_grows [OF 3(2) still_grows [OF st(1)]] by auto
      have h: "holds X s' x (ptrs (brefs out') + F)" using c(1) s'(3) by (simp add: holds_is_buf ac_simps)
      have "rbytes s ?r = take (Suc n) (btext s x)" using r'(3) r(3) rs lt by simp
      then show "runs (ret (trim_front (Suc n) x, out')) s' ?Q"
        using trim_front_holds [OF h rs lt] c(2) s'(1,4) st(2) by (simp add: holds_is_buf ac_simps)
    qed
    then show ?thesis using False fr by simp
  qed
qed auto

lemma cutn_buf_runs:
  assumes "is_buf s x" and "is_buf s out" and "io_ok X s (ptrs (brefs x) + ptrs (brefs out) + F)"
    and "fits out (min n (length (btext s x)))"
  shows "runs (cutn_buf n x out) s (\<lambda>(x', out', k) s'. is_buf s' x' \<and> is_buf s' out' \<and>
       io_ok X s' (ptrs (brefs x') + ptrs (brefs out') + F) \<and> btext s' x' = drop n (btext s x) \<and>
       btext s' out' = btext s out @ take n (btext s x) \<and> k = min n (length (btext s x)) \<and> still F s s')"
proof -
  have x: "buf_ok x" "length (btext s x) = blen (brefs x)" using assms(1) by (simp_all add: is_buf_def length_content)
  let ?n = "min n (blen (brefs x))"
  have sp: "drop ?n (btext s x) = drop n (btext s x)" "take ?n (btext s x) = take n (btext s x)"
    using x(2) by (auto simp: min_def)
  have "runs (cutn_loop (length (brefs x)) ?n x out) s (\<lambda>(x', out') s'. is_buf s' x' \<and> is_buf s' out' \<and>
       io_ok X s' (ptrs (brefs x') + ptrs (brefs out') + F) \<and> btext s' x' = drop ?n (btext s x) \<and>
       btext s' out' = btext s out @ take ?n (btext s x) \<and> still F s s')"
    by (rule cutn_loop_runs [OF assms(1-3)]) (use assms(4) x(2) in simp_all)
  then show ?thesis
    using x(2) sp by (auto simp: cutn_buf_def IOBuf_length_ok [OF x(1)] ref_num_ok [OF x(1)] runs_bindp_iff elim!: runs_mono)
qed

end
