(* ===== verification/IOBuf_Append.thy ===== *)
theory IOBuf_Append
  imports IOBuf_Bytes
begin

text \<open>
  Appending to a buffer: another buffer's references, shared or moved; bytes copied into the
  thread's blocks; memory of the caller. Copies and assignments.
\<close>

section \<open>References of another buffer\<close>

lemma push_refs_runs:
  "is_buf s y \<Longrightarrow> list_all ref_fmt rs \<Longrightarrow> list_all (ref_in s) rs \<Longrightarrow> fits y (blen rs) \<Longrightarrow>
   io_ok X s ((if mv then ptrs rs else {#}) + ptrs (brefs y) + R) \<Longrightarrow> mv \<or> ptrs rs \<subseteq># R \<Longrightarrow>
     runs (push_refs mv rs y) s (\<lambda>y' s'. is_buf s' y' \<and> io_ok X s' (ptrs (brefs y') + R) \<and>
       btext s' y' = btext s y @ content s rs \<and> still R s s')"
proof (induction rs arbitrary: s y)
  case (Cons r rs)
  have r: "ref_fmt r" "ref_in s r" "list_all (ref_in s) rs" using Cons(3,4) by auto
  let ?p = "the (r_block r)" and ?R = "(if mv then ptrs rs else {#}) + R"
  have fits: "fits y (r_length r)" "fits y (r_length r + blen rs)"
    using Cons(5) fits_mono [OF Cons(5), of "r_length r"] by simp_all
  have io: "io_ok X s ((if mv then {#?p#} else {#}) + ptrs (brefs y) + ?R)"
    using Cons(6) by (cases mv) (simp_all add: ac_simps)
  have mem: "mv \<or> ?p \<in># ptrs (brefs y) + ?R" using Cons(7) by (auto simp: insert_subset_eq_iff)
  have sub: "mv \<or> ptrs rs \<subseteq># R" using Cons(7) by (auto dest!: mset_subset_eq_insertD intro: subset_mset.less_imp_le)
  from push_gen [OF Cons(2) r(1,2) fits(1) io mem] show ?case
    unfolding push_refs.simps
  proof (rule runs_then, elim conjE)
    fix y' s'
    assume b: "is_buf s' y'" "brefs y' = push_list (brefs y) r" "io_ok X s' (ptrs (brefs y') + ?R)"
      and c: "btext s' y' = btext s y @ rbytes s r"
      and st: "still ((if mv then {#?p#} else {#}) + ptrs (brefs y) + ?R) s s'"
    have st1: "still ?R s s'" by (rule still_weaken(1) [OF st])
    have st2: "still R s s'" by (rule still_weaken(1) [OF st1])
    have "ptrs rs \<subseteq># ?R" using sub by (cases mv) auto
    note cg = content_grows [OF still_grows [OF st1] this r(3)]
    have "fits y' (blen rs)" using Cons(2) by (intro fits_push [OF fits(2) b(2) r(1)]) (simp add: is_buf_def)
    moreover have "io_ok X s' ((if mv then ptrs rs else {#}) + ptrs (brefs y') + R)"
      using b(3) by (simp only: ac_simps)
    moreover have "list_all ref_fmt rs" using Cons(3) by simp
    ultimately have "runs (push_refs mv rs y') s' (\<lambda>y'' s''. is_buf s'' y'' \<and> io_ok X s'' (ptrs (brefs y'') + R) \<and>
       btext s'' y'' = btext s' y' @ content s' rs \<and> still R s' s'')"
      by (intro Cons(1) b(1) cg(1) sub)
    then show "runs (push_refs mv rs y') s' (\<lambda>y'' s''. is_buf s'' y'' \<and> io_ok X s'' (ptrs (brefs y'') + R) \<and>
       btext s'' y'' = btext s y @ content s (r # rs) \<and> still R s s'')"
      by (rule runs_mono) (simp add: c cg(2) still_trans [OF st2])
  qed
qed (cases mv; simp)

lemma append_buf_runs:
  assumes "is_buf s other" and "is_buf s x" and "io_ok X s (ptrs (brefs x) + (ptrs (brefs other) + F))"
    and "fits x (length (btext s other))"
  shows "runs (append_buf other x) s (\<lambda>x' s'. is_buf s' x' \<and> is_buf s' other \<and>
     io_ok X s' (ptrs (brefs x') + (ptrs (brefs other) + F)) \<and> btext s' other = btext s other \<and>
     btext s' x' = btext s x @ btext s other \<and> still F s s')"
proof -
  let ?rs = "brefs other"
  have o: "buf_ok other" "list_all (ref_in s) ?rs" "list_all ref_fmt ?rs" "length (btext s other) = blen ?rs"
    using assms(1) by (auto simp: is_buf_def buf_ok_def length_content)
  have "runs (push_refs False ?rs x) s (\<lambda>x' s'. is_buf s' x' \<and> io_ok X s' (ptrs (brefs x') + (ptrs ?rs + F)) \<and>
       btext s' x' = btext s x @ btext s other \<and> still (ptrs ?rs + F) s s')"
    using push_refs_runs [OF assms(2) o(3,2), of X False "ptrs ?rs + F"] assms(3,4) o(4) by simp
  then show ?thesis
    unfolding append_buf_def ref_num_ok [OF o(1)] refs_from_ok [OF o(1)] bindp_ret
    using is_buf_grows [OF assms(1) still_grows]
    by (auto simp: refs_from_ok [OF o(1)] dest: still_weaken(1) elim!: runs_mono)
qed

lemma append_movable_runs:
  assumes "is_buf s other" and "is_buf s x" and "io_ok X s (ptrs (brefs other) + ptrs (brefs x) + F)"
    and "fits x (length (btext s other))"
  shows "runs (append_movable other x) s (\<lambda>(x', other') s'. is_buf s' x' \<and> is_buf s' other' \<and>
     io_ok X s' (ptrs (brefs other') + ptrs (brefs x') + F) \<and> btext s' other' = [] \<and>
     btext s' x' = btext s x @ btext s other \<and> still F s s')"
proof -
  let ?rs = "brefs other"
  have o: "buf_ok other" "list_all (ref_in s) ?rs" "list_all ref_fmt ?rs" "length (btext s other) = blen ?rs" "buf_ok x"
    using assms(1,2) by (auto simp: is_buf_def buf_ok_def length_content)
  have "runs (push_refs True ?rs x) s (\<lambda>x' s'. is_buf s' x' \<and> io_ok X s' (ptrs (brefs x') + F) \<and>
       btext s' x' = btext s x @ btext s other \<and> still F s s')"
    using push_refs_runs [OF assms(2) o(3,2), of X True F] assms(3,4) o(4) by simp
  then show ?thesis
    using assms(1-3)
    by (auto simp: append_movable_def IOBuf_empty_ok [OF o(5)] IOBuf_swap_def ref_num_ok [OF o(1)]
        refs_from_ok [OF o(1)] runs_bindp_iff is_buf_def IOBuf_new_ok ac_simps elim!: runs_mono)
qed

text \<open>Copying and assigning share the blocks.\<close>

lemma copy_runs:
  assumes "is_buf s x" and "io_ok X s (ptrs (brefs x) + F)"
  shows "runs (IOBuf_copy x) s (\<lambda>c s'. is_buf s' c \<and> is_buf s' x \<and> brefs c = brefs x \<and>
     io_ok X s' (ptrs (brefs c) + (ptrs (brefs x) + F)) \<and> btext s' c = btext s x \<and> btext s' x = btext s x \<and>
     still (ptrs (brefs x) + F) s s')"
proof -
  have x: "buf_ok x" "list_all ref_fmt (brefs x)" using assms(1) by (auto simp: is_buf_def buf_ok_def)
  let ?T = "ptrs (brefs x) + F + mset (block_head s)"
  obtain c where c: "buf_ok c" "brefs c = brefs x" "IOBuf_copy x = bindp (inc_all (brefs x)) (\<lambda>_. ret c)"
    by (rule IOBuf_copy_ok [OF x(1)])
  have "heap_ok X s ?T" using assms(2) by (simp add: io_ok_def)
  then have "runs (inc_all (brefs x)) s (\<lambda>_ s'. heap_ok X s' (ptrs (brefs x) + ?T) \<and> still ?T s s')"
    by (rule inc_all_ok) (use x(2) in auto)
  then show ?thesis
    unfolding c(3)
  proof (rule runs_then)
    fix u s' assume s': "heap_ok X s' (ptrs (brefs x) + ?T) \<and> still ?T s s'"
    then have st: "still (ptrs (brefs x) + F) s s'" by (auto dest: still_weaken(2))
    have b: "is_buf s' x" "btext s' x = btext s x" using is_buf_grows [OF assms(1) still_grows [OF st]] by auto
    moreover have "io_ok X s' (ptrs (brefs c) + (ptrs (brefs x) + F))"
      using s' assms(2) st c(2) by (auto simp: ac_simps intro: io_ok_step)
    ultimately show "runs (ret c) s' (\<lambda>c s'. is_buf s' c \<and> is_buf s' x \<and> brefs c = brefs x \<and>
       io_ok X s' (ptrs (brefs c) + (ptrs (brefs x) + F)) \<and> btext s' c = btext s x \<and> btext s' x = btext s x \<and>
       still (ptrs (brefs x) + F) s s')"
      using c st by (simp add: is_buf_def)
  qed
qed

lemma assign_runs:
  assumes "is_buf s rhs" and "is_buf s x" and "io_ok X s (ptrs (brefs x) + (ptrs (brefs rhs) + F))"
  shows "runs (IOBuf_assign rhs x) s (\<lambda>x' s'. is_buf s' x' \<and> is_buf s' rhs \<and>
     io_ok X s' (ptrs (brefs x') + (ptrs (brefs rhs) + F)) \<and> btext s' x' = btext s rhs \<and>
     btext s' rhs = btext s rhs \<and> still F s s')"
proof -
  have b: "buf_ok rhs" "list_all ref_fmt (brefs rhs)" "buf_ok x" "list_all ref_fmt (brefs x)"
    using assms(1,2) by (auto simp: is_buf_def buf_ok_def)
  let ?T = "ptrs (brefs rhs) + F + mset (block_head s)"
  obtain c where c: "buf_ok c" "brefs c = brefs rhs"
      "IOBuf_assign rhs x = bindp (dec_refs (brefs x)) (\<lambda>_. bindp (inc_all (brefs rhs)) (\<lambda>_. ret c))"
    by (rule IOBuf_assign_ok [OF b(1,3)])
  have "heap_ok X s (ptrs (brefs x) + ?T)" using assms(3) by (simp add: io_ok_def ac_simps)
  then have "runs (dec_refs (brefs x)) s (\<lambda>_ s'. heap_ok X s' ?T \<and> still ?T s s')"
    by (rule dec_refs_ok) (rule b(4))
  then show ?thesis
    unfolding c(3)
  proof (rule runs_then)
    fix u s' assume s': "heap_ok X s' ?T \<and> still ?T s s'"
    have "runs (inc_all (brefs rhs)) s' (\<lambda>_ s''. heap_ok X s'' (ptrs (brefs rhs) + ?T) \<and> still ?T s' s'')"
      by (rule inc_all_ok) (use s' b(2) in auto)
    then show "runs (bindp (inc_all (brefs rhs)) (\<lambda>_. ret c)) s' (\<lambda>x' s'. is_buf s' x' \<and> is_buf s' rhs \<and>
       io_ok X s' (ptrs (brefs x') + (ptrs (brefs rhs) + F)) \<and> btext s' x' = btext s rhs \<and>
       btext s' rhs = btext s rhs \<and> still F s s')"
    proof (rule runs_then)
      fix v t assume t: "heap_ok X t (ptrs (brefs rhs) + ?T) \<and> still ?T s' t"
      have "still ?T s t" using s' t by (auto intro: still_trans)
      then have st: "still (ptrs (brefs rhs) + F) s t" by (rule still_weaken(2))
      have r: "is_buf t rhs" "btext t rhs = btext s rhs" using is_buf_grows [OF assms(1) still_grows [OF st]] by auto
      have "io_ok X t (ptrs (brefs rhs) + (ptrs (brefs rhs) + F))"
        using t assms(3) st by (auto simp: ac_simps intro!: io_ok_step [OF assms(3)])
      then show "runs (ret c) t (\<lambda>x' s'. is_buf s' x' \<and> is_buf s' rhs \<and>
         io_ok X s' (ptrs (brefs x') + (ptrs (brefs rhs) + F)) \<and> btext s' x' = btext s rhs \<and>
         btext s' rhs = btext s rhs \<and> still F s s')"
        using c r still_weaken(1) [OF st] by (simp add: is_buf_def)
    qed
  qed
qed

section \<open>The thread's blocks\<close>

lemma heap_ok_update:
  assumes "heap_ok X s T" and "heap s p = Some b" and "block_ok p b'" and "nshared b' = nshared b"
  shows "heap_ok X (s\<lparr>heap := (heap s)(p := Some b')\<rparr>) T"
proof -
  have "pool_blocks (s\<lparr>heap := (heap s)(p := Some b')\<rparr>) = pool_blocks s"
    using assms(2) by (auto simp: pool_blocks_def)
  then show ?thesis
    using assms heap_okD [OF assms(1)] unfolding heap_ok_def by auto
qed

text \<open>A new block comes from the allocator; nobody else has it.\<close>

definition fresh_block :: "addr set \<Rightarrow> nat \<Rightarrow> bptr multiset \<Rightarrow> io \<Rightarrow> bptr option \<Rightarrow> io \<Rightarrow> bool" where
  "fresh_block X sz T s r s' = (still T s s' \<and> (case r of None \<Rightarrow> heap_ok X s' T
     | Some p \<Rightarrow> p \<notin># T \<and> heap_ok X s' (add_mset p T) \<and>
         (\<exists>b. heap s' p = Some b \<and> bsize b = 0 \<and> bcap b = sz - sizeof_Block \<and> \<not> user_data b)))"

lemma create_block_ok:
  assumes "heap_ok X s T" and "sizeof_Block < sz" and "sz \<le> 2 ^ 31"
  shows "runs (create_block sz) s (fresh_block X sz T s)"
proof -
  let ?e = "io_env s (io_calls s) (io_pool s)" and ?L = "pool_blocks s \<union> X"
  obtain r q where q: "BlockAllocate (io_self s) ?e sz (io_pool s) = Inr (r, q)"
      "case r of None \<Rightarrow> pool_ok q ?L | Some a \<Rightarrow> a \<notin> ?L \<and> pool_ok q (insert a ?L)"
    using pool_alloc.alloc_new [OF heap_okD(5,7) [OF assms(1)], of "io_self s" "io_calls s" sz]
    by (auto simp: runs_iff split: option.splits)
  have cap: "nat ((int sz - int sizeof_Block) mod 2 ^ 32) = sz - sizeof_Block"
    using assms(2,3) by (simp add: nat_mod_as_int sizeof_Block_def)
  show ?thesis
  proof (cases r)
    case None
    have "pool_blocks (s\<lparr>io_pool := q, io_calls := io_calls s + 1\<rparr>) = pool_blocks s" by (simp add: pool_blocks_def)
    then have "heap_ok X (s\<lparr>io_pool := q, io_calls := io_calls s + 1\<rparr>) T"
      using assms(1) q(2) None by (simp add: heap_ok_def)
    then show ?thesis
      using q(1) None assms(3) by (simp add: create_block_def runs_def Let_def fresh_block_def still_def)
  next
    case (Some a)
    let ?b = "new_Block (a + sizeof_Block) (sz - sizeof_Block) (io_junk s (io_calls s))"
    let ?s = "s\<lparr>io_pool := q, io_calls := io_calls s + 1, heap := (heap s)(InPool a := Some ?b)\<rparr>"
    have a: "a \<notin> ?L" "pool_ok q (insert a ?L)" using q(2) Some by auto
    then have new: "heap s (InPool a) = None" "InPool a \<notin># T"
      using heap_okD(4) [OF assms(1), of "InPool a"] by (auto simp: pool_blocks_def)
    have pb: "pool_blocks ?s = insert a (pool_blocks s)" by (auto simp: pool_blocks_def)
    have bo: "block_ok (InPool a) ?b" "nshared ?b = 1" "\<not> user_data ?b"
      using assms(3) by (simp_all add: block_ok_def new_Block_def)
    have "heap_ok X ?s (add_mset (InPool a) T)"
      using assms(1) a new bo heap_okD(6) [OF assms(1)] unfolding heap_ok_def pb
      by (auto simp: not_in_iff)
    moreover have "still T s ?s" using new by (auto simp: still_def)
    ultimately show ?thesis
      using q(1) Some assms(3) cap new(2)
      by (simp add: create_block_def runs_def Let_def fresh_block_def new_Block_def)
  qed
qed

definition chain_left :: "addr set \<Rightarrow> bptr multiset \<Rightarrow> bptr list \<Rightarrow> io \<Rightarrow> bptr list \<Rightarrow> io \<Rightarrow> bool" where
  "chain_left X R l s l' s' = (heap_ok X s' (mset l' + R) \<and> grows (mset l' + R) s s' \<and>
     block_head s' = block_head s \<and> mset l' \<subseteq># mset l \<and>
     num_blocks s' - int (length l') = num_blocks s - int (length l) \<and>
     (case l' of [] \<Rightarrow> True | p # _ \<Rightarrow> \<exists>b. heap s' p = Some b \<and> bsize b < bcap b))"

lemma drop_full_ok:
  "heap_ok X s (mset l + R) \<Longrightarrow> runs (drop_full l) s (chain_left X R l s)"
proof (induction l arbitrary: s)
  case (Cons p ps)
  obtain b where b: "heap s p = Some b" using heap_okD(4) [OF Cons(2), of p] by auto
  have "runs (dec_ref p) s (\<lambda>_ s'. heap_ok X s' (mset ps + R) \<and> still (mset ps + R) s s')"
    using Cons(2) by (intro dec_ref_ok) simp
  then have "runs (bindp (dec_ref p) (\<lambda>_. bindp (upd (\<lambda>s. s\<lparr>num_blocks := num_blocks s - 1\<rparr>)) (\<lambda>_. drop_full ps))) s
      (chain_left X R (p # ps) s)"
  proof (rule runs_then, elim conjE)
    fix u s' assume h: "heap_ok X s' (mset ps + R)" and st: "still (mset ps + R) s s'"
    let ?s = "s'\<lparr>num_blocks := num_blocks s' - 1\<rparr>"
    have "heap_ok X ?s (mset ps + R)" using h by (simp add: heap_ok_def pool_blocks_def)
    then have "runs (drop_full ps) ?s (chain_left X R (p # ps) s)"
    proof (rule runs_mono [OF Cons(1)])
      fix l' s'' assume c: "chain_left X R ps ?s l' s''"
      then have sub: "mset l' \<subseteq># mset ps" and "grows (mset l' + R) s' s''"
        by (auto simp: chain_left_def grows_def)
      moreover have "grows (mset l' + R) s s'"
        using sub by (intro grows_mono [OF still_grows [OF st]]) simp
      ultimately have "grows (mset l' + R) s s''" by (blast intro: grows_trans)
      moreover have "mset l' \<subseteq># mset (p # ps)" using sub by (simp add: subset_mset.trans [OF sub])
      ultimately show "chain_left X R (p # ps) s l' s''"
        using c st by (auto simp: chain_left_def still_def)
    qed
    then show "runs (bindp (upd (\<lambda>s. s\<lparr>num_blocks := num_blocks s - 1\<rparr>)) (\<lambda>_. drop_full ps)) s' (chain_left X R (p # ps) s)"
      by (simp add: runs_bindp_iff)
  qed
  moreover have "chain_left X R (p # ps) s (p # ps) s" if "\<not> full b"
    using that b Cons(2) by (simp add: chain_left_def full_def)
  ultimately show ?case using b by (simp add: runs_bindp_iff runs_get_block)
qed (simp add: chain_left_def)

text \<open>The shared block has room, and the thread's chain keeps its reference.\<close>

definition shared :: "addr set \<Rightarrow> bptr multiset \<Rightarrow> io \<Rightarrow> bptr option \<Rightarrow> io \<Rightarrow> bool" where
  "shared X R s r s' = (io_ok X s' R \<and> grows R s s' \<and>
     (case r of None \<Rightarrow> True
      | Some p \<Rightarrow> p \<in> set (block_head s') \<and> (\<exists>b. heap s' p = Some b \<and> bsize b < bcap b)))"

lemma io_ok_chain: "heap_ok X s (mset l + R) \<Longrightarrow> n = int (length l) \<Longrightarrow> io_ok X (s\<lparr>block_head := l, num_blocks := n\<rparr>) R"
  by (simp add: io_ok_def heap_ok_def pool_blocks_def add.commute)

lemma share_chain_ok:
  assumes "heap_ok X s (mset l + R)"
  shows "runs (case l of [] \<Rightarrow> bindp (upd (\<lambda>s. s\<lparr>registered := True\<rparr>)) (\<lambda>_. ret []) | p # ps \<Rightarrow> drop_full (p # ps)) s
    (chain_left X R l s)"
proof (cases l)
  case Nil
  then have "heap_ok X (s\<lparr>registered := True\<rparr>) R" using assms by (simp add: heap_ok_def pool_blocks_def)
  then show ?thesis using Nil by (simp add: runs_bindp_iff chain_left_def grows_def)
next
  case (Cons p ps)
  then show ?thesis using drop_full_ok [OF assms] by simp
qed

lemma share_new_ok:
  assumes "heap_ok X s R" and "num_blocks s = 0"
  shows "runs (bindp (create_block DEFAULT_BLOCK_SIZE) (\<lambda>r. case r of
            None \<Rightarrow> bindp (upd (\<lambda>s. s\<lparr>block_head := []\<rparr>)) (\<lambda>_. ret None)
          | Some p \<Rightarrow> bindp (upd (\<lambda>s. s\<lparr>block_head := [p], num_blocks := num_blocks s + 1\<rparr>))
              (\<lambda>_. ret (Some p)))) s (shared X R s)"
proof (rule runs_then)
  show "runs (create_block DEFAULT_BLOCK_SIZE) s (fresh_block X DEFAULT_BLOCK_SIZE R s)"
    by (rule create_block_ok [OF assms(1)]) (simp_all add: DEFAULT_BLOCK_SIZE_def sizeof_Block_def)
next
  fix r s' assume f: "fresh_block X DEFAULT_BLOCK_SIZE R s r s'"
  then have g: "grows R s s'" and n: "num_blocks s' = 0"
    using assms(2) by (auto simp: fresh_block_def still_grows) (simp add: still_def)
  show "runs (case r of None \<Rightarrow> bindp (upd (\<lambda>s. s\<lparr>block_head := []\<rparr>)) (\<lambda>_. ret None)
      | Some p \<Rightarrow> bindp (upd (\<lambda>s. s\<lparr>block_head := [p], num_blocks := num_blocks s + 1\<rparr>))
          (\<lambda>_. ret (Some p))) s' (shared X R s)"
  proof (cases r)
    case None
    have "io_ok X (s'\<lparr>block_head := []\<rparr>) R"
      using f n None by (simp add: fresh_block_def io_ok_def heap_ok_def pool_blocks_def)
    then show ?thesis using None g by (simp add: runs_bindp_iff shared_def grows_def)
  next
    case (Some p)
    have "io_ok X (s'\<lparr>block_head := [p], num_blocks := num_blocks s' + 1\<rparr>) R"
      using f n Some by (intro io_ok_chain) (simp_all add: fresh_block_def)
    moreover have "\<exists>b. heap s' p = Some b \<and> bsize b < bcap b"
      using f Some by (auto simp: fresh_block_def DEFAULT_BLOCK_SIZE_def sizeof_Block_def)
    ultimately show ?thesis using Some g by (simp add: runs_bindp_iff shared_def grows_def)
  qed
qed

lemma share_tls_block_ok:
  assumes "io_ok X s R"
  shows "runs share_tls_block s (shared X R s)"
proof -
  let ?l = "block_head s"
  let ?m = "case ?l of [] \<Rightarrow> bindp (upd (\<lambda>s. s\<lparr>registered := True\<rparr>)) (\<lambda>_. ret []) | p # ps \<Rightarrow> drop_full (p # ps)"
  let ?k = "\<lambda>l. case l of p # ps \<Rightarrow> bindp (upd (\<lambda>s. s\<lparr>block_head := l\<rparr>)) (\<lambda>_. ret (Some p))
        | [] \<Rightarrow> bindp (create_block DEFAULT_BLOCK_SIZE) (\<lambda>r. case r of
            None \<Rightarrow> bindp (upd (\<lambda>s. s\<lparr>block_head := []\<rparr>)) (\<lambda>_. ret None)
          | Some p \<Rightarrow> bindp (upd (\<lambda>s. s\<lparr>block_head := [p], num_blocks := num_blocks s + 1\<rparr>))
              (\<lambda>_. ret (Some p)))"
  have h: "heap_ok X s (mset ?l + R)" "num_blocks s = int (length ?l)"
    using assms by (simp_all add: io_ok_def add.commute)
  have "runs (bindp ?m ?k) s (shared X R s)"
  proof (rule runs_then [OF share_chain_ok [OF h(1)]])
    fix l s' assume c: "chain_left X R ?l s l s'"
    have n: "num_blocks s' = int (length l)" and hR: "heap_ok X s' (mset l + R)"
      and g: "grows R s s'" using c h(2) grows_weaken(1) [of "mset l" R s s'] unfolding chain_left_def by auto
    show "runs (?k l) s' (shared X R s)"
    proof (cases l)
      case (Cons p ps)
      have "io_ok X (s'\<lparr>block_head := l\<rparr>) R" using hR n by (simp add: io_ok_def heap_ok_def pool_blocks_def add.commute)
      then show ?thesis using Cons c g by (simp add: chain_left_def runs_bindp_iff shared_def grows_def)
    next
      case Nil
      have "heap_ok X s' R" "num_blocks s' = 0" using hR n Nil by simp_all
      note run = share_new_ok [OF this]
      show ?thesis unfolding Nil list.case
        by (rule runs_mono [OF run]) (auto simp: shared_def intro: grows_trans [OF g])
    qed
  qed
  then show ?thesis by (simp add: share_tls_block_def runs_def)
qed

end
