(* ===== verification/IOBuf_Write.thy ===== *)
theory IOBuf_Write
  imports IOBuf_Append
begin

text \<open>
  Bytes copied into the thread's blocks: \<open>push_back\<close>, \<open>append\<close>, \<open>resize\<close>, and the caller's memory
  appended as a block of its own.
\<close>

lemma heap_ok_grows_update:
  assumes "heap_ok X s T" and "heap s p = Some b" and "bsize b \<le> bsize b'" and "bcap b' = bcap b" and "bsize b' \<le> bcap b"
    and "user_data b' = user_data b" and "nshared b' = nshared b" and "\<forall>k < bsize b. bytes b' k = bytes b k"
  shows "heap_ok X (s\<lparr>heap := (heap s)(p := Some b')\<rparr>) T" and "grows T' s (s\<lparr>heap := (heap s)(p := Some b')\<rparr>)"
proof -
  have "block_ok p b'" using heap_okD(1) [OF assms(1,2)] assms by (simp add: block_ok_def)
  then show "heap_ok X (s\<lparr>heap := (heap s)(p := Some b')\<rparr>) T"
    using heap_ok_update [OF assms(1,2)] assms(7) by simp
  show "grows T' s (s\<lparr>heap := (heap s)(p := Some b')\<rparr>)"
    using assms by (auto simp: grows_def)
qed

text \<open>One round of appending leaves the bytes behind the buffer's and takes at least one.\<close>

definition appended :: "addr set \<Rightarrow> bptr multiset \<Rightarrow> io \<Rightarrow> IOBuf \<Rightarrow> byte list \<Rightarrow> io \<Rightarrow> IOBuf \<Rightarrow> bool" where
  "appended X F s x bs s' x' = (is_buf s' x' \<and> io_ok X s' (ptrs (brefs x') + F) \<and> grows F s s' \<and>
     btext s' x' = btext s x @ bs \<and> (\<forall>n. fits x (length bs + n) \<longrightarrow> fits x' n))"

lemma appendedI:
  assumes "is_buf s x" and "heap_ok X s' (ptrs (brefs x') + F + mset (block_head s))"
    and "block_head s' = block_head s" and "num_blocks s' = int (length (block_head s))"
    and "grows (ptrs (brefs x) + (F + mset (block_head s))) s s'"
    and "buf_ok x'" and "brefs x' = push_list (brefs x) r" and "ref_fmt r" and "ref_in s' r" and "rbytes s' r = bs"
    and "r_length r = length bs"
  shows "appended X F s x bs s' x'"
proof -
  have x: "buf_ok x" "list_all (ref_in s) (brefs x)" "list_all ref_fmt (brefs x)"
    using assms(1) by (auto simp: is_buf_def buf_ok_def)
  have "ptrs (brefs x) \<subseteq># ptrs (brefs x) + (F + mset (block_head s))" by simp
  note cg = content_grows [OF assms(5) this x(2)]
  note pc = push_content [OF x(3) assms(8) cg(1) assms(9)]
  have "grows F s s'" using assms(5) by (rule grows_mono) simp
  moreover have "fits x' n" if "fits x (length bs + n)" for n
    using fits_push [OF _ assms(7,8) x(1), of n] that assms(11) by simp
  ultimately show ?thesis
    using assms pc cg by (simp add: appended_def is_buf_def io_ok_def)
qed

lemma append_at_ok:
  assumes "is_buf s x" and "io_ok X s (ptrs (brefs x) + F)" and "p \<in> set (block_head s)" and "heap s p = Some b"
    and "bs \<noteq> []" and "bsize b + length bs \<le> bcap b" and "fits x (length bs)"
    and k: "\<And>x' s'. appended X F s x bs s' x' \<Longrightarrow> runs (k x') s' Q"
  shows "runs (bindp (write_block p (bsize b) bs) (\<lambda>_.
      bindp (push_back_ref \<lparr>r_offset = bsize b, r_length = length bs, r_block = Some p\<rparr> x) (\<lambda>x'.
        bindp (grow_block p (length bs)) (\<lambda>_. k x')))) s Q"
proof -
  let ?C = "mset (block_head s)" and ?r = "\<lparr>r_offset = bsize b, r_length = length bs, r_block = Some p\<rparr>"
  let ?b1 = "b\<lparr>bytes := (\<lambda>k. if bsize b \<le> k \<and> k < bsize b + length bs then bs ! (k - bsize b) else bytes b k)\<rparr>"
  let ?s1 = "s\<lparr>heap := (heap s)(p := Some ?b1)\<rparr>"
  have h: "heap_ok X s (ptrs (brefs x) + (F + ?C))" using assms(2) by (simp add: io_ok_def ac_simps)
  have b: "bsize b \<le> bcap b" "bcap b \<le> 2 ^ 31" using heap_okD(1) [OF h assms(4)] by (simp_all add: block_ok_def)
  have h1: "heap_ok X ?s1 (ptrs (brefs x) + (F + ?C))" and g1: "grows (ptrs (brefs x) + (F + ?C)) s ?s1"
    using b by (simp_all add: heap_ok_grows_update [OF h assms(4)])
  have r: "ref_fmt ?r" using assms(5,6) b by (simp add: ref_fmt_def)
  have x: "buf_ok x" using assms(1) by (simp add: is_buf_def)
  have "runs (push_ref False ?r x) ?s1 (\<lambda>x' s'. buf_ok x' \<and> brefs x' = push_list (brefs x) ?r \<and>
     heap_ok X s' (ptrs (brefs x') + (F + ?C)) \<and> still (ptrs (brefs x) + (F + ?C)) ?s1 s')"
    using push_ref_runs [OF x r, of X ?s1 False "F + ?C"] h1 assms(3,7) by simp
  then have "runs (bindp (push_ref False ?r x) (\<lambda>x'. bindp (grow_block p (length bs)) (\<lambda>_. k x'))) ?s1 Q"
  proof (rule runs_then, elim conjE)
    fix x' s2
    assume x': "buf_ok x'" "brefs x' = push_list (brefs x) ?r" and h2: "heap_ok X s2 (ptrs (brefs x') + (F + ?C))"
      and st: "still (ptrs (brefs x) + (F + ?C)) ?s1 s2"
    obtain n where b2: "heap s2 p = Some (?b1\<lparr>nshared := n\<rparr>)"
      using st assms(3) unfolding still_def by fastforce
    let ?b3 = "?b1\<lparr>nshared := n, bsize := bsize b + length bs\<rparr>"
    let ?s3 = "s2\<lparr>heap := (heap s2)(p := Some ?b3)\<rparr>"
    have h3: "heap_ok X ?s3 (ptrs (brefs x') + (F + ?C))" "grows (ptrs (brefs x) + (F + ?C)) s2 ?s3"
      using assms(6) by (simp_all add: heap_ok_grows_update [OF h2 b2])
    have "appended X F s x bs ?s3 x'"
    proof (rule appendedI [OF assms(1) _ _ _ _ x' r])
      show "heap_ok X ?s3 (ptrs (brefs x') + F + ?C)" using h3(1) by (simp add: ac_simps)
      show "block_head ?s3 = block_head s" using st by (simp add: still_def)
      show "num_blocks ?s3 = int (length (block_head s))" using st assms(2) by (simp add: still_def io_ok_def)
      show "grows (ptrs (brefs x) + (F + ?C)) s ?s3"
        by (rule grows_trans [OF grows_trans [OF g1 still_grows [OF st]] h3(2)])
      show "rbytes ?s3 ?r = bs" by (auto simp: rbytes_def intro: nth_equalityI)
    qed (simp_all add: ref_in_def)
    moreover have "add32 (bsize b) (length bs) = bsize b + length bs" using assms(6) b by simp
    ultimately show "runs (bindp (grow_block p (length bs)) (\<lambda>_. k x')) s2 Q"
      using k b2 by (simp add: grow_block_def runs_bindp_iff runs_get_block)
  qed
  then show ?thesis
    using assms(4,6) by (simp add: write_block_def runs_bindp_iff runs_get_block)
qed

lemma left_space_ok: "bsize b < bcap b \<Longrightarrow> bcap b \<le> 2 ^ 31 \<Longrightarrow> left_space b = bcap b - bsize b"
  by (simp add: left_space_def of_nat_diff [symmetric] nat_mod_as_int del: of_nat_diff)

lemma shared_frame:
  assumes "shared X (ptrs (brefs x) + F) s r s1" and "is_buf s x"
  shows "is_buf s1 x" and "btext s1 x = btext s x" and "io_ok X s1 (ptrs (brefs x) + F)" and "grows F s s1"
    and "r = Some p \<Longrightarrow> p \<in> set (block_head s1)"
    and "r = Some p \<Longrightarrow> \<exists>b. heap s1 p = Some b \<and> bsize b < bcap b \<and> bcap b \<le> 2 ^ 31"
proof -
  have io: "io_ok X s1 (ptrs (brefs x) + F)" "grows (ptrs (brefs x) + F) s s1"
    using assms(1) by (simp_all add: shared_def)
  show "is_buf s1 x" "btext s1 x = btext s x" using is_buf_grows [OF assms(2) io(2)] by simp_all
  show "io_ok X s1 (ptrs (brefs x) + F)" by (fact io(1))
  show "grows F s s1" by (rule grows_weaken(1) [OF io(2)])
  show "r = Some p \<Longrightarrow> p \<in> set (block_head s1)" using assms(1) by (simp add: shared_def)
  show "r = Some p \<Longrightarrow> \<exists>b. heap s1 p = Some b \<and> bsize b < bcap b \<and> bcap b \<le> 2 ^ 31"
    using assms(1) heap_okD(1) [OF io(1) [unfolded io_ok_def, THEN conjunct1], of p]
    by (auto simp: shared_def block_ok_def)
qed

lemma appended_after:
  "appended X F s1 x bs s' x' \<Longrightarrow> grows F s s1 \<Longrightarrow> btext s1 x = btext s x \<Longrightarrow> appended X F s x bs s' x'"
  by (auto simp: appended_def intro: grows_trans)

lemma appended_none:
  "is_buf s1 x \<Longrightarrow> io_ok X s1 (ptrs (brefs x) + F) \<Longrightarrow> grows F s s1 \<Longrightarrow> btext s1 x = btext s x \<Longrightarrow> appended X F s x [] s1 x"
  by (simp add: appended_def)

lemma append_step_ok:
  assumes "is_buf s x" and "io_ok X s (ptrs (brefs x) + F)" and "bs \<noteq> []" and "fits x (length bs)"
  shows "runs (append_step bs x) s (\<lambda>(x', r) s'. case r of
     None \<Rightarrow> appended X F s x [] s' x'
   | Some n \<Rightarrow> 0 < n \<and> n \<le> length bs \<and> appended X F s x (take n bs) s' x')"
  unfolding append_step_def
proof (rule runs_then [OF share_tls_block_ok [OF assms(2)]])
  fix r s1 assume sh: "shared X (ptrs (brefs x) + F) s r s1"
  note fr = shared_frame [OF sh assms(1)]
  let ?Q = "\<lambda>(x', r) s'. case r of None \<Rightarrow> appended X F s x [] s' x'
     | Some n \<Rightarrow> 0 < n \<and> n \<le> length bs \<and> appended X F s x (take n bs) s' x'"
  show "runs (case r of None \<Rightarrow> ret (x, None)
   | Some p \<Rightarrow> bindp (get_block p) (\<lambda>b. let nc = min (length bs) (left_space b) in
       bindp (write_block p (bsize b) (take nc bs)) (\<lambda>_.
         bindp (push_back_ref \<lparr>r_offset = bsize b, r_length = nc, r_block = Some p\<rparr> x) (\<lambda>x'.
           bindp (grow_block p nc) (\<lambda>_. ret (x', Some nc)))))) s1 ?Q"
  proof (cases r)
    case None
    then show ?thesis using appended_none [OF fr(1,3,4,2)] by simp
  next
    case (Some p)
    obtain b where b: "heap s1 p = Some b" "bsize b < bcap b" "bcap b \<le> 2 ^ 31" using fr(6) [OF Some] by blast
    let ?n = "min (length bs) (left_space b)"
    have ls: "left_space b = bcap b - bsize b" by (rule left_space_ok [OF b(2,3)])
    have n: "0 < ?n" "length (take ?n bs) = ?n" using assms(3) ls b(2) by auto
    have pre: "take ?n bs \<noteq> []" "bsize b + length (take ?n bs) \<le> bcap b" "fits x (length (take ?n bs))"
      using n ls b(2) assms(3) fits_mono [OF assms(4), of ?n] by auto
    have "runs (bindp (write_block p (bsize b) (take ?n bs)) (\<lambda>_.
         bindp (push_back_ref \<lparr>r_offset = bsize b, r_length = length (take ?n bs), r_block = Some p\<rparr> x) (\<lambda>x'.
           bindp (grow_block p (length (take ?n bs))) (\<lambda>_. ret (x', Some ?n))))) s1 ?Q"
    proof (rule append_at_ok [OF fr(1,3) fr(5) [OF Some] b(1) pre])
      fix x' s' assume "appended X F s1 x (take ?n bs) s' x'"
      then show "runs (ret (x', Some ?n)) s' ?Q" using n(1) appended_after [OF _ fr(4,2)] by simp
    qed
    then show ?thesis using Some b(1) n(2) by (simp add: runs_bindp_iff runs_get_block Let_def)
  qed
qed

lemma appended_trans:
  "appended X F s x bs s' x' \<Longrightarrow> appended X F s' x' cs s'' x'' \<Longrightarrow> appended X F s x (bs @ cs) s'' x''"
  by (auto simp: appended_def ac_simps intro: grows_trans)

text \<open>The loop appends everything, or stops with -1 where the pool has no more blocks; the bytes
  appended until then stay. Its fuel is the number of bytes: each round takes one at least.\<close>

definition append_all :: "addr set \<Rightarrow> bptr multiset \<Rightarrow> io \<Rightarrow> IOBuf \<Rightarrow> byte list \<Rightarrow> IOBuf \<times> int \<Rightarrow> io \<Rightarrow> bool" where
  "append_all X F s x bs xe s' = (case xe of (x', e) \<Rightarrow>
     e = 0 \<and> appended X F s x bs s' x' \<or> e = -1 \<and> (\<exists>n < length bs. appended X F s x (take n bs) s' x'))"

lemma append_all_step:
  assumes "appended X F s x (take n bs) s' x'" and "n \<le> length bs" and "append_all X F s' x' (drop n bs) y s''"
  shows "append_all X F s x bs y s''"
proof -
  have "take n bs @ take m (drop n bs) = take (n + m) bs" for m by (simp add: take_add)
  moreover have "n + m < length bs" if "m < length bs - n" for m using that assms(2) by simp
  ultimately show ?thesis
    using assms(3) appended_trans [OF assms(1)] unfolding append_all_def
    by (auto split: prod.splits) (metis append_take_drop_id)+
qed

lemma append_loop_ok:
  "is_buf s x \<Longrightarrow> io_ok X s (ptrs (brefs x) + F) \<Longrightarrow> fits x (length bs) \<Longrightarrow> length bs \<le> fuel \<Longrightarrow>
     runs (append_loop fuel bs x) s (append_all X F s x bs)"
proof (induction fuel arbitrary: bs x s)
  case 0
  then show ?case by (simp add: append_all_def appended_def)
next
  case (Suc fuel)
  show ?case
  proof (cases bs)
    case Nil
    then show ?thesis using Suc by (simp add: append_all_def appended_def)
  next
    case (Cons b bs')
    have step: "runs (append_step bs x) s (\<lambda>(x', r) s'. case r of
       None \<Rightarrow> appended X F s x [] s' x'
     | Some n \<Rightarrow> 0 < n \<and> n \<le> length bs \<and> appended X F s x (take n bs) s' x')"
      using Suc Cons by (intro append_step_ok) auto
    have "runs (bindp (append_step bs x) (\<lambda>(x', r). case r of None \<Rightarrow> ret (x', -1)
        | Some nc \<Rightarrow> append_loop fuel (drop nc bs) x')) s (append_all X F s x bs)"
    proof (rule runs_then [OF step], clarify)
      fix x' r s'
      assume a: "case r of None \<Rightarrow> appended X F s x [] s' x'
        | Some n \<Rightarrow> 0 < n \<and> n \<le> length bs \<and> appended X F s x (take n bs) s' x'"
      show "runs (case r of None \<Rightarrow> ret (x', -1) | Some nc \<Rightarrow> append_loop fuel (drop nc bs) x') s' (append_all X F s x bs)"
      proof (cases r)
        case None
        then show ?thesis using a Cons by (auto simp: append_all_def intro!: exI [of _ 0])
      next
        case (Some n)
        then have n: "0 < n" "n \<le> length bs" "appended X F s x (take n bs) s' x'" using a by simp_all
        then have x': "is_buf s' x'" "io_ok X s' (ptrs (brefs x') + F)" "fits x' (length (drop n bs))" "length (drop n bs) \<le> fuel"
          using Suc(4,5) by (auto simp: appended_def)
        show ?thesis
          unfolding Some option.case
          by (rule runs_mono [OF Suc(1) [OF x']]) (rule append_all_step [OF n(3,2)])
      qed
    qed
    then show ?thesis unfolding Cons append_loop.simps .
  qed
qed

lemma push_back_ok:
  assumes "is_buf s x" and "io_ok X s (ptrs (brefs x) + F)" and "fits x 1"
  shows "runs (push_back c x) s (append_all X F s x [c])"
  unfolding push_back_def
proof (rule runs_then [OF share_tls_block_ok [OF assms(2)]])
  fix r s1 assume sh: "shared X (ptrs (brefs x) + F) s r s1"
  note fr = shared_frame [OF sh assms(1)]
  show "runs (case r of None \<Rightarrow> ret (x, -1)
   | Some p \<Rightarrow> bindp (get_block p) (\<lambda>b. bindp (write_block p (bsize b) [c]) (\<lambda>_.
       bindp (grow_block p 1) (\<lambda>_.
         bindp (push_back_ref \<lparr>r_offset = bsize b, r_length = 1, r_block = Some p\<rparr> x) (\<lambda>x'. ret (x', 0)))))) s1
     (append_all X F s x [c])"
  proof (cases r)
    case None
    then show ?thesis using appended_none [OF fr(1,3,4,2)] by (simp add: append_all_def)
  next
    case (Some p)
    obtain b where b: "heap s1 p = Some b" "bsize b < bcap b" "bcap b \<le> 2 ^ 31" using fr(6) [OF Some] by blast
    let ?b1 = "b\<lparr>bytes := (\<lambda>k. if bsize b \<le> k \<and> k < bsize b + length [c] then [c] ! (k - bsize b) else bytes b k)\<rparr>"
    let ?b2 = "?b1\<lparr>bsize := bsize b + 1\<rparr>" and ?r = "\<lparr>r_offset = bsize b, r_length = 1, r_block = Some p\<rparr>"
    let ?s2 = "s1\<lparr>heap := (heap s1)(p := Some ?b2)\<rparr>" and ?C = "mset (block_head s1)"
    have h: "heap_ok X s1 (ptrs (brefs x) + (F + ?C))" using fr(3) by (simp add: io_ok_def ac_simps)
    have g: "heap_ok X ?s2 (ptrs (brefs x) + (F + ?C))" "grows (ptrs (brefs x) + (F + ?C)) s1 ?s2"
      using b by (simp_all add: heap_ok_grows_update [OF h b(1)])
    have r: "ref_fmt ?r" using b by (simp add: ref_fmt_def)
    have x: "buf_ok x" using fr(1) by (simp add: is_buf_def)
    have "runs (push_ref False ?r x) ?s2 (\<lambda>x' s'. buf_ok x' \<and> brefs x' = push_list (brefs x) ?r \<and>
       heap_ok X s' (ptrs (brefs x') + (F + ?C)) \<and> still (ptrs (brefs x) + (F + ?C)) ?s2 s')"
      using push_ref_runs [OF x r, of X ?s2 False "F + ?C"] g(1) fr(5) [OF Some] assms(3) by simp
    then have "runs (bindp (push_back_ref ?r x) (\<lambda>x'. ret (x', 0))) ?s2 (append_all X F s x [c])"
    proof (rule runs_then, elim conjE)
      fix x' s3
      assume x': "buf_ok x'" "brefs x' = push_list (brefs x) ?r" and h3: "heap_ok X s3 (ptrs (brefs x') + (F + ?C))"
        and st: "still (ptrs (brefs x) + (F + ?C)) ?s2 s3"
      obtain n where b3: "heap s3 p = Some (?b2\<lparr>nshared := n\<rparr>)"
        using st fr(5) [OF Some] unfolding still_def by fastforce
      have "appended X F s1 x [c] s3 x'"
      proof (rule appendedI [OF fr(1) _ _ _ _ x' r])
        show "heap_ok X s3 (ptrs (brefs x') + F + ?C)" using h3 by (simp add: ac_simps)
        show "block_head s3 = block_head s1" using st by (simp add: still_def)
        show "num_blocks s3 = int (length (block_head s1))" using st fr(3) by (simp add: still_def io_ok_def)
        show "grows (ptrs (brefs x) + (F + ?C)) s1 s3" by (rule grows_trans [OF g(2) still_grows [OF st]])
        show "ref_in s3 ?r" "rbytes s3 ?r = [c]" using b3 by (simp_all add: ref_in_def rbytes_def)
      qed simp
      then show "runs (ret (x', 0)) s3 (append_all X F s x [c])"
        using appended_after [OF _ fr(4,2)] by (simp add: append_all_def)
    qed
    moreover have "add32 (bsize b) 1 = bsize b + 1" using b(2,3) by simp
    ultimately show ?thesis
      using Some b by (simp add: runs_bindp_iff runs_get_block write_block_def grow_block_def Let_def)
  qed
qed

lemma append_data_ok:
  assumes "is_buf s x" and "io_ok X s (ptrs (brefs x) + F)" and "fits x (length bs)"
  shows "runs (append_data (Some bs) x) s (append_all X F s x bs)"
proof (cases "length bs = 1")
  case True
  then obtain c where "bs = [c]" by (auto simp: length_Suc_conv)
  then show ?thesis using push_back_ok [OF assms(1,2), of c] assms(3) by (simp add: append_data_def)
next
  case False
  then show ?thesis using append_loop_ok [OF assms order_refl] by (simp add: append_data_def)
qed

lemma resize_ok:
  assumes "is_buf s x" and "io_ok X s (ptrs (brefs x) + F)" and "fits x (n - length (btext s x))"
  shows "runs (resize n c x) s (\<lambda>(x', e) s'. is_buf s' x' \<and> io_ok X s' (ptrs (brefs x') + F) \<and> grows F s s' \<and>
     (e = 0 \<and> btext s' x' = take n (btext s x) @ replicate (n - length (btext s x)) c \<or>
      e = -1 \<and> (\<exists>m < n. length (btext s x) \<le> m \<and> btext s' x' = btext s x @ replicate (m - length (btext s x)) c)))"
proof -
  have x: "buf_ok x" "length (btext s x) = blen (brefs x)" using assms(1) by (simp_all add: is_buf_def length_content)
  show ?thesis
  proof (cases "n < blen (brefs x)")
    case True
    have "holds X s x F" using assms by (simp add: holds_is_buf)
    note pop = pop_back_runs [OF this, of "blen (brefs x) - n"]
    then have "runs (pop_back (blen (brefs x) - n) x) s (\<lambda>(x', _) s'. is_buf s' x' \<and>
        io_ok X s' (ptrs (brefs x') + F) \<and> grows F s s' \<and> btext s' x' = take n (btext s x))"
      by (rule runs_mono) (use True x(2) in \<open>auto simp: holds_is_buf still_grows\<close>)
    then show ?thesis
      using True x by (auto simp: resize_def IOBuf_length_ok runs_bindp_iff split: prod.splits elim: runs_mono)
  next
    case False
    then have *: "take n (btext s x) = btext s x" using x(2) by simp
    let ?bs = "replicate (n - blen (brefs x)) c"
    have "runs (append_loop (n - blen (brefs x)) ?bs x) s (append_all X F s x ?bs)"
      by (rule append_loop_ok [OF assms(1,2)]) (use assms(3) x(2) in simp_all)
    then have "runs (append_loop (n - blen (brefs x)) ?bs x) s (\<lambda>(x', e) s'. is_buf s' x' \<and> io_ok X s' (ptrs (brefs x') + F) \<and> grows F s s' \<and>
     (e = 0 \<and> btext s' x' = take n (btext s x) @ replicate (n - length (btext s x)) c \<or>
      e = -1 \<and> (\<exists>m < n. length (btext s x) \<le> m \<and> btext s' x' = btext s x @ replicate (m - length (btext s x)) c)))"
      by (rule runs_mono) (use False x(2) * in \<open>auto simp: append_all_def appended_def intro!: exI [of _ "blen (brefs x) + _"]\<close>)
    then show ?thesis using False x by (simp add: resize_def IOBuf_length_ok runs_bindp_iff)
  qed
qed

section \<open>Memory of the caller\<close>

text \<open>\<open>malloc\<close> returns memory that no block occupies.\<close>

lemma append_user_data_ok:
  assumes "is_buf s x" and "io_ok X s (ptrs (brefs x) + F)" and "fits x (length bs)" and "bs \<noteq> []"
    and "heap s (InHeap a) = None"
  shows "runs (append_user_data_with_meta (Some a) d bs meta x) s (\<lambda>(x', e) s'. e = 0 \<and> is_buf s' x' \<and>
     io_ok X s' (ptrs (brefs x') + F) \<and> still F s s' \<and> btext s' x' = btext s x @ bs)"
proof -
  let ?b = "\<lparr>nshared = 1, user_data = True, bsize = length bs, bcap = length bs, data_meta = meta, data = d,
              bytes = (\<lambda>k. if k < length bs then bs ! k else 0)\<rparr>"
  let ?s = "s\<lparr>heap := (heap s)(InHeap a := Some ?b)\<rparr>" and ?r = "\<lparr>r_offset = 0, r_length = length bs, r_block = Some (InHeap a)\<rparr>"
  let ?T = "ptrs (brefs x) + F + mset (block_head s)"
  have h: "heap_ok X s ?T" and n: "num_blocks s = int (length (block_head s))" using assms(2) by (simp_all add: io_ok_def)
  have new: "InHeap a \<notin># ?T" using heap_okD(4) [OF h, of "InHeap a"] assms(5) by (auto simp del: union_iff)
  have len: "length bs < 2 ^ 31" using assms(3) by (simp add: fits_def)
  have "pool_blocks ?s = pool_blocks s" by (simp add: pool_blocks_def)
  moreover have "block_ok (InHeap a) ?b" using len by (simp add: block_ok_def)
  ultimately have "heap_ok X ?s (add_mset (InHeap a) ?T)"
    using h new heap_okD [OF h] unfolding heap_ok_def by (auto simp: not_in_iff)
  then have io: "io_ok X ?s ({#the (r_block ?r)#} + ptrs (brefs x) + F)" using n by (simp add: io_ok_def ac_simps)
  have st: "still ?T s ?s" using assms(5) by (auto simp: still_def)
  have g: "grows (ptrs (brefs x) + F) s ?s" by (rule grows_mono [OF still_grows [OF st]]) simp
  have x: "is_buf ?s x" "btext ?s x = btext s x" using is_buf_grows [OF assms(1) g] by simp_all
  have r: "ref_fmt ?r" "ref_in ?s ?r" "rbytes ?s ?r = bs"
    using assms(4) len by (auto simp: ref_fmt_def ref_in_def rbytes_def intro: nth_equalityI)
  have "runs (push_ref True ?r x) ?s (\<lambda>x' s'. is_buf s' x' \<and> io_ok X s' (ptrs (brefs x') + F) \<and> still F s s' \<and>
     btext s' x' = btext s x @ bs)"
  proof (rule runs_mono [OF push_gen [OF x(1) r(1,2), of X True F]], goal_cases)
    case (4 x' s')
    then have st': "still ({#the (r_block ?r)#} + ptrs (brefs x) + F) ?s s'" by simp
    have "still F s s'"
      by (rule still_trans [OF still_mono [OF st] still_weaken(1) [OF st']]) simp
    then show ?case using 4 r(3) x(2) by auto
  qed (use io assms(3) in simp_all)
  then show ?thesis
    using len assms(4) by (auto simp: append_user_data_with_meta_def runs_bindp_iff)
qed

section \<open>Comparison\<close>

text \<open>The bytes from a cursor on. A step of the loop takes the same number of bytes off both sides and
  leaves one reference at least behind.\<close>

fun cbytes :: "io \<Rightarrow> cursor \<Rightarrow> byte list" where
  "cbytes s (r, o', n) = drop o' (rbytes s r)"

fun cur_ok :: "io \<Rightarrow> cursor \<Rightarrow> bool" where
  "cur_ok s (r, o', n) = (ref_fmt r \<and> ref_in s r \<and> 0 < n \<and> o' + n = r_length r)"

lemma cbytes_length: "cur_ok s k \<Longrightarrow> length (cbytes s k) = snd (snd k)"
  by (cases k) (auto simp: length_rbytes)

lemma cur_read:
  assumes "cur_ok s k" and "c \<le> snd (snd k)"
  shows "runs (read_block (fst k) (fst (snd k)) c) s (\<lambda>bs s'. s' = s \<and> bs = take c (cbytes s k))"
  using assms read_block_runs [of "fst k" s "fst (snd k)" c] by (cases k) auto

lemma advance_None:
  assumes "advance c k l = None" and "c \<le> snd (snd k)"
  shows "l = []" and "c = snd (snd k)"
  using assms by (auto simp: advance_def split: prod.splits if_splits list.splits)

lemma advance_Some:
  assumes "advance c k l = Some (k', l')" and "cur_ok s k" and "list_all ref_fmt l" and "list_all (ref_in s) l"
    and "c \<le> snd (snd k)"
  shows "cur_ok s k'" and "list_all ref_fmt l'" and "list_all (ref_in s) l'"
    and "cbytes s k' @ content s l' = drop c (cbytes s k @ content s l)"
    and "length l' \<le> length l" and "c = snd (snd k) \<Longrightarrow> length l' < length l"
proof -
  obtain r o' n where k: "k = (r, o', n)" by (cases k)
  have n: "c \<le> n" "length (rbytes s r) = o' + n" "0 < n" using assms(2,5) k by (auto simp: length_rbytes)
  have "cur_ok s k' \<and> list_all ref_fmt l' \<and> list_all (ref_in s) l' \<and>
    cbytes s k' @ content s l' = drop c (cbytes s k @ content s l) \<and>
    length l' \<le> length l \<and> (c = snd (snd k) \<longrightarrow> length l' < length l)"
  proof (cases "n = c")
    case True
    then obtain q where "l = q # l'" "k' = (q, 0, r_length q)"
      using assms(1) k by (auto simp: advance_def split: list.splits)
    then show ?thesis using assms k n True by (auto simp: ref_fmt_def)
  next
    case False
    then show ?thesis using assms k n by (auto simp: advance_def add.commute)
  qed
  then show "cur_ok s k'" "list_all ref_fmt l'" "list_all (ref_in s) l'"
    "cbytes s k' @ content s l' = drop c (cbytes s k @ content s l)"
    "length l' \<le> length l" "c = snd (snd k) \<Longrightarrow> length l' < length l" by auto
qed

lemma equals_loop_ok:
  "cur_ok s k1 \<Longrightarrow> cur_ok s k2 \<Longrightarrow> list_all ref_fmt l1 \<Longrightarrow> list_all ref_fmt l2 \<Longrightarrow>
   list_all (ref_in s) l1 \<Longrightarrow> list_all (ref_in s) l2 \<Longrightarrow> length l1 + length l2 < fuel \<Longrightarrow>
   length (cbytes s k1 @ content s l1) = length (cbytes s k2 @ content s l2) \<Longrightarrow>
     runs (equals_loop fuel k1 l1 k2 l2) s (\<lambda>e s'. s' = s \<and>
       e = (cbytes s k1 @ content s l1 = cbytes s k2 @ content s l2))"
proof (induction fuel arbitrary: k1 l1 k2 l2)
  case (Suc fuel)
  let ?c = "min (snd (snd k1)) (snd (snd k2))"
  let ?t1 = "cbytes s k1 @ content s l1" and ?t2 = "cbytes s k2 @ content s l2"
  note len = cbytes_length [OF Suc(2)] cbytes_length [OF Suc(3)]
  note r1 = cur_read [OF Suc(2), of ?c] and r2 = cur_read [OF Suc(3), of ?c]
  have tk: "take ?c ?t1 = take ?c (cbytes s k1)" "take ?c ?t2 = take ?c (cbytes s k2)" using len by simp_all
  have split: "(?t1 = ?t2) = (take ?c ?t1 = take ?c ?t2 \<and> drop ?c ?t1 = drop ?c ?t2)"
    by (metis append_take_drop_id)
  have next_step: "runs (case advance ?c k1 l1 of None \<Rightarrow> ret True
      | Some (k1', l1') \<Rightarrow> (case advance ?c k2 l2 of None \<Rightarrow> ret True
          | Some (k2', l2') \<Rightarrow> equals_loop fuel k1' l1' k2' l2')) s
      (\<lambda>e s'. s' = s \<and> e = (drop ?c ?t1 = drop ?c ?t2))"
  proof (cases "advance ?c k1 l1")
    case None
    then have "drop ?c ?t1 = []" using advance_None [OF None] len by simp
    moreover have "length (drop ?c ?t2) = length (drop ?c ?t1)" using Suc(9) by (simp only: length_drop)
    ultimately show ?thesis using None by simp
  next
    case (Some a)
    obtain k1' l1' where a: "a = (k1', l1')" by (cases a)
    note a1 = advance_Some [OF Some [unfolded a] Suc(2,4,6) min.cobounded1]
    show ?thesis
    proof (cases "advance ?c k2 l2")
      case None
      then have "drop ?c ?t2 = []" using advance_None [OF None] len by simp
      moreover have "length (drop ?c ?t1) = length (drop ?c ?t2)" using Suc(9) by (simp only: length_drop)
      ultimately show ?thesis using None Some a by simp
    next
      case (Some b)
      obtain k2' l2' where b: "b = (k2', l2')" by (cases b)
      note b1 = advance_Some [OF Some [unfolded b] Suc(3,5,7) min.cobounded2]
      have "?c = snd (snd k1) \<or> ?c = snd (snd k2)" by (simp add: min_def)
      then have "length l1' + length l2' < fuel"
        using a1(5,6) b1(5,6) Suc(8) by linarith
      moreover have "length (drop ?c ?t1) = length (drop ?c ?t2)" using Suc(9) by (simp only: length_drop)
      ultimately have "runs (equals_loop fuel k1' l1' k2' l2') s (\<lambda>e s'. s' = s \<and> e = (drop ?c ?t1 = drop ?c ?t2))"
        using Suc(1) [OF a1(1) b1(1) a1(2) b1(2) a1(3) b1(3)] unfolding a1(4) b1(4) by blast
      then show ?thesis
        unfolding \<open>advance ?c k1 l1 = Some a\<close> Some a b option.case prod.case .
    qed
  qed
  show ?case
    unfolding equals_loop.simps Let_def
  proof (rule runs_then [OF r1], simp, clarify, rule runs_then [OF r2], simp, clarify)
    show "runs (if take ?c (cbytes s k1) \<noteq> take ?c (cbytes s k2) then ret False
        else (case advance ?c k1 l1 of None \<Rightarrow> ret True
          | Some (k1', l1') \<Rightarrow> (case advance ?c k2 l2 of None \<Rightarrow> ret True
              | Some (k2', l2') \<Rightarrow> equals_loop fuel k1' l1' k2' l2'))) s (\<lambda>e s'. s' = s \<and> e = (?t1 = ?t2))"
    proof (cases "take ?c (cbytes s k1) = take ?c (cbytes s k2)")
      case True
      then have "(?t1 = ?t2) = (drop ?c ?t1 = drop ?c ?t2)" unfolding split tk by simp
      then show ?thesis using next_step True by (simp only: simp_thms if_False)
    next
      case False
      then have "?t1 \<noteq> ?t2" unfolding split tk by simp
      then show ?thesis using False by simp
    qed
  qed
qed simp

lemma IOBuf_equals_ok:
  assumes "is_buf s x" and "is_buf s y"
  shows "runs (IOBuf_equals x y) s (\<lambda>e s'. s' = s \<and> e = (btext s x = btext s y))"
proof -
  have x: "buf_ok x" "list_all (ref_in s) (brefs x)" "list_all ref_fmt (brefs x)" "length (btext s x) = blen (brefs x)"
    using assms(1) by (auto simp: is_buf_def buf_ok_def length_content)
  have y: "buf_ok y" "list_all (ref_in s) (brefs y)" "list_all ref_fmt (brefs y)" "length (btext s y) = blen (brefs y)"
    using assms(2) by (auto simp: is_buf_def buf_ok_def length_content)
  show ?thesis
  proof (cases "blen (brefs x) = blen (brefs y) \<and> blen (brefs x) \<noteq> 0")
    case False
    then show ?thesis using x y by (auto simp: IOBuf_equals_def IOBuf_length_ok runs_bindp_iff)
  next
    case True
    obtain r1 l1 where l1: "brefs x = r1 # l1" using True by (cases "brefs x") auto
    obtain r2 l2 where l2: "brefs y = r2 # l2" using True by (cases "brefs y") auto
    have "runs (equals_loop (Suc (length l1) + Suc (length l2)) (r1, 0, r_length r1) l1 (r2, 0, r_length r2) l2) s
       (\<lambda>e s'. s' = s \<and> e = (cbytes s (r1, 0, r_length r1) @ content s l1 = cbytes s (r2, 0, r_length r2) @ content s l2))"
      using x y l1 l2 True by (intro equals_loop_ok) (auto simp: ref_fmt_def)
    moreover have "0 < r_length r1" "0 < r_length r2" using x(3) y(3) l1 l2 by (auto simp: ref_fmt_def)
    ultimately show ?thesis
      using True x(1) y(1) l1 l2 by (simp add: IOBuf_equals_def read_ok runs_bindp_iff del: equals_loop.simps)
  qed
qed

end
