(* ===== verification/IOBuf_Demo.thy ===== *)
theory IOBuf_Demo
  imports IOBuf_Write
begin

text \<open>
  A concrete run: a thread with the pool of one region appends five bytes to an empty buffer.
\<close>

definition demo_io :: io where
  "demo_io = \<lparr>heap = (\<lambda>_. None), block_head = [], num_blocks = 0, registered = True, io_pool = demo_pool,
     io_self = 3, io_calls = 0, io_env = (\<lambda>_ _. demo_full), io_junk = (\<lambda>_ _. 0), io_deleted = []\<rparr>"

abbreviation demo_block :: bptr where
  "demo_block \<equiv> InPool (2 ^ 30 + 2 ^ 28)"

definition demo_bytes :: "byte list" where
  "demo_bytes = [104, 101, 108, 108, 111]"

lemma demo_io_ok: "io_ok {} demo_io {#}"
  using demo_pool_ok by (simp add: demo_io_def io_ok_def heap_ok_def pool_blocks_def demo_full_ok)

lemma demo_alloc_default:
  "\<exists>p'. BlockAllocate 3 demo_full DEFAULT_BLOCK_SIZE demo_pool = Inr (Some (2 ^ 30 + 2 ^ 28), p')"
  by (simp add: BlockAllocate_def AllocBlockFrom_def refill_def MoveExpansionList2EmptyIdleList_def
      take_block_def bindp_def ret_def Let_def demo_defs add_region_def empty_info_def bucket_node_def
      g_block_size_def pool_consts DEFAULT_BLOCK_SIZE_def)

lemma demo_create:
  "\<exists>s. create_block DEFAULT_BLOCK_SIZE demo_io = Inr (Some demo_block, s) \<and>
     heap s demo_block = Some (new_Block (2 ^ 30 + 2 ^ 28 + 32) 8160 (\<lambda>_. 0)) \<and> block_head s = [] \<and> num_blocks s = 0 \<and>
     heap_ok {} s {#demo_block#}"
proof -
  have "runs (create_block DEFAULT_BLOCK_SIZE) demo_io (fresh_block {} DEFAULT_BLOCK_SIZE {#} demo_io)"
    using demo_io_ok by (intro create_block_ok) (simp_all add: io_ok_def demo_io_def DEFAULT_BLOCK_SIZE_def sizeof_Block_def)
  then show ?thesis
    using demo_alloc_default
    by (auto simp: create_block_def demo_io_def fresh_block_def runs_def DEFAULT_BLOCK_SIZE_def sizeof_Block_def still_def)
qed

lemma demo_share:
  "\<exists>s. share_tls_block demo_io = Inr (Some demo_block, s) \<and> block_head s = [demo_block] \<and>
     heap s demo_block = Some (new_Block (2 ^ 30 + 2 ^ 28 + 32) 8160 (\<lambda>_. 0))"
proof -
  obtain s where s: "create_block DEFAULT_BLOCK_SIZE demo_io = Inr (Some demo_block, s)"
     "heap s demo_block = Some (new_Block (2 ^ 30 + 2 ^ 28 + 32) 8160 (\<lambda>_. 0))" "num_blocks s = 0"
    using demo_create by auto
  have "demo_io\<lparr>registered := True\<rparr> = demo_io" "block_head demo_io = []" by (simp_all add: demo_io_def)
  then show ?thesis
    using s by (simp add: share_tls_block_def bindp_def upd_def ret_def)
qed

lemma demo_append_any:
  assumes "1 < length bs" and "length bs \<le> 8160"
  shows "\<exists>s x. append_data (Some bs) IOBuf_new demo_io = Inr ((x, 0), s) \<and> is_buf s x \<and> io_ok {} s (ptrs (brefs x)) \<and>
     btext s x = bs \<and> brefs x = [\<lparr>r_offset = 0, r_length = length bs, r_block = Some demo_block\<rparr>]"
proof -
  obtain s where s: "share_tls_block demo_io = Inr (Some demo_block, s)"
     "heap s demo_block = Some (new_Block (2 ^ 30 + 2 ^ 28 + 32) 8160 (\<lambda>_. 0))"
    using demo_share by auto
  let ?x = "Small \<lparr>r_offset = 0, r_length = length bs, r_block = Some demo_block\<rparr> null_ref"
  have step: "\<exists>s'. append_step bs IOBuf_new demo_io = Inr ((?x, Some (length bs)), s')"
    using s assms(2) by (simp add: append_step_def bindp_def get_block_def new_Block_def
        left_space_def write_block_def put_block_def upd_def push_ref_def IOBuf_new_def null_ref_def view_def
        push_to_smallview_def inc_unless_def on_block_def inc_ref_def ret_def grow_block_def Let_def)
  obtain c cs where cs: "bs = c # cs" using assms(1) by (cases bs) auto
  have "append_loop (length bs) bs IOBuf_new = bindp (append_step bs IOBuf_new)
      (\<lambda>(x', r). case r of None \<Rightarrow> ret (x', -1) | Some nc \<Rightarrow> append_loop (length cs) (drop nc bs) x')"
    unfolding cs list.size(4) add.right_neutral add_Suc_right append_loop.simps(3) ..
  then have "\<exists>s'. append_data (Some bs) IOBuf_new demo_io = Inr ((?x, 0), s')"
    using step assms(1) by (auto simp: append_data_def bindp_def ret_def)
  then obtain s' where s': "append_data (Some bs) IOBuf_new demo_io = Inr ((?x, 0), s')" by auto
  have "is_buf demo_io IOBuf_new" "fits IOBuf_new (length bs)" "io_ok {} demo_io (ptrs (brefs IOBuf_new) + {#})"
    using demo_io_ok IOBuf_new_ok assms(2) by (simp_all add: is_buf_def fits_def)
  then have "runs (append_data (Some bs) IOBuf_new) demo_io (append_all {} {#} demo_io IOBuf_new bs)"
    by (intro append_data_ok) simp_all
  then show ?thesis
    using s' IOBuf_new_ok by (auto simp: runs_def append_all_def appended_def brefs.simps(1) null_ref_def)
qed

lemma demo_append:
  "\<exists>s x. append_data (Some demo_bytes) IOBuf_new demo_io = Inr ((x, 0), s) \<and> is_buf s x \<and>
     io_ok {} s (ptrs (brefs x)) \<and> btext s x = demo_bytes \<and> brefs x = [\<lparr>r_offset = 0, r_length = 5, r_block = Some demo_block\<rparr>]"
proof -
  have "length demo_bytes = 5" by (simp add: demo_bytes_def)
  then show ?thesis using demo_append_any [of demo_bytes] by simp
qed

end
