(* ===== verification/IOBuf_Streams.thy ===== *)
theory IOBuf_Streams
  imports IOBuf_Demo
begin

text \<open>
  The two adapters for protobuf: \<open>IOBufAsZeroCopyInputStream\<close> reads a buffer, and
  \<open>IOBufAsZeroCopyOutputStream\<close> hands out free space at its end. A pointer that \<open>Next\<close> returns is
  a block, the position in it and the size of the space.
\<close>

section \<open>Input\<close>

record in_stream =
  ref_index :: nat
  add_offset :: int
  byte_count :: int

definition in_stream_new :: in_stream where
  "in_stream_new = \<lparr>ref_index = 0, add_offset = 0, byte_count = 0\<rparr>"

text \<open>An \<open>uint32_t\<close> value stored into an \<open>int\<close>.\<close>

definition to_int32 :: "int \<Rightarrow> int" where
  "to_int32 v = (v + 2 ^ 31) mod 2 ^ 32 - 2 ^ 31"

definition in_Next :: "IOBuf \<Rightarrow> in_stream \<Rightarrow> (io, in_stream \<times> (bptr \<times> int \<times> int) option) prog" where
  "in_Next x st = bindp (pref_at x (ref_index st)) (\<lambda>cur_ref. case cur_ref of
     None \<Rightarrow> ret (st, None)
   | Some r \<Rightarrow> on_block (\<lambda>p. bindp (get_block p) (\<lambda>_.
       let n = (int (r_length r) - add_offset st) mod 2 ^ 32 in
       ret (\<lparr>ref_index = ref_index st + 1, add_offset = 0, byte_count = byte_count st + n\<rparr>,
            Some (p, int (r_offset r) + add_offset st, to_int32 n)))) r)"

definition in_BackUp :: "int \<Rightarrow> IOBuf \<Rightarrow> in_stream \<Rightarrow> (io, in_stream) prog" where
  "in_BackUp cnt x st =
     (if ref_index st > 0 then
        bindp (pref_at x (ref_index st - 1)) (\<lambda>cur_ref. case cur_ref of
          None \<Rightarrow> crash NullDeref
        | Some r \<Rightarrow>
            if add_offset st = 0 \<and> int (r_length r) \<ge> cnt mod 2 ^ 32 then crash Aborted
            else ret \<lparr>ref_index = ref_index st - 1, add_offset = to_int32 (int (r_length r) - cnt),
                      byte_count = byte_count st - cnt\<rparr>)
      else crash Aborted)"

fun skip_loop :: "nat \<Rightarrow> int \<Rightarrow> IOBuf \<Rightarrow> in_stream \<Rightarrow> (io, in_stream \<times> bool) prog" where
  "skip_loop 0 cnt x st = crash Diverges"
| "skip_loop (Suc fuel) cnt x st = bindp (pref_at x (ref_index st)) (\<lambda>cur_ref. case cur_ref of
     None \<Rightarrow> ret (st, False)
   | Some r \<Rightarrow>
       let left_bytes = to_int32 (int (r_length r) - add_offset st) in
       if cnt < left_bytes then
         ret (st\<lparr>add_offset := add_offset st + cnt, byte_count := byte_count st + cnt\<rparr>, True)
       else skip_loop fuel (cnt - left_bytes) x
         \<lparr>ref_index = ref_index st + 1, add_offset = 0, byte_count = byte_count st + left_bytes\<rparr>)"

text \<open>The loop meets each reference once and ends behind the last.\<close>

definition in_Skip :: "int \<Rightarrow> IOBuf \<Rightarrow> in_stream \<Rightarrow> (io, in_stream \<times> bool) prog" where
  "in_Skip cnt x st = bindp (ref_num x) (\<lambda>nref. skip_loop (nref - ref_index st + 1) cnt x st)"

definition in_ByteCount :: "in_stream \<Rightarrow> int" where
  "in_ByteCount st = byte_count st"

section \<open>Output\<close>

record out_stream =
  block_size :: nat
  cur_block :: "bptr option"
  out_count :: int

text \<open>\<open>offsetof(IOBuf::Block, data)\<close>; \<open>None\<close> is the exception of the constructor.\<close>

definition offsetof_data :: nat where "offsetof_data = 24"

definition out_stream_new :: "nat option \<Rightarrow> out_stream option" where
  "out_stream_new bs = (case bs of
     None \<Rightarrow> Some \<lparr>block_size = 0, cur_block = None, out_count = 0\<rparr>
   | Some n \<Rightarrow> if n \<le> offsetof_data then None else Some \<lparr>block_size = n, cur_block = None, out_count = 0\<rparr>)"

definition out_ByteCount :: "out_stream \<Rightarrow> int" where
  "out_ByteCount st = out_count st"

definition release_block :: "out_stream \<Rightarrow> (io, out_stream) prog" where
  "release_block st = bindp
     (if block_size st > 0 then (case cur_block st of None \<Rightarrow> ret () | Some p \<Rightarrow> dec_ref p)
      else release_tls_block (cur_block st))
     (\<lambda>_. ret (st\<lparr>cur_block := None\<rparr>))"

definition out_destroy :: "out_stream \<Rightarrow> (io, unit) prog" where
  "out_destroy st = bindp (release_block st) (\<lambda>_. ret ())"

text \<open>The block the next bytes go to: the current one if it has room, else another.\<close>

definition out_get_block :: "out_stream \<Rightarrow> (io, out_stream) prog" where
  "out_get_block st = (let other = bindp (release_block st) (\<lambda>st'.
       bindp (if block_size st > 0 then create_block (block_size st) else acquire_tls_block)
         (\<lambda>r. ret (st'\<lparr>cur_block := r\<rparr>))) in
     (case cur_block st of
        None \<Rightarrow> other
      | Some p \<Rightarrow> bindp (get_block p) (\<lambda>b. if full b then other else ret st)))"

definition out_Next :: "IOBuf \<Rightarrow> out_stream \<Rightarrow> (io, IOBuf \<times> out_stream \<times> (bptr \<times> nat \<times> nat) option) prog" where
  "out_Next x st = bindp (out_get_block st) (\<lambda>st'. case cur_block st' of
     None \<Rightarrow> ret (x, st', None)
   | Some p \<Rightarrow> bindp (get_block p) (\<lambda>b.
       let r = \<lparr>r_offset = bsize b, r_length = left_space b, r_block = Some p\<rparr> in
       bindp (put_block p (b\<lparr>bsize := bcap b\<rparr>)) (\<lambda>_.
         bindp (push_back_ref r x) (\<lambda>x'.
           ret (x', st'\<lparr>out_count := out_count st' + int (left_space b)\<rparr>, Some (p, bsize b, left_space b))))))"

definition shrink_block :: "bptr \<Rightarrow> nat \<Rightarrow> (io, unit) prog" where
  "shrink_block p n = bindp (get_block p) (\<lambda>b. put_block p (b\<lparr>bsize := nat ((int (bsize b) - int n) mod 2 ^ 32)\<rparr>))"

text \<open>The block that \<open>BackUp\<close> works on. With a current block the last reference has to end where
  that block ends. Without one, the last reference's block is taken over when its end is the
  block's end; \<open>None\<close> is the case of a block that others have written behind it.\<close>

definition backup_block :: "BlockRef \<Rightarrow> out_stream \<Rightarrow> (io, bptr option) prog" where
  "backup_block r st = (case cur_block st of
     Some p \<Rightarrow> if r_block r \<noteq> Some p then crash Aborted
       else bindp (get_block p) (\<lambda>b. if add32 (r_offset r) (r_length r) \<noteq> bsize b then crash Aborted else ret (Some p))
   | None \<Rightarrow> on_block (\<lambda>p. bindp (get_block p) (\<lambda>b.
       if nshared b = 1 \<and> add32 (r_offset r) (r_length r) \<noteq> bsize b then crash Aborted
       else if nshared b \<noteq> 1 \<and> add32 (r_offset r) (r_length r) \<noteq> bsize b then ret None
       else bindp (inc_ref p) (\<lambda>_. ret (Some p)))) r)"

text \<open>\<open>count\<close> is not negative, as protobuf asks of the callers of \<open>BackUp\<close>. A round that does not
  return pops a reference.\<close>

fun backup_loop :: "nat \<Rightarrow> nat \<Rightarrow> IOBuf \<Rightarrow> out_stream \<Rightarrow> (io, IOBuf \<times> out_stream) prog" where
  "backup_loop 0 cnt x st = crash Diverges"
| "backup_loop (Suc fuel) cnt x st = bindp (IOBuf_empty x) (\<lambda>e.
     if e then (if cnt \<noteq> 0 then crash Aborted else ret (x, st))
     else bindp (back_ref x) (\<lambda>r. bindp (backup_block r st) (\<lambda>q. case q of
         None \<Rightarrow> bindp (pop_back cnt x) (\<lambda>(x', k). ret (x', st\<lparr>out_count := out_count st - int k\<rparr>))
       | Some p \<Rightarrow>
           let st1 = st\<lparr>cur_block := Some p\<rparr> in
           if r_length r > cnt then
             bindp (shrink_block p cnt) (\<lambda>_.
               let st2 = st1\<lparr>out_count := out_count st1 - int cnt\<rparr> in
               if block_size st = 0
               then bindp (release_tls_block (Some p)) (\<lambda>_. ret (trim_back cnt x, st2\<lparr>cur_block := None\<rparr>))
               else ret (trim_back cnt x, st2))
           else
             bindp (shrink_block p (r_length r)) (\<lambda>_. bindp (pop_back_ref x) (\<lambda>(x', _).
               bindp (release_block (st1\<lparr>out_count := out_count st1 - int (r_length r)\<rparr>)) (\<lambda>st2.
                 if cnt - r_length r = 0 then ret (x', st2)
                 else backup_loop fuel (cnt - r_length r) x' st2))))))"

definition out_BackUp :: "nat \<Rightarrow> IOBuf \<Rightarrow> out_stream \<Rightarrow> (io, IOBuf \<times> out_stream) prog" where
  "out_BackUp cnt x st = bindp (ref_num x) (\<lambda>nref. backup_loop (nref + 1) cnt x st)"

section \<open>Reading\<close>

text \<open>The position of a stream is its byte count.\<close>

definition in_ok :: "IOBuf \<Rightarrow> in_stream \<Rightarrow> bool" where
  "in_ok x st = (ref_index st \<le> length (brefs x) \<and> 0 \<le> add_offset st \<and>
     (if ref_index st < length (brefs x) then add_offset st < int (r_length (brefs x ! ref_index st)) else add_offset st = 0) \<and>
     byte_count st = int (blen (take (ref_index st) (brefs x))) + add_offset st)"

definition chunk :: "io \<Rightarrow> bptr \<times> int \<times> int \<Rightarrow> byte list" where
  "chunk s c = (case c of (p, off, n) \<Rightarrow> case heap s p of None \<Rightarrow> []
     | Some b \<Rightarrow> map (\<lambda>k. bytes b (nat off + k)) [0..<nat n])"

lemma to_int32_id [simp]: "0 \<le> v \<Longrightarrow> v < 2 ^ 31 \<Longrightarrow> to_int32 v = v"
  by (simp add: to_int32_def)

lemma blen_append [simp]: "blen (rs @ qs) = blen rs + blen qs"
  by (induction rs) simp_all

lemma in_ok_new: "buf_ok x \<Longrightarrow> in_ok x in_stream_new"
  by (auto simp: in_ok_def in_stream_new_def buf_ok_def ref_fmt_def list_all_length)

text \<open>At a reference: what is left is the rest of it and those behind.\<close>

lemma at_ref:
  assumes "is_buf s x" and "in_ok x st" and "ref_index st < length (brefs x)"
  defines "r \<equiv> brefs x ! ref_index st"
  shows "ref_fmt r" and "ref_in s r" and "add_offset st < int (r_length r)" and "0 \<le> add_offset st" and "r_length r < 2 ^ 31"
    and "blen (take (Suc (ref_index st)) (brefs x)) = blen (take (ref_index st) (brefs x)) + r_length r"
    and "drop (nat (byte_count st)) (btext s x) =
           drop (nat (add_offset st)) (rbytes s r) @ drop (blen (take (Suc (ref_index st)) (brefs x))) (btext s x)"
proof -
  let ?i = "ref_index st"
  have all: "list_all ref_fmt (brefs x)" "list_all (ref_in s) (brefs x)" using assms(1) by (auto simp: is_buf_def buf_ok_def)
  then show r: "ref_fmt r" "ref_in s r" using assms(3) by (auto simp: r_def list_all_length)
  show a: "add_offset st < int (r_length r)" "0 \<le> add_offset st" using assms(2,3) by (simp_all add: in_ok_def r_def)
  have sp: "brefs x = take ?i (brefs x) @ r # drop (Suc ?i) (brefs x)" "take (Suc ?i) (brefs x) = take ?i (brefs x) @ [r]"
    using assms(3) by (simp_all add: r_def id_take_nth_drop take_Suc_conv_app_nth)
  have "blen (brefs x) = blen (take ?i (brefs x)) + r_length r + blen (drop (Suc ?i) (brefs x))" by (subst sp(1)) simp
  then show "r_length r < 2 ^ 31" using assms(1) by (simp add: is_buf_def buf_ok_def)
  from sp(2) show l: "blen (take (Suc ?i) (brefs x)) = blen (take ?i (brefs x)) + r_length r" by simp
  have "list_all (ref_in s) (take ?i (brefs x))" using all(2) by (metis append_take_drop_id list_all_append)
  then have len: "length (content s (take ?i (brefs x))) = blen (take ?i (brefs x))" by (rule length_content)
  have "btext s x = content s (take ?i (brefs x)) @ rbytes s r @ content s (drop (Suc ?i) (brefs x))"
    by (subst sp(1)) simp
  moreover have "nat (byte_count st) = blen (take ?i (brefs x)) + nat (add_offset st)"
    using assms(2) a(2) by (simp add: in_ok_def nat_add_distrib)
  ultimately show "drop (nat (byte_count st)) (btext s x) =
      drop (nat (add_offset st)) (rbytes s r) @ drop (blen (take (Suc ?i) (brefs x))) (btext s x)"
    using len a length_rbytes [OF r(2)] by (simp add: l)
qed

lemma in_ok_next:
  assumes "is_buf s x" and "ref_index st < length (brefs x)" and "byte_count st = int (blen (take (Suc (ref_index st)) (brefs x)))"
  shows "in_ok x \<lparr>ref_index = ref_index st + 1, add_offset = 0, byte_count = byte_count st\<rparr>"
  using assms by (auto simp: in_ok_def is_buf_def buf_ok_def ref_fmt_def list_all_length)

lemma in_Next_ok:
  assumes "is_buf s x" and "in_ok x st"
  shows "runs (in_Next x st) s (\<lambda>(st', c) s'. s' = s \<and> in_ok x st' \<and> (case c of
     None \<Rightarrow> st' = st \<and> byte_count st = int (length (btext s x))
   | Some c \<Rightarrow> chunk s c \<noteq> [] \<and> drop (nat (byte_count st)) (btext s x) =
       chunk s c @ drop (nat (byte_count st')) (btext s x) \<and> ref_index st' = ref_index st + 1))"
proof -
  let ?i = "ref_index st"
  have x: "buf_ok x" "length (btext s x) = blen (brefs x)" using assms(1) by (auto simp: is_buf_def length_content)
  show ?thesis
  proof (cases "?i < length (brefs x)")
    case False
    then show ?thesis using assms(2) x by (simp add: in_Next_def pref_at_ok in_ok_def runs_bindp_iff)
  next
    case True
    let ?r = "brefs x ! ?i"
    note at = at_ref [OF assms True]
    obtain b where b: "heap s (the (r_block ?r)) = Some b" using at(2) by (auto simp: ref_in_def)
    let ?n = "int (r_length ?r) - add_offset st"
    have n: "0 < ?n" "?n mod 2 ^ 32 = ?n" "byte_count st + ?n = int (blen (take (Suc ?i) (brefs x)))"
      using at(3-6) assms(2) by (simp_all add: in_ok_def)
    have i32: "to_int32 ?n = ?n" using n(1) at(4,5) by simp
    have ch: "chunk s (the (r_block ?r), int (r_offset ?r) + add_offset st, ?n) = drop (nat (add_offset st)) (rbytes s ?r)"
      using b at(3,4) by (auto simp: chunk_def rbytes_def nat_add_distrib nat_diff_distrib add.assoc intro!: nth_equalityI)
    have ok: "in_ok x \<lparr>ref_index = ?i + 1, add_offset = 0, byte_count = byte_count st + ?n\<rparr>"
      using in_ok_next [OF assms(1), of "st\<lparr>byte_count := byte_count st + ?n\<rparr>"] True n(3) by simp
    have "drop (nat (add_offset st)) (rbytes s ?r) \<noteq> []" using at(3,4) length_rbytes [OF at(2)] by simp
    then show ?thesis
      using True x(1) b at(7) n ch ok i32 
      by (simp add: in_Next_def pref_at_ok runs_bindp_iff runs_on_block [OF at(1)] runs_get_block Let_def)
  qed
qed

lemma skip_loop_ok:
  "is_buf s x \<Longrightarrow> in_ok x st \<Longrightarrow> 0 \<le> n \<Longrightarrow> length (brefs x) - ref_index st < fuel \<Longrightarrow>
     runs (skip_loop fuel n x st) s (\<lambda>(st', b) s'. s' = s \<and> in_ok x st' \<and>
       b = (byte_count st + n < int (length (btext s x))) \<and>
       byte_count st' = min (byte_count st + n) (int (length (btext s x))))"
proof (induction fuel arbitrary: n st)
  case (Suc fuel)
  let ?i = "ref_index st"
  have x: "buf_ok x" "length (btext s x) = blen (brefs x)" using Suc(2) by (auto simp: is_buf_def length_content)
  show ?case
  proof (cases "?i < length (brefs x)")
    case False
    then show ?thesis using Suc(3,4) x by (simp add: pref_at_ok in_ok_def)
  next
    case True
    let ?r = "brefs x ! ?i" and ?st = "\<lambda>n. \<lparr>ref_index = ?i + 1, add_offset = 0, byte_count = byte_count st + n\<rparr>"
    note at = at_ref [OF Suc(2,3) True]
    let ?n = "int (r_length ?r) - add_offset st"
    have n: "0 < ?n" "to_int32 ?n = ?n" "byte_count st + ?n = int (blen (take (Suc ?i) (brefs x)))"
      using at(3-6) Suc(3) by (simp_all add: in_ok_def)
    have le: "byte_count st + ?n \<le> int (blen (brefs x))"
      unfolding n(3) by (metis blen_append append_take_drop_id le_add1 of_nat_le_iff)
    have ok: "in_ok x (?st ?n)" using in_ok_next [OF Suc(2), of "st\<lparr>byte_count := byte_count st + ?n\<rparr>"] True n(3) by simp
    show ?thesis
    proof (cases "n < ?n")
      case here: True
      have "in_ok x (st\<lparr>add_offset := add_offset st + n, byte_count := byte_count st + n\<rparr>)"
        using Suc(3,4) True here by (simp add: in_ok_def)
      then show ?thesis using True here n(2) le x by (simp add: pref_at_ok Let_def)
    next
      case False
      have "runs (skip_loop fuel (n - ?n) x (?st ?n)) s (\<lambda>(st', b) s'. s' = s \<and> in_ok x st' \<and>
         b = (byte_count (?st ?n) + (n - ?n) < int (length (btext s x))) \<and>
         byte_count st' = min (byte_count (?st ?n) + (n - ?n)) (int (length (btext s x))))"
        using Suc(5) True False by (intro Suc(1) [OF Suc(2) ok]) auto
      then show ?thesis using True False n(2) x(1) by (simp add: pref_at_ok Let_def)
    qed
  qed
qed simp

text \<open>A reader that calls \<open>Next\<close> until it returns false.\<close>

fun read_all :: "nat \<Rightarrow> IOBuf \<Rightarrow> in_stream \<Rightarrow> (io, (bptr \<times> int \<times> int) list) prog" where
  "read_all 0 x st = crash Diverges"
| "read_all (Suc fuel) x st = bindp (in_Next x st) (\<lambda>(st', c). case c of
     None \<Rightarrow> ret []
   | Some c \<Rightarrow> bindp (read_all fuel x st') (\<lambda>cs. ret (c # cs)))"

lemma read_all_ok:
  "is_buf s x \<Longrightarrow> in_ok x st \<Longrightarrow> length (brefs x) - ref_index st < fuel \<Longrightarrow>
     runs (read_all fuel x st) s (\<lambda>cs s'. s' = s \<and> concat (map (chunk s) cs) = drop (nat (byte_count st)) (btext s x))"
proof (induction fuel arbitrary: st)
  case (Suc fuel)
  have len: "length (btext s x) = blen (brefs x)" using Suc(2) by (simp add: is_buf_def length_content)
  show ?case
    unfolding read_all.simps
  proof (rule runs_then [OF in_Next_ok [OF Suc(2,3)]], clarify)
    fix st' c
    assume ok: "in_ok x st'" and c: "case c of None \<Rightarrow> st' = st \<and> byte_count st = int (length (btext s x))
       | Some c \<Rightarrow> chunk s c \<noteq> [] \<and> drop (nat (byte_count st)) (btext s x) =
         chunk s c @ drop (nat (byte_count st')) (btext s x) \<and> ref_index st' = ref_index st + 1"
    have "length (brefs x) - ref_index st' < fuel" if "c = Some d" for d
      using that c ok Suc(4) by (auto simp: in_ok_def)
    then show "runs (case c of None \<Rightarrow> ret [] | Some c \<Rightarrow> bindp (read_all fuel x st') (\<lambda>cs. ret (c # cs))) s
       (\<lambda>cs s'. s' = s \<and> concat (map (chunk s) cs) = drop (nat (byte_count st)) (btext s x))"
      using c by (auto simp: runs_bindp_iff intro!: runs_mono [OF Suc(1) [OF Suc(2) ok]] split: option.splits)
  qed
qed simp

section \<open>Writing\<close>

lemma acquire_walk_null:
  "heap_ok X s (mset l + R) \<Longrightarrow> \<forall>p \<in> set l. \<exists>b. heap s p = Some b \<and> full b \<Longrightarrow> acquire_walk l s = Inl NullDeref"
proof (induction l arbitrary: s)
  case (Cons p ps)
  obtain b where b: "heap s p = Some b" "full b" using Cons(3) by auto
  obtain s' where s': "dec_ref p s = Inr ((), s')" "heap_ok X s' (mset ps + R)" "still (mset ps + R) s s'"
    using dec_ref_ok [of X s p "mset ps + R"] Cons(2) by (auto simp: runs_iff)
  let ?s = "s'\<lparr>block_head := ps, num_blocks := num_blocks s' - 1\<rparr>"
  have "heap_ok X ?s (mset ps + R)" using s'(2) by (simp add: heap_ok_def pool_blocks_def)
  moreover have "\<exists>b. heap ?s q = Some b \<and> full b" if "q \<in> set ps" for q
  proof -
    have "q \<in> set (p # ps)" using that by simp
    from bspec [OF Cons(3) this] obtain c where c: "heap s q = Some c" "full c" by blast
    have "q \<in># mset ps + R" using that by simp
    then obtain n where "heap s' q = Some (c\<lparr>nshared := n\<rparr>)" using s'(3) c(1) unfolding still_def by blast
    then show ?thesis using c by (simp add: full_def)
  qed
  ultimately have "acquire_walk ps ?s = Inl NullDeref" by (intro Cons(1)) auto
  then show ?case using b s'(1) by (simp add: bindp_def get_block_def upd_def)
qed (simp add: crash_def)

lemma acquire_tls_block_null:
  assumes "io_ok X s R" and "block_head s \<noteq> []" and "\<forall>p \<in> set (block_head s). \<exists>b. heap s p = Some b \<and> full b"
  shows "acquire_tls_block s = Inl NullDeref"
proof -
  have "heap_ok X s (mset (block_head s) + R)" using assms(1) by (simp add: io_ok_def add.commute)
  from acquire_walk_null [OF this assms(3)] show ?thesis
    using assms(2) by (auto simp: acquire_tls_block_def bindp_def split: list.splits)
qed

text \<open>The reference a stream holds on its current block.\<close>

definition srefs :: "out_stream \<Rightarrow> bptr multiset" where
  "srefs st = (case cur_block st of None \<Rightarrow> {#} | Some p \<Rightarrow> {#p#})"

lemma release_tls_block_ok:
  assumes "io_ok X s (add_mset p R)"
  shows "runs (release_tls_block (Some p)) s (\<lambda>_ s'. io_ok X s' R \<and> grows (R + mset (block_head s)) s s' \<and>
     set (block_head s') \<subseteq> insert p (set (block_head s)) \<and>
     (\<forall>b. heap s p = Some b \<longrightarrow> \<not> full b \<longrightarrow> num_blocks s < MAX_BLOCKS_PER_THREAD \<longrightarrow> p \<in> set (block_head s')))"
proof -
  have h: "heap_ok X s (add_mset p (R + mset (block_head s)))" "num_blocks s = int (length (block_head s))"
    using assms by (simp_all add: io_ok_def)
  obtain b where b: "heap s p = Some b" using heap_okD(4) [OF h(1), of p] by auto
  have "runs (dec_ref p) s (\<lambda>_ s'. io_ok X s' R \<and> grows (R + mset (block_head s)) s s' \<and> block_head s' = block_head s)"
    by (rule runs_mono [OF dec_ref_ok [OF h(1)]]) (use h(2) in \<open>auto simp: io_ok_def still_grows, auto simp: still_def\<close>)
  moreover have "io_ok X (s\<lparr>block_head := p # block_head s, num_blocks := num_blocks s + 1, registered := True\<rparr>) R"
    using h by (simp add: io_ok_def heap_ok_def pool_blocks_def)
  moreover have "grows T s (s\<lparr>block_head := p # block_head s, num_blocks := num_blocks s + 1, registered := True\<rparr>)" for T
    by (simp add: grows_def)
  ultimately show ?thesis
    using b by (auto simp: release_tls_block_def bindp_def get_block_def runs_def MAX_BLOCKS_PER_THREAD_def split: sum.splits)
qed

text \<open>A block for the stream alone, from the chain or new. Its size is bounded by those it can come from.\<close>

definition caps :: "nat \<Rightarrow> io \<Rightarrow> bptr set \<Rightarrow> bool" where
  "caps N s A = (\<forall>p \<in> A. \<forall>b. heap s p = Some b \<longrightarrow> bcap b \<le> N)"

definition acquired :: "addr set \<Rightarrow> bptr multiset \<Rightarrow> nat \<Rightarrow> io \<Rightarrow> bptr \<Rightarrow> io \<Rightarrow> bool" where
  "acquired X R N s p s' = (io_ok X s' (add_mset p R) \<and> grows R s s' \<and>
     (\<exists>b. heap s' p = Some b \<and> bsize b < bcap b \<and> bcap b \<le> N))"

lemma still_at:
  assumes "still T s s'" and "q \<in># T" and "heap s q = Some c"
  shows "\<exists>n. heap s' q = Some (c\<lparr>nshared := n\<rparr>)"
  using assms unfolding still_def by blast

lemma caps_still:
  assumes "caps N s A" and "still T s s'" and "A \<subseteq> set_mset T" and "heap_ok X s T'" and "A \<subseteq> set_mset T'"
  shows "caps N s' A"
  unfolding caps_def
proof (intro ballI allI impI)
  fix p b assume p: "p \<in> A" "heap s' p = Some b"
  obtain c where c: "heap s p = Some c" using heap_okD(4) [OF assms(4), of p] p(1) assms(5) by auto
  obtain n where "heap s' p = Some (c\<lparr>nshared := n\<rparr>)" using still_at [OF assms(2) _ c] p(1) assms(3) by auto
  then show "bcap b \<le> N" using assms(1) c p by (auto simp: caps_def)
qed

lemma acquire_walk_ok:
  "heap_ok X s (mset l + R) \<Longrightarrow> num_blocks s = int (length l) \<Longrightarrow> caps N s (set l) \<Longrightarrow>
     p0 \<in> set l \<Longrightarrow> heap s p0 = Some b0 \<Longrightarrow> \<not> full b0 \<Longrightarrow> runs (acquire_walk l) s (acquired X R N s)"
proof (induction l arbitrary: s b0)
  case (Cons p ps)
  obtain b where b: "heap s p = Some b" using heap_okD(4) [OF Cons(2), of p] by auto
  show ?case
  proof (cases "full b")
    case False
    have "heap_ok X (s\<lparr>block_head := ps, num_blocks := num_blocks s - 1\<rparr>) (add_mset p (R + mset ps))"
      using Cons(2) by (simp add: heap_ok_def pool_blocks_def ac_simps)
    then show ?thesis
      using False b Cons(3,4) by (simp add: runs_bindp_iff runs_get_block acquired_def io_ok_def grows_def full_def caps_def)
  next
    case True
    have "runs (dec_ref p) s (\<lambda>_ s'. heap_ok X s' (mset ps + R) \<and> still (mset ps + R) s s')"
      using Cons(2) by (intro dec_ref_ok) simp
    then have "runs (bindp (dec_ref p) (\<lambda>_. bindp (upd (\<lambda>s. s\<lparr>block_head := ps, num_blocks := num_blocks s - 1\<rparr>))
        (\<lambda>_. acquire_walk ps))) s (acquired X R N s)"
    proof (rule runs_then, elim conjE)
      fix u s' assume h: "heap_ok X s' (mset ps + R)" and st: "still (mset ps + R) s s'"
      let ?s = "s'\<lparr>block_head := ps, num_blocks := num_blocks s' - 1\<rparr>"
      have h': "heap_ok X ?s (mset ps + R)" using h by (simp add: heap_ok_def pool_blocks_def)
      have n: "num_blocks ?s = int (length ps)" using Cons(3) st by (simp add: still_def)
      have "caps N s (set ps)" using Cons(4) by (simp add: caps_def)
      from caps_still [OF this st _ Cons(2)] have c: "caps N ?s (set ps)" by (auto simp: caps_def)
      have q: "p0 \<in> set ps" using Cons(5-7) b True by auto
      then obtain m where "heap ?s p0 = Some (b0\<lparr>nshared := m\<rparr>)" using still_at [OF st _ Cons(6)] by auto
      from Cons(1) [OF h' n c q this] have run: "runs (acquire_walk ps) ?s (acquired X R N ?s)"
        using Cons(7) by (simp add: full_def)
      have "grows R s s'" by (rule grows_mono [OF still_grows [OF st]]) simp
      then have g: "grows R s ?s" by (simp add: grows_def)
      show "runs (bindp (upd (\<lambda>s. s\<lparr>block_head := ps, num_blocks := num_blocks s - 1\<rparr>))
          (\<lambda>_. acquire_walk ps)) s' (acquired X R N s)"
        unfolding runs_bindp_iff runs_upd
        by (rule runs_mono [OF run]) (auto simp: acquired_def intro: grows_trans [OF g])
    qed
    then show ?thesis using b True by (simp add: runs_bindp_iff runs_get_block)
  qed
qed simp

text \<open>What a source of blocks gives the stream: nothing, or an own block.\<close>

definition gives :: "addr set \<Rightarrow> bptr multiset \<Rightarrow> nat \<Rightarrow> io \<Rightarrow> bptr option \<Rightarrow> io \<Rightarrow> bool" where
  "gives X R N s r s' = (case r of None \<Rightarrow> io_ok X s' R \<and> grows R s s' | Some p \<Rightarrow> acquired X R N s p s')"

lemma create_block_gives:
  assumes "io_ok X s R" and "sizeof_Block < sz" and "sz \<le> 2 ^ 31" and "sz \<le> N"
  shows "runs (create_block sz) s (gives X R N s)"
proof -
  have h: "heap_ok X s (R + mset (block_head s))" "num_blocks s = int (length (block_head s))"
    using assms(1) by (simp_all add: io_ok_def)
  show ?thesis
  proof (rule runs_mono [OF create_block_ok [OF h(1) assms(2,3)]])
    fix r s' assume f: "fresh_block X sz (R + mset (block_head s)) s r s'"
    then have st: "still (R + mset (block_head s)) s s'" by (simp add: fresh_block_def)
    have "grows R s s'" "block_head s' = block_head s" "num_blocks s' = num_blocks s"
      using grows_weaken(2) [OF still_grows [OF st]] st by (simp_all add: still_def)
    then show "gives X R N s r s'"
      using f h assms(2,4) by (auto simp: gives_def fresh_block_def acquired_def io_ok_def split: option.splits)
  qed
qed

text \<open>\<open>Next\<close> can get a block: a new one may be made, or the chain is empty or has one with room.\<close>

definition chain_ready :: "nat \<Rightarrow> io \<Rightarrow> bool" where
  "chain_ready N s = (DEFAULT_BLOCK_SIZE \<le> N \<and> caps N s (set (block_head s)) \<and>
     (block_head s = [] \<or> (\<exists>p \<in> set (block_head s). \<exists>b. heap s p = Some b \<and> \<not> full b)))"

lemma acquire_tls_block_ok:
  assumes "io_ok X s R" and "chain_ready N s"
  shows "runs acquire_tls_block s (gives X R N s)"
proof (cases "block_head s")
  case Nil
  have "runs (create_block DEFAULT_BLOCK_SIZE) s (gives X R N s)"
    using assms by (intro create_block_gives) (simp_all add: chain_ready_def DEFAULT_BLOCK_SIZE_def sizeof_Block_def)
  then show ?thesis using Nil by (simp add: runs_def acquire_tls_block_def)
next
  case (Cons p ps)
  obtain q b where "q \<in> set (p # ps)" "heap s q = Some b" "\<not> full b"
    using assms(2) Cons by (auto simp: chain_ready_def)
  then have "runs (acquire_walk (p # ps)) s (acquired X R N s)"
    using assms Cons by (intro acquire_walk_ok) (auto simp: io_ok_def chain_ready_def add.commute)
  then have "runs (bindp (acquire_walk (p # ps)) (\<lambda>b. ret (Some b))) s (gives X R N s)"
    by (simp add: runs_bindp_iff gives_def del: acquire_walk.simps)
  then show ?thesis using Cons by (simp add: runs_def acquire_tls_block_def)
qed

definition next_ready :: "nat \<Rightarrow> io \<Rightarrow> out_stream \<Rightarrow> bool" where
  "next_ready N s st = ((case cur_block st of None \<Rightarrow> True | Some p \<Rightarrow> caps N s {p}) \<and>
     (if block_size st > 0 then sizeof_Block < block_size st \<and> block_size st \<le> N else chain_ready N s))"

lemma chain_ready_still:
  assumes "chain_ready N s" and "still (R + mset (block_head s)) s s'" and "io_ok X s R'"
  shows "chain_ready N s'"
proof -
  have bh: "block_head s' = block_head s" using assms(2) by (simp add: still_def)
  have h: "heap_ok X s (R' + mset (block_head s))" using assms(3) by (simp add: io_ok_def)
  have "caps N s' (set (block_head s))"
    by (rule caps_still [OF _ assms(2) _ h]) (use assms(1) in \<open>auto simp: chain_ready_def\<close>)
  moreover have "\<exists>b. heap s' p = Some b \<and> \<not> full b" if "p \<in> set (block_head s)" "heap s p = Some b" "\<not> full b" for p b
    using still_at [OF assms(2) _ that(2)] that by (auto simp: full_def)
  ultimately show ?thesis using assms(1) unfolding chain_ready_def bh by blast
qed

lemma release_block_ok:
  assumes "io_ok X s (srefs st + R)" and "\<And>p b. cur_block st = Some p \<Longrightarrow> heap s p = Some b \<Longrightarrow> full b"
  shows "runs (release_block st) s (\<lambda>st' s'. st' = st\<lparr>cur_block := None\<rparr> \<and> io_ok X s' R \<and> still (R + mset (block_head s)) s s')"
proof (cases "cur_block st")
  case None
  then show ?thesis using assms by (simp add: release_block_def srefs_def release_tls_block_def)
next
  case (Some p)
  then have h: "heap_ok X s (add_mset p (R + mset (block_head s)))" "num_blocks s = int (length (block_head s))"
    using assms(1) by (simp_all add: io_ok_def srefs_def)
  obtain b where b: "heap s p = Some b" using heap_okD(4) [OF h(1), of p] by auto
  have "runs (dec_ref p) s (\<lambda>_ s'. io_ok X s' R \<and> still (R + mset (block_head s)) s s')"
    by (rule runs_mono [OF dec_ref_ok [OF h(1)]]) (use h(2) in \<open>auto simp: io_ok_def still_def\<close>)
  then show ?thesis
    using Some b assms(2) [OF Some b]
    by (simp add: release_block_def runs_bindp_iff release_tls_block_def) (auto simp: runs_def bindp_def get_block_def)
qed

definition got :: "addr set \<Rightarrow> bptr multiset \<Rightarrow> nat \<Rightarrow> io \<Rightarrow> out_stream \<Rightarrow> out_stream \<Rightarrow> io \<Rightarrow> bool" where
  "got X R N s st st' s' = (block_size st' = block_size st \<and> out_count st' = out_count st \<and> gives X R N s (cur_block st') s')"

lemma other_block_ok:
  assumes "io_ok X s (srefs st + R)" and "next_ready N s st" and "N \<le> 2 ^ 31"
    and full: "\<And>p b. cur_block st = Some p \<Longrightarrow> heap s p = Some b \<Longrightarrow> full b"
  shows "runs (bindp (release_block st) (\<lambda>st'.
       bindp (if block_size st > 0 then create_block (block_size st) else acquire_tls_block)
         (\<lambda>r. ret (st'\<lparr>cur_block := r\<rparr>)))) s (got X R N s st)"
proof (rule runs_then)
  show "runs (release_block st) s (\<lambda>st' s'. st' = st\<lparr>cur_block := None\<rparr> \<and> io_ok X s' R \<and> still (R + mset (block_head s)) s s')"
    by (rule release_block_ok [OF assms(1)]) (rule full)
next
  fix st' s1 assume a: "st' = st\<lparr>cur_block := None\<rparr> \<and> io_ok X s1 R \<and> still (R + mset (block_head s)) s s1"
  then have io: "io_ok X s1 R" and still: "still (R + mset (block_head s)) s s1" and st': "st' = st\<lparr>cur_block := None\<rparr>" by auto
  have g: "grows R s s1" by (rule grows_weaken(2) [OF still_grows [OF still]])
  have "runs (if block_size st > 0 then create_block (block_size st) else acquire_tls_block) s1 (gives X R N s1)"
    using assms(2,3) create_block_gives [OF io, of "block_size st" N]
      acquire_tls_block_ok [OF io chain_ready_still [OF _ still assms(1)]] by (simp add: next_ready_def)
  then show "runs (bindp (if block_size st > 0 then create_block (block_size st) else acquire_tls_block)
         (\<lambda>r. ret (st'\<lparr>cur_block := r\<rparr>))) s1 (got X R N s st)"
    unfolding st'
    by (rule runs_then) (auto simp: got_def gives_def acquired_def intro: grows_trans [OF g] split: option.splits)
qed

lemma out_get_block_ok:
  assumes "io_ok X s (srefs st + R)" and "next_ready N s st" and "N \<le> 2 ^ 31"
  shows "runs (out_get_block st) s (got X R N s st)"
proof (cases "cur_block st")
  case None
  then show ?thesis using other_block_ok [OF assms] by (simp add: out_get_block_def Let_def)
next
  case (Some p)
  have h: "heap_ok X s (add_mset p (R + mset (block_head s)))" using assms(1) Some by (simp add: io_ok_def srefs_def)
  obtain b where b: "heap s p = Some b" using heap_okD(4) [OF h, of p] by auto
  have "got X R N s st st s" if "\<not> full b"
    using that Some b assms(1,2) by (simp add: got_def gives_def acquired_def srefs_def full_def next_ready_def caps_def)
  moreover have "\<And>q c. cur_block st = Some q \<Longrightarrow> heap s q = Some c \<Longrightarrow> full c" if "full b" using that Some b by simp
  ultimately show ?thesis
    using other_block_ok [OF assms] Some b by (simp add: out_get_block_def Let_def runs_bindp_iff runs_get_block)
qed

text \<open>\<open>Next\<close>: the space it hands out is the new end of the buffer.\<close>

definition handed :: "addr set \<Rightarrow> bptr multiset \<Rightarrow> io \<Rightarrow> IOBuf \<Rightarrow> out_stream \<Rightarrow> IOBuf \<times> out_stream \<times> (bptr \<times> nat \<times> nat) option \<Rightarrow> io \<Rightarrow> bool" where
  "handed X F s x st res s' = (case res of (x', st', c) \<Rightarrow>
     is_buf s' x' \<and> io_ok X s' (ptrs (brefs x') + (srefs st' + F)) \<and> grows F s s' \<and>
     (case c of None \<Rightarrow> btext s' x' = btext s x \<and> out_ByteCount st' = out_ByteCount st
      | Some (p, off, n) \<Rightarrow> 0 < n \<and> cur_block st' = Some p \<and> out_ByteCount st' = out_ByteCount st + int n \<and>
          btext s' x' = btext s x @ chunk s' (p, int off, int n) \<and> length (chunk s' (p, int off, int n)) = n))"

lemma hand_out_ok:
  assumes "is_buf s x" and "acquired X (ptrs (brefs x) + F) N s p s1" and "fits x N" and "cur_block st' = Some p"
    and "out_count st' = out_count st"
  shows "runs (bindp (get_block p) (\<lambda>b.
       let r = \<lparr>r_offset = bsize b, r_length = left_space b, r_block = Some p\<rparr> in
       bindp (put_block p (b\<lparr>bsize := bcap b\<rparr>)) (\<lambda>_.
         bindp (push_back_ref r x) (\<lambda>x'.
           ret (x', st'\<lparr>out_count := out_count st' + int (left_space b)\<rparr>, Some (p, bsize b, left_space b)))))) s1
     (handed X F s x st)"
proof -
  have io: "io_ok X s1 (ptrs (brefs x) + add_mset p F)" and g: "grows (ptrs (brefs x) + F) s s1"
    using assms(2) by (simp_all add: acquired_def)
  obtain b where b: "heap s1 p = Some b" "bsize b < bcap b" "bcap b \<le> N" using assms(2) by (auto simp: acquired_def)
  have h: "heap_ok X s1 (ptrs (brefs x) + add_mset p F + mset (block_head s1))" using io by (simp add: io_ok_def)
  have cap: "bcap b \<le> 2 ^ 31" using heap_okD(1) [OF h b(1)] by (simp add: block_ok_def)
  have ls: "left_space b = bcap b - bsize b" by (rule left_space_ok [OF b(2) cap])
  let ?b = "b\<lparr>bsize := bcap b\<rparr>" and ?n = "bcap b - bsize b"
  let ?s2 = "s1\<lparr>heap := (heap s1)(p := Some ?b)\<rparr>" and ?r = "\<lparr>r_offset = bsize b, r_length = ?n, r_block = Some p\<rparr>"
  have h2: "heap_ok X ?s2 (ptrs (brefs x) + add_mset p F + mset (block_head s1))" "grows (ptrs (brefs x) + add_mset p F) s1 ?s2"
    by (rule heap_ok_grows_update [OF h b(1)]; use b in simp)+
  then have io2: "io_ok X ?s2 (ptrs (brefs x) + add_mset p F)" using io by (simp add: io_ok_def)
  have g2: "grows (ptrs (brefs x) + F) s ?s2"
    by (rule grows_trans [OF g grows_mono [OF h2(2)]]) simp
  have x: "is_buf ?s2 x" "btext ?s2 x = btext s x" using is_buf_grows [OF assms(1) g2] by simp_all
  have r: "ref_fmt ?r" "ref_in ?s2 ?r" using b(2) cap by (simp_all add: ref_fmt_def ref_in_def)
  have fits: "fits x (r_length ?r)" using b(3) fits_mono [OF assms(3), of ?n] by simp
  have "runs (push_ref False ?r x) ?s2 (\<lambda>x' s'. is_buf s' x' \<and> io_ok X s' (ptrs (brefs x') + add_mset p F) \<and>
      grows F s s' \<and> btext s' x' = btext s x @ chunk s' (p, int (bsize b), int ?n) \<and> length (chunk s' (p, int (bsize b), int ?n)) = ?n)"
  proof (rule runs_mono [OF push_gen [OF x(1) r fits, of X False "add_mset p F"]], goal_cases)
    case (3 x' s')
    then have st: "still (ptrs (brefs x) + add_mset p F) ?s2 s'" by simp
    obtain m where m: "heap s' p = Some (?b\<lparr>nshared := m\<rparr>)" using still_at [OF st, of p ?b] by auto
    then have ch: "chunk s' (p, int (bsize b), int ?n) = rbytes ?s2 ?r" by (simp add: chunk_def rbytes_def)
    have "grows F s s'"
      by (rule grows_trans [OF grows_weaken(1) [OF g2] grows_mono [OF still_grows [OF st]]]) simp
    then show ?case using 3 x(2) ch length_rbytes [OF r(2)] by auto
  qed (use io2 in simp_all)
  then show ?thesis
    using assms(4,5) b ls by (simp add: runs_bindp_iff runs_get_block Let_def handed_def srefs_def out_ByteCount_def)
qed

section \<open>Properties\<close>

text \<open>C28: Reading a buffer through \<open>IOBufAsZeroCopyInputStream\<close> until \<open>Next\<close> returns false gives the
  buffer's bytes in order, and nothing in memory changes. \<open>Skip\<close> moves the stream on by the given number
  of bytes, at most to the end; its result is false where it reaches the end; \<open>ByteCount\<close> is the position.\<close>

theorem input_stream_reads_text:
  assumes "is_buf s x"
  shows "runs (bindp (ref_num x) (\<lambda>k. read_all (k + 1) x in_stream_new)) s
      (\<lambda>cs s'. s' = s \<and> concat (map (chunk s) cs) = btext s x) \<and>
    (\<forall>st n. in_ok x st \<longrightarrow> 0 \<le> n \<longrightarrow> runs (in_Skip n x st) s (\<lambda>(st', b) s'. s' = s \<and> in_ok x st' \<and>
       b = (in_ByteCount st + n < int (length (btext s x))) \<and>
       in_ByteCount st' = min (in_ByteCount st + n) (int (length (btext s x)))))"
proof -
  have x: "buf_ok x" using assms by (simp add: is_buf_def)
  have "runs (bindp (ref_num x) (\<lambda>k. read_all (k + 1) x in_stream_new)) s
      (\<lambda>cs s'. s' = s \<and> concat (map (chunk s) cs) = btext s x)"
    using read_all_ok [OF assms in_ok_new [OF x], of "length (brefs x) + 1"]
    by (simp add: ref_num_ok [OF x] in_stream_new_def del: read_all.simps)
  moreover have "runs (in_Skip n x st) s (\<lambda>(st', b) s'. s' = s \<and> in_ok x st' \<and>
       b = (in_ByteCount st + n < int (length (btext s x))) \<and>
       in_ByteCount st' = min (in_ByteCount st + n) (int (length (btext s x))))" if "in_ok x st" "0 \<le> n" for st n
    using skip_loop_ok [OF assms that, of "length (brefs x) - ref_index st + 1"]
    by (simp add: in_Skip_def ref_num_ok [OF x] in_ByteCount_def del: skip_loop.simps)
  ultimately show ?thesis by blast
qed

theorem input_stream_reads_text_witness:
  "\<exists>s x. btext s x = demo_bytes \<and> runs (bindp (ref_num x) (\<lambda>k. read_all (k + 1) x in_stream_new)) s
      (\<lambda>cs s'. s' = s \<and> concat (map (chunk s) cs) = demo_bytes) \<and>
    runs (in_Skip 2 x in_stream_new) s (\<lambda>(st, b) s'. s' = s \<and> b \<and> in_ByteCount st = 2)"
proof -
  obtain s x where x: "is_buf s x" "btext s x = demo_bytes" using demo_append by blast
  have ok: "in_ok x in_stream_new" using x(1) by (intro in_ok_new) (simp add: is_buf_def)
  note read = input_stream_reads_text [OF x(1)]
  have "runs (in_Skip 2 x in_stream_new) s (\<lambda>(st, b) s'. s' = s \<and> b \<and> in_ByteCount st = 2)"
    using read ok x(2) by (auto simp: in_ByteCount_def in_stream_new_def demo_bytes_def elim!: allE [of _ in_stream_new] allE [of _ 2] runs_mono)
  then show ?thesis using read x(2) by (intro exI [of _ s] exI [of _ x]) simp
qed

text \<open>C29: Protobuf may give back up to all bytes of the last \<open>Next\<close>. The condition of \<open>LOG_IF(FATAL, ...)\<close>
  in \<open>BackUp\<close> is the one that every such call meets, so each of them ends the process.\<close>

theorem in_BackUp_aborts:
  assumes "is_buf s x" and "in_ok x st" and "in_Next x st s = Inr ((st', Some (p, off, sz)), s)"
    and "0 \<le> n" and "n \<le> sz"
  shows "in_BackUp n x st' s = Inl Aborted"
proof -
  have x: "buf_ok x" using assms(1) by (simp add: is_buf_def)
  have i: "ref_index st < length (brefs x)"
    using assms(3) x by (auto simp: in_Next_def pref_at_ok ret_def bindp_def split: if_splits)
  let ?r = "brefs x ! ref_index st"
  note at = at_ref [OF assms(1,2) i]
  obtain b where b: "heap s (the (r_block ?r)) = Some b" using at(2) by (auto simp: ref_in_def)
  have "ref_index st' = ref_index st + 1 \<and> add_offset st' = 0 \<and> sz = int (r_length ?r) - add_offset st"
    using assms(3) i x b at(3-5)
    by (auto simp: in_Next_def pref_at_ok runs_on_block [OF at(1)] get_block_def bindp_def ret_def Let_def)
  then show ?thesis
    using assms(4,5) at(4,5) i x by (simp add: in_BackUp_def pref_at_ok crash_def)
qed

theorem in_BackUp_aborts_witness:
  "\<exists>s x st. in_Next x in_stream_new s = Inr ((st, Some (demo_block, 0, 5)), s) \<and> in_BackUp 3 x st s = Inl Aborted"
proof -
  obtain s x where x: "is_buf s x" "btext s x = demo_bytes" "brefs x = [\<lparr>r_offset = 0, r_length = 5, r_block = Some demo_block\<rparr>]"
    using demo_append by blast
  have ok: "buf_ok x" "in_ok x in_stream_new" using x(1) in_ok_new [of x] by (simp_all add: is_buf_def)
  obtain b where "heap s demo_block = Some b" using x(1,3) by (auto simp: is_buf_def ref_in_def)
  then obtain st where st: "in_Next x in_stream_new s = Inr ((st, Some (demo_block, 0, 5)), s)"
    using ok(1) x(3)
    by (simp add: in_Next_def pref_at_ok in_stream_new_def on_block_def get_block_def bindp_def ret_def Let_def)
  show ?thesis using in_BackUp_aborts [OF x(1) ok(2) st, of 3] st by auto
qed

text \<open>C30: \<open>acquire_tls_block\<close> takes a block with room out of the thread's chain, or makes one where the chain is
  empty; the caller owns it. Where every block of the chain is full its loop runs off the end of the chain
  and follows a null pointer.\<close>

theorem acquire_tls_block_outcome:
  assumes "io_ok X s R"
  shows "(chain_ready N s \<longrightarrow> runs acquire_tls_block s (gives X R N s)) \<and>
    (block_head s \<noteq> [] \<and> (\<forall>p \<in> set (block_head s). \<exists>b. heap s p = Some b \<and> full b) \<longrightarrow> acquire_tls_block s = Inl NullDeref)"
  using acquire_tls_block_ok [OF assms] acquire_tls_block_null [OF assms] by blast

theorem acquire_tls_block_outcome_witness:
  "runs acquire_tls_block demo_io (gives {} {#} 8192 demo_io) \<and>
   (\<exists>s. block_head s = [demo_block] \<and> acquire_tls_block s = Inl NullDeref)"
proof -
  have "chain_ready 8192 demo_io" by (simp add: chain_ready_def demo_io_def caps_def DEFAULT_BLOCK_SIZE_def)
  then have "runs acquire_tls_block demo_io (gives {} {#} 8192 demo_io)"
    using acquire_tls_block_outcome [OF demo_io_ok] by blast
  moreover obtain s where s: "heap s demo_block = Some (new_Block (2 ^ 30 + 2 ^ 28 + 32) 8160 (\<lambda>_. 0))" "heap_ok {} s {#demo_block#}"
    using demo_create by blast
  let ?b = "new_Block (2 ^ 30 + 2 ^ 28 + 32) 8160 (\<lambda>_. 0)\<lparr>bsize := 8160\<rparr>"
  let ?s = "s\<lparr>heap := (heap s)(demo_block := Some ?b)\<rparr>\<lparr>block_head := [demo_block], num_blocks := 1\<rparr>"
  have "heap_ok {} (s\<lparr>heap := (heap s)(demo_block := Some ?b)\<rparr>) (mset [demo_block] + {#})"
    using heap_ok_update [OF s(2,1), of ?b] by (simp add: block_ok_def new_Block_def)
  then have "io_ok {} ?s {#}" by (rule io_ok_chain) simp
  from acquire_tls_block_outcome [OF this] have "acquire_tls_block ?s = Inl NullDeref"
    by (simp add: full_def new_Block_def)
  moreover have "block_head ?s = [demo_block]" by simp
  ultimately show ?thesis by blast
qed



end
