(* ===== verification/IOBuf_Contract.thy ===== *)
theory IOBuf_Contract
  imports IOBuf_Streams
begin

text \<open>
  What the users of \<open>IOBuf\<close> rely on: the locale \<open>byte_buffer\<close> sees several buffers as strings of
  bytes. It is interpreted on the operations of the model, for any other references \<open>F\<close> and blocks
  \<open>X\<close>. The theorems on the operations of the buffer follow.
\<close>

section \<open>The interface\<close>

text \<open>\<open>ok s bs\<close>: the buffers \<open>bs\<close> are owned by the caller in state \<open>s\<close>. An operation on one buffer
  leaves the text of the others.\<close>

locale byte_buffer =
  fixes ok :: "'s \<Rightarrow> 'b list \<Rightarrow> bool"
    and str :: "'s \<Rightarrow> 'b \<Rightarrow> byte list"
    and empty_buf :: 'b
    and len :: "'b \<Rightarrow> ('s, nat) prog"
    and copy :: "nat \<Rightarrow> nat \<Rightarrow> 'b \<Rightarrow> ('s, byte list) prog"
    and cut :: "nat \<Rightarrow> 'b \<Rightarrow> 'b \<Rightarrow> ('s, 'b \<times> 'b \<times> nat) prog"
    and destroy :: "'b \<Rightarrow> ('s, 'b) prog"
  assumes order: "ok s bs \<Longrightarrow> mset bs = mset bs' \<Longrightarrow> ok s bs'"
    and new_buf: "ok s bs \<Longrightarrow> ok s (empty_buf # bs)" "str s empty_buf = []"
    and len_str: "ok s (x # bs) \<Longrightarrow> runs (len x) s (\<lambda>n s'. s' = s \<and> n = length (str s x))"
    and copy_str: "ok s (x # bs) \<Longrightarrow> runs (copy n pos x) s (\<lambda>d s'. s' = s \<and> d = take n (drop pos (str s x)))"
    and cut_str: "ok s (x # empty_buf # bs) \<Longrightarrow> n < 2 ^ 30 \<Longrightarrow> n \<le> length (str s x) \<Longrightarrow>
      runs (cut n x empty_buf) s (\<lambda>(x', y', k) s'. ok s' (x' # y' # bs) \<and> str s' x' = drop n (str s x) \<and>
        str s' y' = take n (str s x) \<and> k = n \<and> (\<forall>b \<in> set bs. str s' b = str s b))"
    and destroy_str: "ok s (x # bs) \<Longrightarrow> runs (destroy x) s (\<lambda>_ s'. ok s' bs \<and> (\<forall>b \<in> set bs. str s' b = str s b))"
begin

text \<open>Cutting twice splits the text in three.\<close>

lemma cut_twice:
  assumes "ok s (x # bs)" and "m < 2 ^ 30" and "n < 2 ^ 30" and "m + n \<le> length (str s x)"
  shows "runs (bindp (cut m x empty_buf) (\<lambda>(x1, y, _). bindp (cut n x1 empty_buf) (\<lambda>(x2, z, _). ret (x2, y, z)))) s
    (\<lambda>(x2, y, z) s'. ok s' (x2 # z # y # bs) \<and> str s x = str s' y @ str s' z @ str s' x2 \<and>
       length (str s' y) = m \<and> length (str s' z) = n)"
proof -
  have "ok s (x # empty_buf # bs)" by (rule order [OF new_buf(1) [OF assms(1)]]) simp
  note c1 = cut_str [OF this assms(2)]
  have three: "t = take m t @ take n (drop m t) @ drop (n + m) t" for t :: "byte list"
    by (metis append_take_drop_id drop_drop)
  show ?thesis
  proof (rule runs_then [OF c1], use assms in simp, clarsimp)
    fix x1 y s1 assume s1: "ok s1 (x1 # y # bs)" "str s1 x1 = drop m (str s x)" "str s1 y = take m (str s x)"
    have "ok s1 (x1 # empty_buf # y # bs)" by (rule order [OF new_buf(1) [OF s1(1)]]) simp
    note c2 = cut_str [OF this assms(3)]
    show "runs (bindp (cut n x1 empty_buf) (\<lambda>(x2, z, _). ret (x2, y, z))) s1 (\<lambda>(x2, y, z) s'. ok s' (x2 # z # y # bs) \<and>
       str s x = str s' y @ str s' z @ str s' x2 \<and> length (str s' y) = m \<and> length (str s' z) = n)"
      by (rule runs_then [OF c2], use assms s1 in simp, clarsimp simp: s1(2,3)) (use assms three in simp)
  qed
qed

end

section \<open>IOBuf is one\<close>

definition iobufs :: "addr set \<Rightarrow> bptr multiset \<Rightarrow> io \<Rightarrow> IOBuf list \<Rightarrow> bool" where
  "iobufs X F s bs = ((\<forall>b \<in> set bs. is_buf s b) \<and> io_ok X s (ptrs (concat (map brefs bs)) + F))"

lemma iobufs_Cons: "iobufs X F s (x # bs) = (is_buf s x \<and> iobufs X (ptrs (brefs x) + F) s bs)"
  by (auto simp: iobufs_def ac_simps)

lemma iobufs_frame:
  assumes "still (ptrs (concat (map brefs bs)) + F) s s'" and "\<forall>b \<in> set bs. is_buf s b"
  shows "\<forall>b \<in> set bs. is_buf s' b \<and> btext s' b = btext s b"
proof
  fix b assume b: "b \<in> set bs"
  then obtain as cs where "bs = as @ b # cs" by (auto dest: split_list)
  then have "ptrs (brefs b) \<subseteq># ptrs (concat (map brefs bs)) + F" by (simp add: ac_simps)
  then show "is_buf s' b \<and> btext s' b = btext s b"
    using is_buf_grows [OF _ still_grows [OF assms(1)]] assms(2) b by blast
qed

lemma ptrs_concat_mset: "ptrs (concat (map brefs bs)) = (\<Sum>b \<in># mset bs. ptrs (brefs b))"
  by (induction bs) simp_all

lemma iobufs_cut:
  assumes "iobufs X F s (x # IOBuf_new # bs)" and "n < 2 ^ 30" and "n \<le> length (btext s x)"
  shows "runs (cutn_buf n x IOBuf_new) s (\<lambda>(x', y', k) s'. iobufs X F s' (x' # y' # bs) \<and> btext s' x' = drop n (btext s x) \<and>
        btext s' y' = take n (btext s x) \<and> k = n \<and> (\<forall>b \<in> set bs. btext s' b = btext s b))"
proof -
  let ?P = "ptrs (concat (map brefs bs)) + F"
  have b: "is_buf s x" "is_buf s IOBuf_new" "\<forall>b \<in> set bs. is_buf s b" using assms(1) by (simp_all add: iobufs_def)
  have io: "io_ok X s (ptrs (brefs x) + ptrs (brefs IOBuf_new) + ?P)"
    using assms(1) by (simp add: iobufs_def ac_simps)
  have f: "fits IOBuf_new (min n (length (btext s x)))" using assms(2) by (auto simp: fits_def IOBuf_new_ok min_less_iff_disj)
  show ?thesis
    by (rule runs_mono [OF cutn_buf_runs [OF b(1,2) io f]])
      (use b(3) assms(3) in \<open>auto simp: iobufs_def IOBuf_new_ok add.assoc dest: iobufs_frame\<close>)
qed

lemma iobufs_destroy:
  assumes "iobufs X F s (x # bs)"
  shows "runs (IOBuf_clear x) s (\<lambda>_ s'. iobufs X F s' bs \<and> (\<forall>b \<in> set bs. btext s' b = btext s b))"
proof -
  let ?P = "ptrs (concat (map brefs bs)) + F"
  have "holds X s x ?P" using assms by (simp add: iobufs_def holds_is_buf ac_simps)
  then show ?thesis
    by (rule runs_mono [OF clear_runs])
      (use assms in \<open>auto simp: iobufs_def holds_is_buf IOBuf_new_ok dest: iobufs_frame\<close>)
qed

interpretation iobuf: byte_buffer "iobufs X F" btext IOBuf_new IOBuf_length copy_to cutn_buf IOBuf_clear
  for X F
proof
  fix s x bs n
  show "iobufs X F s bs \<Longrightarrow> mset bs = mset bs' \<Longrightarrow> iobufs X F s bs'" for bs'
    by (metis iobufs_def ptrs_concat_mset mset_eq_setD)
  show "iobufs X F s bs \<Longrightarrow> iobufs X F s (IOBuf_new # bs)" "btext s IOBuf_new = []"
    by (simp_all add: iobufs_def IOBuf_new_ok is_buf_def)
  show "iobufs X F s (x # bs) \<Longrightarrow> runs (IOBuf_length x) s (\<lambda>n s'. s' = s \<and> n = length (btext s x))"
    by (auto simp: iobufs_def is_buf_def IOBuf_length_ok length_content)
  show "iobufs X F s (x # bs) \<Longrightarrow> runs (copy_to n pos x) s (\<lambda>d s'. s' = s \<and> d = take n (drop pos (btext s x)))" for pos
    by (rule copy_to_runs [of X _ _ "ptrs (concat (map brefs bs)) + F"]) (simp add: iobufs_def holds_is_buf ac_simps)
qed (rule iobufs_cut iobufs_destroy; assumption)+

section \<open>No block is lost\<close>

lemma clear_tls_block_chain_ok:
  assumes "io_ok X s R"
  shows "runs clear_tls_block_chain s (\<lambda>_ s'. io_ok X s' R \<and> block_head s' = [])"
proof -
  let ?s = "s\<lparr>block_head := []\<rparr>"
  have "heap_ok X ?s (mset (block_head s) + R)"
    using assms by (simp add: io_ok_def heap_ok_def pool_blocks_def add.commute)
  from dec_all_ok [OF this]
  have "runs (bindp (dec_all (block_head s)) (\<lambda>_. upd (\<lambda>s. s\<lparr>num_blocks := 0\<rparr>))) ?s (\<lambda>_ s'. io_ok X s' R \<and> block_head s' = [])"
    by (rule runs_then) (auto simp: io_ok_def still_def heap_ok_def pool_blocks_def)
  then show ?thesis by (simp add: clear_tls_block_chain_def runs_def)
qed

lemma heap_ok_empty: "heap_ok X s {#} \<Longrightarrow> heap s = (\<lambda>_. None) \<and> pool_ok (io_pool s) X"
proof -
  assume h: "heap_ok X s {#}"
  have "heap s p = None" for p using heap_okD(3) [OF h, of p] by (cases "heap s p") auto
  then show ?thesis using heap_okD(5) [OF h] by (auto simp: pool_blocks_def)
qed

section \<open>Properties\<close>

text \<open>C21: A buffer is a queue of bytes. Appending \<open>bs\<close> and then cutting \<open>n\<close> bytes into memory gives the
  first \<open>n\<close> bytes of the old text followed by \<open>bs\<close>, and the buffer keeps the rest; the counts stay right.
  If the pool has no block left, \<open>append\<close> returns -1.\<close>

theorem append_cut_roundtrip:
  assumes "is_buf s x" and "io_ok X s (ptrs (brefs x) + F)" and "fits x (length bs)"
  shows "runs (bindp (append_data (Some bs) x) (\<lambda>(x', e).
      if e = 0 then bindp (cutn_mem n x') (\<lambda>(x'', d). ret (Some (x'', d))) else ret None)) s
    (\<lambda>r s'. case r of None \<Rightarrow> True
     | Some (x'', d) \<Rightarrow> d = take n (btext s x @ bs) \<and> btext s' x'' = drop n (btext s x @ bs) \<and>
         holds X s' x'' F \<and> grows F s s')"
proof (rule runs_then [OF append_data_ok [OF assms]], clarify)
  fix x' e s1 assume a: "append_all X F s x bs (x', e) s1"
  show "runs (if e = 0 then bindp (cutn_mem n x') (\<lambda>(x'', d). ret (Some (x'', d))) else ret None) s1
    (\<lambda>r s'. case r of None \<Rightarrow> True | Some (x'', d) \<Rightarrow> d = take n (btext s x @ bs) \<and>
       btext s' x'' = drop n (btext s x @ bs) \<and> holds X s' x'' F \<and> grows F s s')"
  proof (cases "e = 0")
    case True
    then have x': "holds X s1 x' F" "btext s1 x' = btext s x @ bs" "grows F s s1"
      using a by (auto simp: append_all_def appended_def holds_is_buf)
    have "runs (bindp (cutn_mem n x') (\<lambda>(x'', d). ret (Some (x'', d)))) s1
      (\<lambda>r s'. case r of None \<Rightarrow> True | Some (x'', d) \<Rightarrow> d = take n (btext s x @ bs) \<and>
       btext s' x'' = drop n (btext s x @ bs) \<and> holds X s' x'' F \<and> grows F s s')"
      by (rule runs_then [OF cutn_mem_runs [OF x'(1)]])
        (use x'(2,3) in \<open>auto intro: grows_trans still_grows\<close>)
    then show ?thesis using True by simp
  qed simp
qed

theorem append_cut_roundtrip_witness:
  "\<exists>s x. append_data (Some demo_bytes) IOBuf_new demo_io = Inr ((x, 0), s) \<and>
     runs (cutn_mem 2 x) s (\<lambda>(x', d) s'. d = [104, 101] \<and> btext s' x' = [108, 108, 111])"
proof -
  obtain s x where x: "append_data (Some demo_bytes) IOBuf_new demo_io = Inr ((x, 0), s)" using demo_append by blast
  have "is_buf demo_io IOBuf_new" "fits IOBuf_new (length demo_bytes)" "io_ok {} demo_io (ptrs (brefs IOBuf_new) + {#})"
    using demo_io_ok IOBuf_new_ok by (simp_all add: is_buf_def fits_def demo_bytes_def)
  from append_cut_roundtrip [OF this(1,3,2), of 2] x show ?thesis
    by (auto simp: runs_def bindp_def ret_def demo_bytes_def IOBuf_new_ok split: sum.splits)
qed

text \<open>C22: \<open>cutn\<close> moves the first \<open>n\<close> bytes, or all there are, from one buffer to the end of another and
  returns their number. No byte is copied: the blocks keep their content, and other owners see no change.\<close>

theorem cutn_buf_moves:
  assumes "is_buf s x" and "is_buf s out" and "io_ok X s (ptrs (brefs x) + ptrs (brefs out) + F)"
    and "fits out (min n (length (btext s x)))"
  shows "runs (cutn_buf n x out) s (\<lambda>(x', out', k) s'. is_buf s' x' \<and> is_buf s' out' \<and>
     io_ok X s' (ptrs (brefs x') + ptrs (brefs out') + F) \<and> btext s' x' = drop n (btext s x) \<and>
     btext s' out' = btext s out @ take n (btext s x) \<and> k = min n (length (btext s x)) \<and> still F s s')"
  by (rule cutn_buf_runs [OF assms])

theorem cutn_buf_moves_witness:
  "\<exists>s x. btext s x = demo_bytes \<and> runs (cutn_buf 3 x IOBuf_new) s
     (\<lambda>(x', y, k) s'. k = 3 \<and> btext s' x' = [108, 111] \<and> btext s' y = [104, 101, 108])"
proof -
  obtain s x where x: "is_buf s x" "io_ok {} s (ptrs (brefs x))" "btext s x = demo_bytes" using demo_append by blast
  have "is_buf s IOBuf_new" "io_ok {} s (ptrs (brefs x) + ptrs (brefs IOBuf_new) + {#})"
    "fits IOBuf_new (min 3 (length (btext s x)))"
    using x IOBuf_new_ok by (simp_all add: is_buf_def fits_def demo_bytes_def)
  from cutn_buf_moves [OF x(1) this] have "runs (cutn_buf 3 x IOBuf_new) s
     (\<lambda>(x', y, k) s'. k = 3 \<and> btext s' x' = [108, 111] \<and> btext s' y = [104, 101, 108])"
    by (rule runs_mono) (auto simp: x(3) demo_bytes_def IOBuf_new_ok)
  then show ?thesis using x(3) by blast
qed

text \<open>C23: \<open>equals\<close> decides whether two buffers hold the same bytes, however their blocks divide them, and
  changes nothing. Its loop ends: each round leaves at least one reference behind.\<close>

theorem IOBuf_equals_iff_same_text:
  assumes "is_buf s x" and "is_buf s y"
  shows "runs (IOBuf_equals x y) s (\<lambda>e s'. s' = s \<and> e = (btext s x = btext s y))"
  by (rule IOBuf_equals_ok [OF assms])

theorem IOBuf_equals_iff_same_text_witness:
  "\<exists>s x. btext s x = demo_bytes \<and> IOBuf_equals x x s = Inr (True, s) \<and> IOBuf_equals x IOBuf_new s = Inr (False, s)"
proof -
  obtain s x where x: "is_buf s x" "btext s x = demo_bytes" using demo_append by blast
  have n: "is_buf s IOBuf_new" using IOBuf_new_ok by (simp add: is_buf_def)
  have "IOBuf_equals x x s = Inr (True, s)" "IOBuf_equals x IOBuf_new s = Inr (False, s)"
    using IOBuf_equals_iff_same_text [OF x(1) x(1)] IOBuf_equals_iff_same_text [OF x(1) n] x(2)
    by (auto simp: runs_iff IOBuf_new_ok demo_bytes_def)
  then show ?thesis using x(2) by blast
qed





text \<open>C33: The constructor of the output stream accepts a block size above the offset of \<open>data\<close>, and
  \<open>create_block\<close> subtracts the size of the header. Between the two the capacity wraps around to about
  4 GiB, far beyond the memory of the block.\<close>

theorem small_block_size_wraps:
  assumes "offsetof_data < n" and "n < sizeof_Block"
    and "BlockAllocate (io_self s) (io_env s (io_calls s) (io_pool s)) n (io_pool s) = Inr (Some a, q)"
  shows "out_stream_new (Some n) \<noteq> None \<and> runs (create_block n) s
    (\<lambda>r s'. r = Some (InPool a) \<and> (\<exists>b. heap s' (InPool a) = Some b \<and> bcap b = 2 ^ 32 - (sizeof_Block - n)))"
proof -
  have "(int n - 32) mod 2 ^ 32 = (int n - 32 + 2 ^ 32) mod 2 ^ 32" by (rule mod_add_self2 [symmetric])
  also have "\<dots> = int n - 32 + 2 ^ 32" using assms(2) by (intro mod_pos_pos_trivial) (simp_all add: sizeof_Block_def)
  finally have "nat ((int n - int sizeof_Block) mod 2 ^ 32) = 2 ^ 32 - (sizeof_Block - n)"
    using assms(2) by (simp add: sizeof_Block_def)
  then show ?thesis
    using assms by (simp add: out_stream_new_def create_block_def runs_def Let_def new_Block_def offsetof_data_def sizeof_Block_def)
qed

theorem small_block_size_wraps_witness:
  "out_stream_new (Some 28) \<noteq> None \<and> runs (create_block 28) demo_io
    (\<lambda>r s'. r = Some demo_block \<and> (\<exists>b. heap s' demo_block = Some b \<and> bcap b = 2 ^ 32 - 4))"
proof -
  obtain q where "BlockAllocate 3 demo_full 28 demo_pool = Inr (Some (2 ^ 30 + 2 ^ 28), q)"
    by (simp add: BlockAllocate_def AllocBlockFrom_def refill_def MoveExpansionList2EmptyIdleList_def
      take_block_def bindp_def ret_def Let_def demo_defs add_region_def empty_info_def bucket_node_def
      g_block_size_def pool_consts)
  then show ?thesis
    using small_block_size_wraps [of 28 demo_io] by (simp add: offsetof_data_def sizeof_Block_def demo_io_def)
qed

end
