(* ===== verification/Message_Framing.thy ===== *)
theory Message_Framing
  imports IOBuf_Contract
begin

text \<open>
  \<open>src-endpoint/message_dispatcher.cc\<close>: complete frames are cut from the input of an endpoint, and
  each is handed to a thread that runs the handler. A frame starts with its total length in network
  byte order. The buffer is used through the interface \<open>byte_buffer\<close>; the operations are arguments,
  and the dispatcher of the library is their instance on \<open>IOBuf\<close>.
\<close>

section \<open>The dispatcher\<close>

definition kFrameHeaderBytes :: nat where "kFrameHeaderBytes = 12"

record ('s, 'b) buffer_ops =
  op_empty :: 'b
  op_length :: "'b \<Rightarrow> ('s, nat) prog"
  op_copy_to :: "nat \<Rightarrow> nat \<Rightarrow> 'b \<Rightarrow> ('s, byte list) prog"
  op_cutn :: "nat \<Rightarrow> 'b \<Rightarrow> 'b \<Rightarrow> ('s, 'b \<times> 'b \<times> nat) prog"
  op_destroy :: "'b \<Rightarrow> ('s, 'b) prog"

text \<open>The result is the input, the frame and the return code; a code of -1 goes with \<open>EPROTO\<close>.\<close>

definition cut_input_message :: "('s, 'b) buffer_ops \<Rightarrow> 'b \<Rightarrow> 'b \<Rightarrow> ('s, 'b \<times> 'b \<times> int) prog" where
  "cut_input_message ops read_buf frame = bindp (op_length ops read_buf) (\<lambda>n.
     if n < 4 then ret (read_buf, frame, 0)
     else bindp (op_copy_to ops 4 0 read_buf) (\<lambda>be.
       let total_len = unat (ntohl (unle32 be)) in
       if total_len < kFrameHeaderBytes then ret (read_buf, frame, -1)
       else if n < total_len then ret (read_buf, frame, 0)
       else bindp (op_cutn ops total_len read_buf frame) (\<lambda>(read_buf', frame', _). ret (read_buf', frame', 1))))"

text \<open>What the loop meets at the \<open>i\<close>-th frame: whether the endpoint has failed by then, and whether
  a thread can be started.\<close>

record dispatch_env =
  ep_failed :: "nat \<Rightarrow> bool"
  no_thread :: "nat \<Rightarrow> bool"

text \<open>The frames given to threads are returned in order; a frame that is not handed over is destroyed.
  Each round of the loop cuts a frame of at least the size of a header, so the length of the input
  bounds the rounds.\<close>

fun process_loop :: "('s, 'b) buffer_ops \<Rightarrow> dispatch_env \<Rightarrow> nat \<Rightarrow> 'b \<Rightarrow> 'b list \<Rightarrow> ('s, 'b \<times> 'b list \<times> int) prog" where
  "process_loop ops e 0 read_buf fs = crash Diverges"
| "process_loop ops e (Suc fuel) read_buf fs =
     bindp (cut_input_message ops read_buf (op_empty ops)) (\<lambda>(read_buf', frame, rc).
       if rc < 0 then bindp (op_destroy ops frame) (\<lambda>_. ret (read_buf', fs, -1))
       else if rc = 0 then bindp (op_destroy ops frame) (\<lambda>_. ret (read_buf', fs, int (length fs)))
       else if ep_failed e (length fs) \<or> no_thread e (length fs)
       then bindp (op_destroy ops frame) (\<lambda>_. ret (read_buf', fs, -1))
       else process_loop ops e fuel read_buf' (fs @ [frame]))"

definition process_new_message :: "('s, 'b) buffer_ops \<Rightarrow> dispatch_env \<Rightarrow> bool \<Rightarrow> 'b \<Rightarrow> ('s, 'b \<times> 'b list \<times> int) prog" where
  "process_new_message ops e has_handler read_buf =
     (if \<not> has_handler then ret (read_buf, [], 0)
      else bindp (op_length ops read_buf) (\<lambda>n. process_loop ops e (Suc n) read_buf []))"

definition iobuf_ops :: "(io, IOBuf) buffer_ops" where
  "iobuf_ops = \<lparr>op_empty = IOBuf_new, op_length = IOBuf_length, op_copy_to = copy_to, op_cutn = cutn_buf,
     op_destroy = IOBuf_clear\<rparr>"

definition CutInputMessage :: "IOBuf \<Rightarrow> IOBuf \<Rightarrow> (io, IOBuf \<times> IOBuf \<times> int) prog" where
  "CutInputMessage = cut_input_message iobuf_ops"

definition ProcessNewMessage :: "dispatch_env \<Rightarrow> bool \<Rightarrow> IOBuf \<Rightarrow> (io, IOBuf \<times> IOBuf list \<times> int) prog" where
  "ProcessNewMessage = process_new_message iobuf_ops"

section \<open>Frames of a byte string\<close>

text \<open>The specification: what stands at the front of the input, and the frames of the whole input with
  the rest and whether an invalid length was met.\<close>

datatype front = Incomplete | Invalid | Frame nat

definition front_frame :: "byte list \<Rightarrow> front" where
  "front_frame bs =
     (if length bs < 4 then Incomplete
      else let n = unat (ntohl (unle32 (take 4 bs))) in
        if n < kFrameHeaderBytes then Invalid else if length bs < n then Incomplete else Frame n)"

lemma front_frame_bounds: "front_frame bs = Frame n \<Longrightarrow> kFrameHeaderBytes \<le> n \<and> n \<le> length bs"
  by (auto simp: front_frame_def Let_def split: if_splits)

function split_frames :: "byte list \<Rightarrow> byte list list \<times> byte list \<times> bool" where
  "split_frames bs = (case front_frame bs of
     Incomplete \<Rightarrow> ([], bs, False)
   | Invalid \<Rightarrow> ([], bs, True)
   | Frame n \<Rightarrow> (case split_frames (drop n bs) of (fs, rest, e) \<Rightarrow> (take n bs # fs, rest, e)))"
  by auto
termination
  by (relation "measure length") (auto dest!: front_frame_bounds simp: kFrameHeaderBytes_def)

declare split_frames.simps [simp del]

text \<open>A frame on the wire.\<close>

definition encode_frame :: "byte list \<Rightarrow> byte list" where
  "encode_frame payload = be32 (of_nat (length payload + 4)) @ payload"

lemma front_frame_encode:
  assumes "8 \<le> length p" and "length p + 4 < 2 ^ 32"
  shows "front_frame (encode_frame p @ rest) = Frame (length p + 4)"
proof -
  have "unat (of_nat (length p + 4) :: u32) = length p + 4"
    using assms(2) by (simp add: unat_of_nat take_bit_nat_eq_self_iff del: of_nat_add)
  then show ?thesis
    using assms(1) by (simp add: front_frame_def encode_frame_def kFrameHeaderBytes_def Let_def)
qed

lemma split_frames_append:
  assumes "split_frames a = (fs, r, False)"
  shows "split_frames (a @ b) = (case split_frames (r @ b) of (gs, r', e) \<Rightarrow> (fs @ gs, r', e))"
  using assms
proof (induction a arbitrary: fs rule: split_frames.induct)
  case (1 a)
  show ?case
  proof (cases "front_frame a")
    case Incomplete
    then show ?thesis using 1(2) by (simp add: split_frames.simps [of a] split: prod.splits)
  next
    case Invalid
    then show ?thesis using 1(2) by (simp add: split_frames.simps [of a])
  next
    case (Frame n)
    then obtain gs where gs: "split_frames (drop n a) = (gs, r, False)" "fs = take n a # gs"
      using 1(2) by (auto simp: split_frames.simps [of a] split: prod.splits)
    have n: "kFrameHeaderBytes \<le> n" "n \<le> length a" using front_frame_bounds [OF Frame] by auto
    then have "front_frame (a @ b) = Frame n"
      using Frame by (auto simp: front_frame_def Let_def kFrameHeaderBytes_def split: if_splits)
    then show ?thesis
      using 1(1) [OF Frame gs(1)] gs(2) n by (simp add: split_frames.simps [of "a @ b"] split: prod.splits)
  qed
qed

lemma split_frames_error:
  "split_frames a = (fs, r, True) \<Longrightarrow> split_frames (a @ b) = (fs, r @ b, True)"
proof (induction a arbitrary: fs rule: split_frames.induct)
  case (1 a)
  show ?case
  proof (cases "front_frame a")
    case Incomplete
    then show ?thesis using 1(2) by (simp add: split_frames.simps [of a])
  next
    case Invalid
    then have "front_frame (a @ b) = Invalid" by (auto simp: front_frame_def Let_def split: if_splits)
    then show ?thesis using 1(2) Invalid by (auto simp: split_frames.simps [of a] split_frames.simps [of "r @ b"])
  next
    case (Frame n)
    then obtain gs where gs: "split_frames (drop n a) = (gs, r, True)" "fs = take n a # gs"
      using 1(2) by (auto simp: split_frames.simps [of a] split: prod.splits)
    have n: "kFrameHeaderBytes \<le> n" "n \<le> length a" using front_frame_bounds [OF Frame] by auto
    then have "front_frame (a @ b) = Frame n"
      using Frame by (auto simp: front_frame_def Let_def kFrameHeaderBytes_def split: if_splits)
    then show ?thesis
      using 1(1) [OF Frame gs(1)] gs(2) n by (simp add: split_frames.simps [of "a @ b"])
  qed
qed

text \<open>The dispatcher on a byte string: frames are handed over until the input ends, a length is invalid,
  or the endpoint has failed or no thread can be had. In the last case the frame at hand is lost.\<close>

function dispatch :: "dispatch_env \<Rightarrow> nat \<Rightarrow> byte list \<Rightarrow> byte list list \<times> byte list \<times> int" where
  "dispatch e k bs = (case front_frame bs of
     Incomplete \<Rightarrow> ([], bs, int k)
   | Invalid \<Rightarrow> ([], bs, -1)
   | Frame n \<Rightarrow> if ep_failed e k \<or> no_thread e k then ([], drop n bs, -1)
       else (case dispatch e (Suc k) (drop n bs) of (fs, rest, c) \<Rightarrow> (take n bs # fs, rest, c)))"
  by auto
termination
  by (relation "measure (\<lambda>(e, k, bs). length bs)") (auto dest!: front_frame_bounds simp: kFrameHeaderBytes_def)

declare dispatch.simps [simp del]

lemma dispatch_all:
  "(\<And>i. \<not> ep_failed e i \<and> \<not> no_thread e i) \<Longrightarrow>
   dispatch e k bs = (case split_frames bs of (fs, rest, err) \<Rightarrow> (fs, rest, if err then -1 else int (k + length fs)))"
proof (induction bs arbitrary: k rule: split_frames.induct)
  case (1 bs)
  show ?case
    using 1 by (cases "front_frame bs") (auto simp: dispatch.simps [of e k bs] split_frames.simps [of bs] split: prod.splits)
qed

section \<open>The dispatcher implements it\<close>

context byte_buffer
begin

lemma cut_input_ok:
  assumes "ok s (x # bs)" and "length (str s x) < 2 ^ 30"
  shows "runs (cut_input_message \<lparr>op_empty = empty_buf, op_length = len, op_copy_to = copy, op_cutn = cut, op_destroy = destroy\<rparr>
      x empty_buf) s (\<lambda>(x', f, rc) s'. ok s' (x' # f # bs) \<and> (\<forall>b \<in> set bs. str s' b = str s b) \<and>
     (case front_frame (str s x) of
        Incomplete \<Rightarrow> rc = 0 \<and> str s' x' = str s x
      | Invalid \<Rightarrow> rc = -1 \<and> str s' x' = str s x
      | Frame n \<Rightarrow> rc = 1 \<and> str s' x' = drop n (str s x) \<and> str s' f = take n (str s x)))"
proof -
  let ?n = "unat (ntohl (unle32 (take 4 (str s x))))"
  have ok: "ok s (x # empty_buf # bs)" by (rule order [OF new_buf(1) [OF assms(1)]]) simp
  have cut: "runs (cut ?n x empty_buf) s (\<lambda>(x', y', k) s'. ok s' (x' # y' # bs) \<and> str s' x' = drop ?n (str s x) \<and>
        str s' y' = take ?n (str s x) \<and> k = ?n \<and> (\<forall>b \<in> set bs. str s' b = str s b))" if "?n \<le> length (str s x)"
    by (rule cut_str [OF ok]) (use assms(2) that in auto)
  have l: "len x s = Inr (length (str s x), s)" using len_str [OF assms(1)] by (auto simp: runs_iff)
  have c: "copy 4 0 x s = Inr (take 4 (str s x), s)" using copy_str [OF assms(1), of 4 0] by (auto simp: runs_iff)
  show ?thesis
    using cut ok by (auto simp: cut_input_message_def runs_def bindp_def l c ret_def front_frame_def Let_def split: sum.splits)
qed

lemma process_loop_ok:
  "ok s (x # fs) \<Longrightarrow> length (str s x) < 2 ^ 30 \<Longrightarrow> length (str s x) < fuel \<Longrightarrow>
   dispatch e (length fs) (str s x) = (gs, rest, c) \<Longrightarrow>
     runs (process_loop \<lparr>op_empty = empty_buf, op_length = len, op_copy_to = copy, op_cutn = cut, op_destroy = destroy\<rparr>
       e fuel x fs) s (\<lambda>(x', fs', c') s'. ok s' (x' # fs') \<and> map (str s') fs' = map (str s) fs @ gs \<and>
       str s' x' = rest \<and> c' = c)"
proof (induction fuel arbitrary: s x fs gs)
  case (Suc fuel)
  let ?ops = "\<lparr>op_empty = empty_buf, op_length = len, op_copy_to = copy, op_cutn = cut, op_destroy = destroy\<rparr>"
  let ?Q = "\<lambda>(x', fs', c') s'. ok s' (x' # fs') \<and> map (str s') fs' = map (str s) fs @ gs \<and> str s' x' = rest \<and> c' = c"
  show ?case
    unfolding process_loop.simps buffer_ops.simps
  proof (rule runs_then [OF cut_input_ok [OF Suc(2,3)]], clarify)
    fix x' f s1 and rc :: int
    assume ok1: "ok s1 (x' # f # fs)" and keep: "\<forall>b \<in> set fs. str s1 b = str s b"
      and fr: "case front_frame (str s x) of Incomplete \<Rightarrow> rc = 0 \<and> str s1 x' = str s x
        | Invalid \<Rightarrow> rc = -1 \<and> str s1 x' = str s x
        | Frame n \<Rightarrow> rc = 1 \<and> str s1 x' = drop n (str s x) \<and> str s1 f = take n (str s x)"
    have "ok s1 (f # x' # fs)" by (rule order [OF ok1]) simp
    note dst = destroy_str [OF this]
    show "runs (if rc < 0 then bindp (destroy f) (\<lambda>_. ret (x', fs, -1))
       else if rc = 0 then bindp (destroy f) (\<lambda>_. ret (x', fs, int (length fs)))
       else if ep_failed e (length fs) \<or> no_thread e (length fs)
       then bindp (destroy f) (\<lambda>_. ret (x', fs, -1))
       else process_loop ?ops e fuel x' (fs @ [f])) s1 ?Q"
    proof (cases "front_frame (str s x)")
      case (Frame n)
      have n: "0 < n" "n \<le> length (str s x)" using front_frame_bounds [OF Frame] by (auto simp: kFrameHeaderBytes_def)
      show ?thesis
      proof (cases "ep_failed e (length fs) \<or> no_thread e (length fs)")
        case True
        then show ?thesis
          using Frame fr keep Suc(5)
          by (auto simp: runs_bindp_iff dispatch.simps [of _ _ "str s x"] intro!: runs_mono [OF dst])
      next
        case False
        obtain hs where hs: "dispatch e (Suc (length fs)) (drop n (str s x)) = (hs, rest, c)" "gs = take n (str s x) # hs"
          using Suc(5) Frame False by (auto simp: dispatch.simps [of _ _ "str s x"] split: prod.splits)
        have ok2: "ok s1 (x' # fs @ [f])" by (rule order [OF ok1]) simp
        have run: "runs (process_loop ?ops e fuel x' (fs @ [f])) s1 (\<lambda>(x'', fs', c') s'. ok s' (x'' # fs') \<and>
           map (str s') fs' = map (str s1) (fs @ [f]) @ hs \<and> str s' x'' = rest \<and> c' = c)"
          using Suc(3,4) fr Frame n hs(1) by (intro Suc(1) [OF ok2]) auto
        have "map (str s1) (fs @ [f]) @ hs = map (str s) fs @ gs" using keep fr Frame hs(2) by simp
        from run [unfolded this] show ?thesis using fr Frame False by simp
      qed
    qed (use fr keep Suc(5) in \<open>auto simp: runs_bindp_iff dispatch.simps [of _ _ "str s x"] intro!: runs_mono [OF dst]\<close>)
  qed
qed simp

end

lemma ProcessNewMessage_ok:
  assumes "iobufs X F s [x]" and "length (btext s x) < 2 ^ 30" and "dispatch e 0 (btext s x) = (gs, rest, c)"
  shows "runs (ProcessNewMessage e True x) s (\<lambda>(x', fs, c') s'. iobufs X F s' (x' # fs) \<and>
     map (btext s') fs = gs \<and> btext s' x' = rest \<and> c' = c)"
proof -
  have "IOBuf_length x s = Inr (length (btext s x), s)"
    using iobuf.len_str [OF assms(1)] by (auto simp: runs_iff)
  then show ?thesis
    using iobuf.process_loop_ok [OF assms(1,2), of "Suc (length (btext s x))" e gs rest c] assms(3)
    by (simp add: ProcessNewMessage_def process_new_message_def iobuf_ops_def runs_def bindp_def del: process_loop.simps)
qed

lemma split_frames_encode:
  "\<forall>p \<in> set ps. 8 \<le> length p \<and> length p + 4 < 2 ^ 32 \<Longrightarrow> front_frame rest = Incomplete \<Longrightarrow>
     split_frames (concat (map encode_frame ps) @ rest) = (map encode_frame ps, rest, False)"
proof (induction ps)
  case Nil
  then show ?case by (simp add: split_frames.simps [of rest])
next
  case (Cons p ps)
  have len: "length (encode_frame p) = length p + 4" by (simp add: encode_frame_def)
  have "front_frame (encode_frame p @ concat (map encode_frame ps) @ rest) = Frame (length p + 4)"
    using Cons(2) by (intro front_frame_encode) auto
  then show ?case
    using Cons len by (simp add: split_frames.simps [of "encode_frame p @ _"])
qed

section \<open>Properties\<close>

text \<open>C20: \<open>ProcessNewMessage\<close> on a buffer does what the specification \<open>dispatch\<close> does on its bytes: the same
  frames in the same order go to the handler, the same rest stays, and the same code is returned. The
  input, the frames and everything else keep consistent counts.\<close>

theorem ProcessNewMessage_refines_dispatch:
  assumes "iobufs X F s [x]" and "length (btext s x) < 2 ^ 30"
  shows "runs (ProcessNewMessage e True x) s (\<lambda>(x', fs, c) s'. iobufs X F s' (x' # fs) \<and>
     dispatch e 0 (btext s x) = (map (btext s') fs, btext s' x', c))"
proof -
  obtain gs rest c where d: "dispatch e 0 (btext s x) = (gs, rest, c)" by (cases "dispatch e 0 (btext s x)")
  show ?thesis by (rule runs_mono [OF ProcessNewMessage_ok [OF assms d]]) (auto simp: d)
qed

definition demo_up :: dispatch_env where
  "demo_up = \<lparr>ep_failed = (\<lambda>_. False), no_thread = (\<lambda>_. False)\<rparr>"

lemma demo_iobufs: "\<exists>s x. iobufs {} {#} s [x] \<and> btext s x = demo_bytes"
  using demo_append by (auto simp: iobufs_def)

theorem ProcessNewMessage_refines_dispatch_witness:
  "\<exists>s x. btext s x = demo_bytes \<and> runs (ProcessNewMessage demo_up True x) s (\<lambda>(x', fs, c) s'.
     fs = [] \<and> btext s' x' = demo_bytes \<and> c = 0)"
proof -
  obtain s x where x: "iobufs {} {#} s [x]" "btext s x = demo_bytes" using demo_iobufs by blast
  have "unat (ntohl (unle32 [104, 101, 108, 108])) = 1751477356"
    by (simp add: ntohl_def le32_def push_bit_eq_mult drop_bit_eq_div)
  then have "front_frame demo_bytes = Incomplete" by (simp add: front_frame_def demo_bytes_def kFrameHeaderBytes_def)
  then have "dispatch demo_up 0 demo_bytes = ([], demo_bytes, 0)" by (simp add: dispatch.simps [of _ _ demo_bytes])
  moreover have "length (btext s x) < 2 ^ 30" by (simp add: x(2) demo_bytes_def)
  ultimately have "runs (ProcessNewMessage demo_up True x) s (\<lambda>(x', fs, c) s'. fs = [] \<and> btext s' x' = demo_bytes \<and> c = 0)"
    using ProcessNewMessage_refines_dispatch [OF x(1), of demo_up] x(2) by (auto elim!: runs_mono)
  then show ?thesis using x(2) by blast
qed

text \<open>C19: Frames survive the wire. Whatever frames of at least a header's length the sender concatenates, with
  the start of another frame behind them, the receiver hands over exactly these frames, in order, returns
  their number and keeps the rest. It does not matter how the bytes arrive: when \<open>a\<close> came first and left
  \<open>r\<close>, then processing \<open>r\<close> with the new bytes completes the frames of the whole input.\<close>

theorem frames_survive_the_wire:
  assumes "\<forall>p \<in> set ps. 8 \<le> length p \<and> length p + 4 < 2 ^ 32" and "front_frame rest = Incomplete"
    and "a @ b = concat (map encode_frame ps) @ rest" and "split_frames a = (fs, r, err)"
    and "iobufs X F s [x]" and "btext s x = r @ b" and "length (r @ b) < 2 ^ 30"
    and "\<And>i. \<not> ep_failed e i \<and> \<not> no_thread e i"
  shows "runs (ProcessNewMessage e True x) s (\<lambda>(x', gs, c) s'. fs @ map (btext s') gs = map encode_frame ps \<and>
     btext s' x' = rest \<and> c = int (length gs))"
proof -
  have all: "split_frames (a @ b) = (map encode_frame ps, rest, False)"
    unfolding assms(3) by (rule split_frames_encode [OF assms(1,2)])
  have "\<not> err" using split_frames_error [of a fs r b] assms(4) all by auto
  then obtain gs where gs: "split_frames (r @ b) = (gs, rest, False)" "fs @ gs = map encode_frame ps"
    using split_frames_append [of a fs r b] assms(4) all by (auto split: prod.splits)
  then have "dispatch e 0 (btext s x) = (gs, rest, int (length gs))"
    using dispatch_all [OF assms(8), of 0 "r @ b"] assms(6) by simp
  from ProcessNewMessage_ok [OF assms(5) _ this] show ?thesis
    using assms(6,7) gs(2) by (auto elim!: runs_mono)
qed

theorem frames_survive_the_wire_witness:
  "\<exists>s x. btext s x = encode_frame (replicate 8 7) @ [0, 0] \<and> runs (ProcessNewMessage demo_up True x) s (\<lambda>(x', gs, c) s'.
     map (btext s') gs = [encode_frame (replicate 8 7)] \<and> btext s' x' = [0, 0] \<and> c = 1)"
proof -
  let ?bs = "encode_frame (replicate 8 7) @ [0, 0]"
  have len: "length ?bs = 14" by (simp add: encode_frame_def)
  obtain s x where x: "iobufs {} {#} s [x]" "btext s x = ?bs"
    using demo_append_any [of ?bs] len by (auto simp: iobufs_def)
  have "split_frames [] = ([], [], False)" by (simp add: split_frames.simps [of "[]"] front_frame_def)
  moreover have "front_frame [0, 0] = Incomplete" by (simp add: front_frame_def)
  ultimately have "runs (ProcessNewMessage demo_up True x) s (\<lambda>(x', gs, c) s'. [] @ map (btext s') gs =
       map encode_frame [replicate 8 7] \<and> btext s' x' = [0, 0] \<and> c = int (length gs))"
    using x len by (intro frames_survive_the_wire [where a = "[]" and b = ?bs and r = "[]" and err = False]) (simp_all add: demo_up_def)
  then have "runs (ProcessNewMessage demo_up True x) s (\<lambda>(x', gs, c) s'.
     map (btext s') gs = [encode_frame (replicate 8 7)] \<and> btext s' x' = [0, 0] \<and> c = 1)"
    by (rule runs_mono) auto
  then show ?thesis using x(2) by blast
qed

end
