(* ===== verification/Versioned_Ref.thy ===== *)
theory Versioned_Ref
  imports Prelude
begin

text \<open>
  \<open>inc/versioned_ref_with_id.h\<close>: objects that are found by an identifier, counted, and recycled by
  whoever drops the last reference. One 64 bit word holds a version and the count. The model is one
  slot of the resource pool and any number of threads; a step is one atomic operation of one thread.

  \<open>_this_id\<close> and \<open>_additional_ref_status\<close> are only read by a thread that has a reference of the current
  object or creates it, so the stores of \<open>Create\<close> to them are joined with its \<open>fetch_add\<close>. A step that adds
  a reference needs less than \<open>2 ^ 31 - 1\<close> of them, and a creation a version below \<open>2 ^ 32 - 3\<close>: the
  identifiers of a slot are told apart until its version wraps around.
\<close>

section \<open>The two words\<close>

type_synonym VRefId = u64

definition MakeVRefId :: "u32 \<Rightarrow> u32 \<Rightarrow> VRefId" where
  "MakeVRefId version slot = push_bit 32 (ucast version) OR ucast slot"

definition SlotOfVRefId :: "VRefId \<Rightarrow> u32" where
  "SlotOfVRefId vref_id = ucast (vref_id AND 0xFFFFFFFF)"

definition VersionOfVRefId :: "VRefId \<Rightarrow> u32" where
  "VersionOfVRefId vref_id = ucast (drop_bit 32 vref_id)"

definition VersionOfVRef :: "u64 \<Rightarrow> u32" where
  "VersionOfVRef vref = ucast (drop_bit 32 vref)"

definition NRefOfVRef :: "u64 \<Rightarrow> u32" where
  "NRefOfVRef vref = ucast (vref AND 0xFFFFFFFF)"

definition MakeVRef :: "u32 \<Rightarrow> u32 \<Rightarrow> u64" where
  "MakeVRef version nref = push_bit 32 (ucast version) OR ucast nref"

section \<open>State\<close>

datatype AdditionalRefStatus = ADDITIONAL_REF_USING | ADDITIONAL_REF_REVIVING | ADDITIONAL_REF_RECYCLED

text \<open>Where a thread is. \<open>SLoad\<close>, \<open>SCas\<close> and \<open>RCas\<close> are in \<open>SetFailed\<close>; their flag marks the thread
  whose creation failed, which has no reference of its own. \<open>DSub\<close> drops the additional reference.
  \<open>Cas\<close> is about to recycle, with the expected word and the version to set.\<close>

datatype pc = Idle | CFetch | COnCreated | AUndo u32 | Cas u64 u32 | Return | SLoad bool | SCas bool u64
  | RCas bool | DSub | Abort

record thread =
  pc :: pc
  held :: nat

text \<open>The slot. \<open>pooled\<close> is whether the resource pool has it, \<open>ids\<close> are the identifiers that \<open>Create\<close>
  has returned. \<open>live\<close>, \<open>created\<close> and \<open>recycled\<close> record what happened: the version of the object in the
  slot, how many were created, and how many times \<open>BeforeRecycled\<close> was called.\<close>

record vstate =
  versioned_ref :: u64
  this_id :: VRefId
  additional_ref_status :: AdditionalRefStatus
  pooled :: bool
  ids :: "VRefId list"
  live :: "nat option"
  created :: nat
  recycled :: nat
  threads :: "thread list"

definition slot_init :: "nat \<Rightarrow> vstate" where
  "slot_init n = \<lparr>versioned_ref = 0, this_id = 0, additional_ref_status = ADDITIONAL_REF_USING, pooled = True, ids = [],
     live = None, created = 0, recycled = 0, threads = replicate n \<lparr>pc = Idle, held = 0\<rparr>\<rparr>"

section \<open>Atomic steps\<close>

text \<open>A step of a thread: the thread's state and the slot afterwards, or \<open>None\<close> where it cannot be taken.\<close>

type_synonym vact = "thread \<Rightarrow> vstate \<Rightarrow> (thread \<times> vstate) option"

definition room :: "vstate \<Rightarrow> bool" where
  "room s = (unat (NRefOfVRef (versioned_ref s)) < 2 ^ 31 - 1)"

text \<open>\<open>Create\<close>: take the slot from the pool, count the additional reference, run \<open>OnCreated\<close>.\<close>

definition create_get :: vact where
  "create_get t s = (if pc t = Idle \<and> pooled s then Some (t\<lparr>pc := CFetch\<rparr>, s\<lparr>pooled := False\<rparr>) else None)"

definition create_fetch :: "u32 \<Rightarrow> vact" where
  "create_fetch slot t s =
     (let v = versioned_ref s; ver = VersionOfVRef v in
      if pc t = CFetch \<and> room s \<and> unat ver < 2 ^ 32 - 3
      then Some (t\<lparr>pc := COnCreated\<rparr>, s\<lparr>versioned_ref := v + 1, this_id := MakeVRefId ver slot,
        additional_ref_status := ADDITIONAL_REF_USING, live := Some (unat ver), created := created s + 1\<rparr>)
      else None)"

definition create_done :: "bool \<Rightarrow> vact" where
  "create_done success t s =
     (if pc t = COnCreated then
        (if success then Some (t\<lparr>pc := Idle\<rparr>, s\<lparr>ids := this_id s # ids s\<rparr>)
         else Some (t\<lparr>pc := SLoad True\<rparr>, s))
      else None)"

text \<open>\<open>AddressImpl\<close>: count first, then compare versions; undo where they differ.\<close>

definition address :: "VRefId \<Rightarrow> bool \<Rightarrow> vact" where
  "address vid failed_as_well t s =
     (if pc t = Idle \<and> vid \<in> set (ids s) \<and> room s then
        (let vref1 = versioned_ref s; ver1 = VersionOfVRef vref1; s' = s\<lparr>versioned_ref := vref1 + 1\<rparr> in
         if ver1 = VersionOfVRefId vid \<or> failed_as_well \<and> ver1 = VersionOfVRefId vid + 1
         then Some (t\<lparr>held := held t + 1\<rparr>, s')
         else Some (t\<lparr>pc := AUndo ver1\<rparr>, s'))
      else None)"

definition address_undo :: vact where
  "address_undo t s = (case pc t of
     AUndo ver1 \<Rightarrow>
       (let vref2 = versioned_ref s; nref = NRefOfVRef vref2; ver2 = VersionOfVRef vref2;
            s' = s\<lparr>versioned_ref := vref2 - 1\<rparr> in
        if sint nref > 1 then Some (t\<lparr>pc := Idle\<rparr>, s')
        else if nref = 1 then
          (if ver2 AND 1 \<noteq> 0 then
             (if ver1 = ver2 \<or> ver1 + 1 = ver2 then Some (t\<lparr>pc := Cas (vref2 - 1) (ver2 + 1)\<rparr>, s')
              else Some (t\<lparr>pc := Abort\<rparr>, s'))
           else Some (t\<lparr>pc := Idle\<rparr>, s'))
        else Some (t\<lparr>pc := Abort\<rparr>, s'))
   | _ \<Rightarrow> None)"

text \<open>The compare-exchange of \<open>Dereference\<close> and of \<open>AddressImpl\<close>, and \<open>return_resource\<close>.\<close>

definition recycle_cas :: vact where
  "recycle_cas t s = (case pc t of
     Cas expected ver \<Rightarrow>
       if versioned_ref s = expected
       then Some (t\<lparr>pc := Return\<rparr>, s\<lparr>versioned_ref := MakeVRef ver 0, live := None, recycled := recycled s + 1\<rparr>)
       else Some (t\<lparr>pc := Idle\<rparr>, s)
   | _ \<Rightarrow> None)"

definition return_slot :: vact where
  "return_slot t s = (if pc t = Return then Some (t\<lparr>pc := Idle\<rparr>, s\<lparr>pooled := True\<rparr>) else None)"

definition ReAddress :: vact where
  "ReAddress t s = (if pc t = Idle \<and> held t > 0 \<and> room s
     then Some (t\<lparr>held := held t + 1\<rparr>, s\<lparr>versioned_ref := versioned_ref s + 1\<rparr>) else None)"

text \<open>\<open>Dereference\<close>; \<open>t\<close> is the thread with its reference already gone.\<close>

definition Dereference :: "thread \<Rightarrow> vstate \<Rightarrow> thread \<times> vstate" where
  "Dereference t s =
     (let vref = versioned_ref s; nref = NRefOfVRef vref; ver = VersionOfVRef vref;
          id_ver = VersionOfVRefId (this_id s); s' = s\<lparr>versioned_ref := vref - 1\<rparr> in
      if sint nref > 1 then (t\<lparr>pc := Idle\<rparr>, s')
      else if nref = 1 then
        (if ver = id_ver \<or> ver = id_ver + 1 then (t\<lparr>pc := Cas (vref - 1) (id_ver + 2)\<rparr>, s')
         else (t\<lparr>pc := Abort\<rparr>, s'))
      else (t\<lparr>pc := Abort\<rparr>, s'))"

definition drop_ref :: vact where
  "drop_ref t s = (if pc t = Idle \<and> held t > 0 then Some (Dereference (t\<lparr>held := held t - 1\<rparr>) s) else None)"

definition drop_additional :: vact where
  "drop_additional t s = (if pc t = DSub then Some (Dereference t s) else None)"

text \<open>\<open>SetFailed\<close>, called through a reference.\<close>

definition set_failed_call :: vact where
  "set_failed_call t s = (if pc t = Idle \<and> held t > 0 then Some (t\<lparr>pc := SLoad False\<rparr>, s) else None)"

definition set_failed_load :: vact where
  "set_failed_load t s = (case pc t of
     SLoad cr \<Rightarrow> if VersionOfVRef (versioned_ref s) \<noteq> VersionOfVRefId (this_id s) then Some (t\<lparr>pc := Idle\<rparr>, s)
       else Some (t\<lparr>pc := SCas cr (versioned_ref s)\<rparr>, s)
   | _ \<Rightarrow> None)"

definition set_failed_cas :: vact where
  "set_failed_cas t s = (case pc t of
     SCas cr vref \<Rightarrow>
       if versioned_ref s = vref
       then Some (t\<lparr>pc := RCas cr\<rparr>, s\<lparr>versioned_ref := MakeVRef (VersionOfVRefId (this_id s) + 1) (NRefOfVRef vref)\<rparr>)
       else Some (t\<lparr>pc := SLoad cr\<rparr>, s)
   | _ \<Rightarrow> None)"

text \<open>\<open>ReleaseAdditionalReference\<close>, from \<open>SetFailed\<close> or through a reference; it waits while the object is
  being revived.\<close>

definition release_call :: vact where
  "release_call t s = (if pc t = Idle \<and> held t > 0 then Some (t\<lparr>pc := RCas False\<rparr>, s) else None)"

definition release_additional :: vact where
  "release_additional t s = (case pc t of
     RCas cr \<Rightarrow> (case additional_ref_status s of
         ADDITIONAL_REF_USING \<Rightarrow> Some (t\<lparr>pc := DSub\<rparr>, s\<lparr>additional_ref_status := ADDITIONAL_REF_RECYCLED\<rparr>)
       | ADDITIONAL_REF_REVIVING \<Rightarrow> Some (t, s)
       | ADDITIONAL_REF_RECYCLED \<Rightarrow> Some (t\<lparr>pc := Idle\<rparr>, s))
   | _ \<Rightarrow> None)"

definition Failed :: "vstate \<Rightarrow> bool" where
  "Failed s = (VersionOfVRef (versioned_ref s) \<noteq> VersionOfVRefId (this_id s))"

section \<open>Runs\<close>

datatype action = Get | Fetch u32 | Done bool | Addr VRefId bool | Undo | Recycle | Ret | ReAddr | Drop | DropAdditional
  | FailCall | FailLoad | FailCas | ReleaseCall | Release

primrec vact :: "action \<Rightarrow> vact" where
  "vact Get = create_get"
| "vact (Fetch slot) = create_fetch slot"
| "vact (Done b) = create_done b"
| "vact (Addr vid b) = address vid b"
| "vact Undo = address_undo"
| "vact Recycle = recycle_cas"
| "vact Ret = return_slot"
| "vact ReAddr = ReAddress"
| "vact Drop = drop_ref"
| "vact DropAdditional = drop_additional"
| "vact FailCall = set_failed_call"
| "vact FailLoad = set_failed_load"
| "vact FailCas = set_failed_cas"
| "vact ReleaseCall = release_call"
| "vact Release = release_additional"

definition vstep :: "nat \<Rightarrow> action \<Rightarrow> vstate \<Rightarrow> vstate option" where
  "vstep i a s = (if i < length (threads s) then
       (case vact a (threads s ! i) s of None \<Rightarrow> None | Some (t, s') \<Rightarrow> Some (s'\<lparr>threads := (threads s')[i := t]\<rparr>))
     else None)"

inductive reachable :: "nat \<Rightarrow> vstate \<Rightarrow> bool" for n where
  init: "reachable n (slot_init n)"
| step: "reachable n s \<Longrightarrow> vstep i a s = Some s' \<Longrightarrow> reachable n s'"

fun vrun :: "(nat \<times> action) list \<Rightarrow> vstate \<Rightarrow> vstate option" where
  "vrun [] s = Some s"
| "vrun ((i, a) # as) s = (case vstep i a s of None \<Rightarrow> None | Some s' \<Rightarrow> vrun as s')"

section \<open>The words\<close>

definition enc :: "nat \<Rightarrow> nat \<Rightarrow> u64" where
  "enc v n = of_nat (v * 2 ^ 32 + n)"

lemma unat_enc: "v < 2 ^ 32 \<Longrightarrow> n < 2 ^ 32 \<Longrightarrow> unat (enc v n) = v * 2 ^ 32 + n"
  by (simp add: enc_def unat_of_nat take_bit_nat_eq_self_iff del: of_nat_add of_nat_mult)

lemma VersionOfVRef_enc [simp]: "v < 2 ^ 32 \<Longrightarrow> n < 2 ^ 32 \<Longrightarrow> VersionOfVRef (enc v n) = of_nat v"
  unfolding VersionOfVRef_def
  by (rule word_unat_eq_iff [THEN iffD2], simp only: unsigned_ucast_eq unsigned_drop_bit_eq unat_enc unat_of_nat)
    (simp add: drop_bit_eq_div take_bit_eq_mod)

lemma mask32: "(w :: u64) AND 0xFFFFFFFF = take_bit 32 w"
  by (simp add: take_bit_eq_mask mask_eq_exp_minus_1)

lemma NRefOfVRef_enc [simp]: "v < 2 ^ 32 \<Longrightarrow> n < 2 ^ 32 \<Longrightarrow> NRefOfVRef (enc v n) = of_nat n"
  unfolding mask32 NRefOfVRef_def
  by (rule word_unat_eq_iff [THEN iffD2], simp only: unsigned_ucast_eq unsigned_take_bit_eq unat_enc unat_of_nat)
    (simp add: take_bit_eq_mod)

lemma MakeVRef_enc:
  assumes "v < 2 ^ 32" and "n < 2 ^ 32"
  shows "MakeVRef (of_nat v) (of_nat n) = enc v n"
proof -
  have up: "ucast (of_nat k :: u32) = (of_nat k :: u64)" if "k < 2 ^ 32" for k
    using that by (intro word_unat_eq_iff [THEN iffD2]) (simp add: unsigned_ucast_eq unat_of_nat take_bit_nat_eq_self_iff)
  have "MakeVRef (of_nat v) (of_nat n) = push_bit 32 (ucast (of_nat v :: u32)) + (ucast (of_nat n :: u32) :: u64)"
    unfolding MakeVRef_def by (rule disjunctive_add [symmetric]) (auto simp: bit_simps dest: bit_imp_le_length)
  then show ?thesis unfolding up [OF assms(1)] up [OF assms(2)] by (simp add: enc_def push_bit_eq_mult)
qed

lemma MakeVRefId_MakeVRef: "MakeVRefId = MakeVRef" "VersionOfVRefId = VersionOfVRef"
  by (simp_all add: fun_eq_iff MakeVRefId_def MakeVRef_def VersionOfVRefId_def VersionOfVRef_def)

lemma VersionOfVRefId_Make [simp]: "VersionOfVRefId (MakeVRefId ver slot) = ver"
proof -
  have "ver = of_nat (unat ver)" "slot = of_nat (unat slot)" "unat ver < 2 ^ 32" "unat slot < 2 ^ 32"
    using unsigned_less [of ver] unsigned_less [of slot] by simp_all
  then show ?thesis unfolding MakeVRefId_MakeVRef by (metis MakeVRef_enc VersionOfVRef_enc)
qed

lemma enc_inj: 
  assumes "v < 2 ^ 32" "n < 2 ^ 32" "v' < 2 ^ 32" "n' < 2 ^ 32"
  shows "enc v n = enc v' n' \<longleftrightarrow> v = v' \<and> n = n'"
proof -
  have "enc v n = enc v' n' \<Longrightarrow> v * 2 ^ 32 + n = v' * 2 ^ 32 + n'" using unat_enc assms by metis
  then have "enc v n = enc v' n' \<Longrightarrow> (v * 2 ^ 32 + n) div 2 ^ 32 = (v' * 2 ^ 32 + n') div 2 ^ 32 \<and>
      (v * 2 ^ 32 + n) mod 2 ^ 32 = (v' * 2 ^ 32 + n') mod 2 ^ 32" by simp
  then show ?thesis using assms by auto
qed

lemma enc_plus [simp]: "enc v n + 1 = enc v (Suc n)" "enc v (Suc n) - 1 = enc v n"
  by (simp_all add: enc_def)

lemma sint_small: "n < 2 ^ 31 \<Longrightarrow> sint (of_nat n :: u32) = int n"
  by (simp add: signed_of_nat signed_take_bit_int_eq_self_iff)

lemma of_nat_eq32: "m < 2 ^ 32 \<Longrightarrow> n < 2 ^ 32 \<Longrightarrow> (of_nat m :: u32) = of_nat n \<longleftrightarrow> m = n"
  by (simp add: word_of_nat_eq_iff take_bit_eq_mod)

lemma unat_of_nat32: "m < 2 ^ 32 \<Longrightarrow> unat (of_nat m :: u32) = m"
  by (simp add: unat_of_nat take_bit_nat_eq_self_iff)

lemma odd32: "(of_nat n :: u32) AND 1 = of_bool (odd n)"
  by (simp add: and_one_eq mod2_eq_if even_of_nat)

section \<open>The invariant\<close>

text \<open>References in flight: those of a thread, the one it added while addressing, the additional one it is
  about to drop. A thread that has the slot outside the pool without an object in it. A thread that creates.\<close>

fun flight :: "pc \<Rightarrow> nat" where
  "flight (AUndo _) = 1"
| "flight DSub = 1"
| "flight _ = 0"

fun dsub :: "pc \<Rightarrow> nat" where
  "dsub DSub = 1"
| "dsub _ = 0"

fun moving :: "pc \<Rightarrow> nat" where
  "moving CFetch = 1"
| "moving Return = 1"
| "moving _ = 0"

fun creating :: "pc \<Rightarrow> nat" where
  "creating COnCreated = 1"
| "creating (SLoad cr) = of_bool cr"
| "creating (SCas cr _) = of_bool cr"
| "creating (RCas cr) = of_bool cr"
| "creating _ = 0"

definition total :: "(thread \<Rightarrow> nat) \<Rightarrow> thread list \<Rightarrow> nat" where
  "total f ts = sum_list (map f ts)"

abbreviation n_held :: "thread list \<Rightarrow> nat" where "n_held \<equiv> total held"
abbreviation n_flight :: "thread list \<Rightarrow> nat" where "n_flight \<equiv> total (\<lambda>t. flight (pc t))"
abbreviation n_dsub :: "thread list \<Rightarrow> nat" where "n_dsub \<equiv> total (\<lambda>t. dsub (pc t))"
abbreviation n_moving :: "thread list \<Rightarrow> nat" where "n_moving \<equiv> total (\<lambda>t. moving (pc t))"
abbreviation n_creating :: "thread list \<Rightarrow> nat" where "n_creating \<equiv> total (\<lambda>t. creating (pc t))"

lemma total_upd: "i < length ts \<Longrightarrow> total f (ts[i := t]) + f (ts ! i) = total f ts + f t"
proof (induction ts arbitrary: i)
  case (Cons u us)
  then show ?case by (cases i) (auto simp: total_def)
qed simp

lemma total_le: "t \<in> set ts \<Longrightarrow> f t \<le> total f ts"
  by (induction ts) (auto simp: total_def)

definition additional :: "vstate \<Rightarrow> bool" where
  "additional s = (live s \<noteq> None \<and> additional_ref_status s = ADDITIONAL_REF_USING)"

text \<open>\<open>v\<close> is the version, \<open>l\<close> the object in the slot, \<open>d\<close> the version of \<open>_this_id\<close>.\<close>

definition pc_ok :: "nat \<Rightarrow> nat option \<Rightarrow> u32 \<Rightarrow> thread \<Rightarrow> bool" where
  "pc_ok v l d t = (case pc t of
     AUndo w \<Rightarrow> (\<exists>k. w = of_nat k \<and> (v = k \<or> even k \<and> v = k + 1))
   | Cas e w \<Rightarrow> (\<exists>k. e = enc k 0 \<and> k \<le> v \<and> w = of_nat (if even k then k + 2 else k + 1) \<and> (k = v \<longrightarrow> l \<noteq> None))
   | SLoad cr \<Rightarrow> cr \<or> 0 < held t
   | SCas cr w \<Rightarrow> (cr \<or> 0 < held t) \<and> VersionOfVRef w = d
   | RCas cr \<Rightarrow> cr \<or> 0 < held t
   | Abort \<Rightarrow> False
   | _ \<Rightarrow> True)"

definition id_ok :: "nat \<Rightarrow> nat option \<Rightarrow> nat \<Rightarrow> VRefId \<Rightarrow> bool" where
  "id_ok v l c x = (\<exists>k. VersionOfVRefId x = of_nat k \<and> even k \<and>
     (case l of None \<Rightarrow> k < v | Some j \<Rightarrow> k \<le> j \<and> (k = j \<longrightarrow> c = 0)))"

definition slot_ok :: "vstate \<Rightarrow> nat \<Rightarrow> nat \<Rightarrow> bool" where
  "slot_ok s v n = (let ts = threads s in
     of_bool (pooled s) + of_bool (live s \<noteq> None) + n_moving ts = 1 \<and>
     n = of_bool (additional s) + n_held ts + n_flight ts \<and>
     n_creating ts \<le> of_bool (additional s) \<and> (n_creating ts = 1 \<longrightarrow> n_held ts = 0) \<and>
     created s = recycled s + of_bool (live s \<noteq> None) \<and>
     additional_ref_status s \<noteq> ADDITIONAL_REF_REVIVING \<and>
     (case live s of
        None \<Rightarrow> even v \<and> n_held ts = 0 \<and> n_dsub ts = 0
      | Some j \<Rightarrow> even j \<and> j < 2 ^ 32 - 3 \<and> (v = j \<or> v = j + 1) \<and> VersionOfVRefId (this_id s) = of_nat j) \<and>
     (\<forall>x \<in> set (ids s). id_ok v (live s) (n_creating ts) x) \<and>
     (\<forall>t \<in> set ts. pc_ok v (live s) (VersionOfVRefId (this_id s)) t) \<and>
     (live s \<noteq> None \<and> n = 0 \<and> odd v \<longrightarrow> (\<exists>t \<in> set ts. \<exists>w. pc t = Cas (enc v 0) w)) \<and>
     (additional s \<and> odd v \<longrightarrow> (\<exists>t \<in> set ts. \<exists>cr. pc t = RCas cr)))"

definition vinv :: "vstate \<Rightarrow> bool" where
  "vinv s = (\<exists>v n. versioned_ref s = enc v n \<and> v < 2 ^ 32 - 1 \<and> n < 2 ^ 31 \<and> slot_ok s v n)"

lemma slot_okD:
  assumes "slot_ok s v n"
  shows "of_bool (pooled s) + of_bool (live s \<noteq> None) + n_moving (threads s) = 1"
    and "n = of_bool (additional s) + n_held (threads s) + n_flight (threads s)"
    and "n_creating (threads s) \<le> of_bool (additional s)" and "n_creating (threads s) = 1 \<Longrightarrow> n_held (threads s) = 0"
    and "created s = recycled s + of_bool (live s \<noteq> None)" and "additional_ref_status s \<noteq> ADDITIONAL_REF_REVIVING"
    and "live s = None \<Longrightarrow> even v \<and> n_held (threads s) = 0 \<and> n_dsub (threads s) = 0"
    and "live s = Some j \<Longrightarrow> even j \<and> j < 2 ^ 32 - 3 \<and> (v = j \<or> v = j + 1) \<and> VersionOfVRefId (this_id s) = of_nat j"
    and "x \<in> set (ids s) \<Longrightarrow> id_ok v (live s) (n_creating (threads s)) x"
    and "t \<in> set (threads s) \<Longrightarrow> pc_ok v (live s) (VersionOfVRefId (this_id s)) t"
    and "live s \<noteq> None \<Longrightarrow> n = 0 \<Longrightarrow> odd v \<Longrightarrow> \<exists>t \<in> set (threads s). \<exists>w. pc t = Cas (enc v 0) w"
    and "additional s \<Longrightarrow> odd v \<Longrightarrow> \<exists>t \<in> set (threads s). \<exists>cr. pc t = RCas cr"
  using assms unfolding slot_ok_def Let_def by auto

text \<open>One thread changes: the sums change by its share, and every other thread is as before.\<close>

lemma slot_okI:
  assumes ok: "slot_ok s v n" and i: "i < length (threads s)" and "threads s' = threads s"
    and sum: "of_bool (pooled s') + of_bool (live s' \<noteq> None) + moving (pc t) =
       of_bool (pooled s) + of_bool (live s \<noteq> None) + moving (pc (threads s ! i))"
      "n' + of_bool (additional s) + held (threads s ! i) + flight (pc (threads s ! i)) =
       n + of_bool (additional s') + held t + flight (pc t)"
    and cre: "n_creating ((threads s)[i := t]) \<le> of_bool (additional s')"
      "n_creating ((threads s)[i := t]) = 1 \<Longrightarrow> n_held ((threads s)[i := t]) = 0"
    and ghost: "created s' = recycled s' + of_bool (live s' \<noteq> None)" "additional_ref_status s' \<noteq> ADDITIONAL_REF_REVIVING"
    and none: "live s' = None \<Longrightarrow> even v' \<and> n_held ((threads s)[i := t]) = 0 \<and> n_dsub ((threads s)[i := t]) = 0"
    and some: "\<And>j. live s' = Some j \<Longrightarrow> even j \<and> j < 2 ^ 32 - 3 \<and> (v' = j \<or> v' = j + 1) \<and> VersionOfVRefId (this_id s') = of_nat j"
    and ids: "\<And>x. x \<in> set (ids s') \<Longrightarrow> id_ok v' (live s') (n_creating ((threads s)[i := t])) x"
    and pcs: "pc_ok v' (live s') (VersionOfVRefId (this_id s')) t"
      "\<And>u. u \<in> set (threads s) \<Longrightarrow> pc_ok v' (live s') (VersionOfVRefId (this_id s')) u"
    and leak: "live s' \<noteq> None \<Longrightarrow> n' = 0 \<Longrightarrow> odd v' \<Longrightarrow> \<exists>u \<in> set ((threads s)[i := t]). \<exists>w. pc u = Cas (enc v' 0) w"
    and rel: "additional s' \<Longrightarrow> odd v' \<Longrightarrow> \<exists>u \<in> set ((threads s)[i := t]). \<exists>cr. pc u = RCas cr"
  shows "slot_ok (s'\<lparr>threads := (threads s')[i := t]\<rparr>) v' n'"
proof -
  note upd = total_upd [OF i, of _ t]
  have "n' = of_bool (additional s') + n_held ((threads s)[i := t]) + n_flight ((threads s)[i := t])"
    using sum(2) upd [of held] upd [of "\<lambda>t. flight (pc t)"] slot_okD(2) [OF ok] by linarith
  moreover have "of_bool (pooled s') + of_bool (live s' \<noteq> None) + n_moving ((threads s)[i := t]) = 1"
    using sum(1) upd [of "\<lambda>t. moving (pc t)"] slot_okD(1) [OF ok] by linarith
  moreover have "\<forall>u \<in> set ((threads s)[i := t]). pc_ok v' (live s') (VersionOfVRefId (this_id s')) u"
    using pcs set_update_subset_insert [of "threads s" i t] by auto
  moreover have "additional (s'\<lparr>threads := (threads s')[i := t]\<rparr>) = additional s'" by (simp add: additional_def)
  ultimately show ?thesis
    using assms(3) cre ghost none some ids leak rel by (auto simp: slot_ok_def Let_def split: option.splits)
qed

lemma other_thread:
  assumes "\<exists>u \<in> set ts. P u" and "i < length ts" and "\<not> P (ts ! i)"
  shows "\<exists>u \<in> set (ts[i := t]). P u"
proof -
  obtain k where k: "k < length ts" "P (ts ! k)" using assms(1) by (auto simp: in_set_conv_nth)
  then have "k \<noteq> i" using assms(3) by auto
  then have "ts[i := t] ! k = ts ! k" "k < length (ts[i := t])" using k(1) by simp_all
  then show ?thesis using k(2) by (metis nth_mem)
qed

lemma rcas_other:
  assumes "slot_ok s v n" and "i < length (threads s)" and "\<And>cr. pc (threads s ! i) \<noteq> RCas cr"
  shows "additional s \<Longrightarrow> odd v \<Longrightarrow> \<exists>u \<in> set ((threads s)[i := t]). \<exists>cr. pc u = RCas cr"
  using slot_okD(12) [OF assms(1)] other_thread [OF _ assms(2), of "\<lambda>u. \<exists>cr. pc u = RCas cr"] assms(3) by blast

lemma held_le: "i < length ts \<Longrightarrow> held (ts ! i) \<le> n_held ts"
  by (rule total_le) simp

lemma flight_le: "i < length ts \<Longrightarrow> flight (pc (ts ! i)) \<le> n_flight ts"
  by (rule total_le [of _ _ "\<lambda>t. flight (pc t)"]) simp

lemma creating_le: "i < length ts \<Longrightarrow> creating (pc (ts ! i)) \<le> n_creating ts"
  by (rule total_le [of _ _ "\<lambda>t. creating (pc t)"]) simp

text \<open>Steps that change only where the thread stands.\<close>

lemma keep_slot:
  assumes ok: "slot_ok s v n" and i: "i < length (threads s)"
    and "held t = held (threads s ! i)" and "moving (pc t) = moving (pc (threads s ! i))"
    and "flight (pc t) = flight (pc (threads s ! i))" and "dsub (pc t) = dsub (pc (threads s ! i))"
    and "creating (pc t) \<le> creating (pc (threads s ! i))"
    and "pc_ok v (live s) (VersionOfVRefId (this_id s)) t"
    and "\<And>w. pc (threads s ! i) \<noteq> Cas (enc v 0) w \<or> n \<noteq> 0"
    and "\<And>cr. pc (threads s ! i) \<noteq> RCas cr \<or> \<not> additional s"
  shows "slot_ok (s\<lparr>threads := (threads s)[i := t]\<rparr>) v n"
proof -
  note upd = total_upd [OF i, of _ t]
  have c: "n_creating ((threads s)[i := t]) \<le> n_creating (threads s)"
    using upd [of "\<lambda>t. creating (pc t)"] assms(7) by linarith
  have h: "n_held ((threads s)[i := t]) = n_held (threads s)" using upd [of held] assms(3) by linarith
  have d: "n_dsub ((threads s)[i := t]) = n_dsub (threads s)" using upd [of "\<lambda>t. dsub (pc t)"] assms(6) by linarith
  show ?thesis
  proof (rule slot_okI [OF ok i refl])
    show "n_creating ((threads s)[i := t]) \<le> of_bool (additional s)" using c slot_okD(3) [OF ok] by linarith
    show "n_held ((threads s)[i := t]) = 0" if "n_creating ((threads s)[i := t]) = 1"
      using that c slot_okD(3,4) [OF ok] h by (cases "additional s") auto
    show "id_ok v (live s) (n_creating ((threads s)[i := t])) x" if "x \<in> set (ids s)" for x
      using slot_okD(9) [OF ok that] c by (auto simp: id_ok_def split: option.splits)
    show "\<exists>u \<in> set ((threads s)[i := t]). \<exists>w. pc u = Cas (enc v 0) w" if "live s \<noteq> None" "n = 0" "odd v"
      using slot_okD(11) [OF ok that] assms(9) i that(2) by (intro other_thread) auto
    show "\<exists>u \<in> set ((threads s)[i := t]). \<exists>cr. pc u = RCas cr" if "additional s" "odd v"
      using slot_okD(12) [OF ok that] assms(10) i that(1) by (intro other_thread) auto
  qed (use assms slot_okD [OF ok] h d in auto)
qed

section \<open>Every step keeps it\<close>

lemma vinvI: "slot_ok s v n \<Longrightarrow> versioned_ref s = enc v n \<Longrightarrow> v < 2 ^ 32 - 1 \<Longrightarrow> n < 2 ^ 31 \<Longrightarrow> vinv s"
  unfolding vinv_def by blast

lemma create_get_ok:
  assumes "slot_ok s v n" and "i < length (threads s)" and "create_get (threads s ! i) s = Some (t, s')"
  shows "slot_ok (s'\<lparr>threads := (threads s')[i := t]\<rparr>) v n \<and> versioned_ref s' = versioned_ref s"
proof -
  have t: "pc (threads s ! i) = Idle" "pooled s" "t = (threads s ! i)\<lparr>pc := CFetch\<rparr>" "s' = s\<lparr>pooled := False\<rparr>"
    using assms(3) by (auto simp: create_get_def split: if_splits)
  note upd = total_upd [OF assms(2), of _ t]
  note ok = slot_okD [OF assms(1)]
  have eq: "n_creating ((threads s)[i := t]) = n_creating (threads s)" "n_held ((threads s)[i := t]) = n_held (threads s)"
    "n_dsub ((threads s)[i := t]) = n_dsub (threads s)"
    using upd [of "\<lambda>t. creating (pc t)"] upd [of held] upd [of "\<lambda>t. dsub (pc t)"] t by simp_all
  have "live s = None" using ok(1) t(2) by (cases "live s") auto
  then have "slot_ok (s'\<lparr>threads := (threads s')[i := t]\<rparr>) v n"
    using ok t eq by (intro slot_okI [OF assms(1,2)]) (auto simp: additional_def pc_ok_def)
  then show ?thesis using t by simp
qed

lemma create_fetch_ok:
  assumes "slot_ok s v n" and "versioned_ref s = enc v n" and "v < 2 ^ 32 - 1" and "n < 2 ^ 31"
    and "i < length (threads s)" and "create_fetch slot (threads s ! i) s = Some (t, s')"
  shows "vinv (s'\<lparr>threads := (threads s')[i := t]\<rparr>)"
proof -
  have ver: "VersionOfVRef (versioned_ref s) = of_nat v" "unat (of_nat v :: u32) = v" "unat (of_nat n :: u32) = n"
    using assms(2-4) by (simp_all add: unat_of_nat32)
  have t: "pc (threads s ! i) = CFetch" "t = (threads s ! i)\<lparr>pc := COnCreated\<rparr>" "n < 2 ^ 31 - 1" "v < 2 ^ 32 - 3"
    "s' = s\<lparr>versioned_ref := enc v (Suc n), this_id := MakeVRefId (of_nat v) slot,
        additional_ref_status := ADDITIONAL_REF_USING, live := Some v, created := created s + 1\<rparr>"
    using assms(2-4,6) ver by (auto simp: create_fetch_def Let_def room_def split: if_splits)
  note upd = total_upd [OF assms(5), of _ t]
  note ok = slot_okD [OF assms(1)]
  have "1 \<le> n_moving (threads s)"
    using total_le [of "threads s ! i" "threads s" "\<lambda>t. moving (pc t)"] assms(5) t(1) by simp
  then have l: "live s = None" "\<not> pooled s" using ok(1) by (cases "live s"; cases "pooled s"; simp)+
  then have z: "\<not> additional s" "n_creating (threads s) = 0" "n_held (threads s) = 0" "n_dsub (threads s) = 0" "even v"
    using ok(3,7) by (simp_all add: additional_def)
  have eq: "n_creating ((threads s)[i := t]) = 1" "n_held ((threads s)[i := t]) = 0" "n_dsub ((threads s)[i := t]) = 0"
    using upd [of "\<lambda>t. creating (pc t)"] upd [of held] upd [of "\<lambda>t. dsub (pc t)"] t(1,2) z by simp_all
  have pcs: "pc_ok v (Some v) (of_nat v) u" if "u \<in> set (threads s)" for u
    using ok(10) [OF that] l total_le [OF that, of held] total_le [OF that, of "\<lambda>t. creating (pc t)"] z
    by (cases "pc u") (auto simp: pc_ok_def)
  have ids: "id_ok v (Some v) 1 x" if "x \<in> set (ids s)" for x
    using ok(9) [OF that] l by (auto simp: id_ok_def intro: less_imp_le)
  have "slot_ok (s'\<lparr>threads := (threads s')[i := t]\<rparr>) v (Suc n)"
    using ok(1,2,5) t l z eq pcs ids
    by (intro slot_okI [OF assms(1,5)]) (auto simp: additional_def, auto simp: pc_ok_def)
  then show ?thesis using t by (intro vinvI) auto
qed

lemma create_done_ok:
  assumes "slot_ok s v n" and "i < length (threads s)" and "create_done b (threads s ! i) s = Some (t, s')"
  shows "slot_ok (s'\<lparr>threads := (threads s')[i := t]\<rparr>) v n \<and> versioned_ref s' = versioned_ref s"
proof -
  have p: "pc (threads s ! i) = COnCreated" using assms(3) by (auto simp: create_done_def split: if_splits)
  note ok = slot_okD [OF assms(1)]
  show ?thesis
  proof (cases b)
    case False
    then have "t = (threads s ! i)\<lparr>pc := SLoad True\<rparr>" "s' = s" using assms(3) p by (auto simp: create_done_def)
    then show ?thesis using keep_slot [OF assms(1,2), of t] p by (simp add: pc_ok_def)
  next
    case True
    then have t: "t = (threads s ! i)\<lparr>pc := Idle\<rparr>" "s' = s\<lparr>ids := this_id s # ids s\<rparr>" using assms(3) p by (auto simp: create_done_def)
    note upd = total_upd [OF assms(2), of _ t]
    have a: "additional s" "n_creating (threads s) = 1"
      using ok(3) creating_le [OF assms(2)] p by (cases "additional s"; simp)+
    then obtain j where j: "live s = Some j" by (auto simp: additional_def)
    have eq: "n_creating ((threads s)[i := t]) = 0" "n_held ((threads s)[i := t]) = n_held (threads s)"
      using upd [of "\<lambda>t. creating (pc t)"] upd [of held] t p a(2) by simp_all
    have leak: "\<exists>u \<in> set ((threads s)[i := t]). \<exists>w. pc u = Cas (enc v 0) w" if "n = 0"
      using ok(2) a(1) that by simp
    have "slot_ok (s'\<lparr>threads := (threads s')[i := t]\<rparr>) v n"
      using ok t eq p j a leak rcas_other [OF assms(1,2), of t]
      by (intro slot_okI [OF assms(1,2)]) (auto simp: additional_def pc_ok_def id_ok_def)
    then show ?thesis using t by simp
  qed
qed

text \<open>A thread with a reference, or with one in flight for the additional reference, sees the object.\<close>

lemma held_live:
  assumes "slot_ok s v n" and "i < length (threads s)" and "0 < held (threads s ! i) \<or> pc (threads s ! i) = DSub \<or> 0 < creating (pc (threads s ! i))"
  obtains j where "live s = Some j" "even j" "v = j \<or> v = j + 1" "VersionOfVRefId (this_id s) = of_nat j"
proof -
  have "live s \<noteq> None"
  proof
    assume "live s = None"
    then have "n_held (threads s) = 0" "n_dsub (threads s) = 0" "n_creating (threads s) = 0"
      using slot_okD(3,7) [OF assms(1)] by (auto simp: additional_def)
    then show False
      using assms(3) held_le [OF assms(2)] creating_le [OF assms(2)]
        total_le [of "threads s ! i" "threads s" "\<lambda>t. dsub (pc t)"] assms(2) by auto
  qed
  then obtain j where "live s = Some j" by auto
  then show thesis using that slot_okD(8) [OF assms(1)] by blast
qed

lemma address_ok:
  assumes "slot_ok s v n" and "versioned_ref s = enc v n" and "v < 2 ^ 32 - 1" and "n < 2 ^ 31"
    and "i < length (threads s)" and "address x b (threads s ! i) s = Some (t, s')"
  shows "vinv (s'\<lparr>threads := (threads s')[i := t]\<rparr>)"
proof -
  note ok = slot_okD [OF assms(1)]
  have ver: "VersionOfVRef (versioned_ref s) = of_nat v" using assms(2-4) by simp
  have g: "pc (threads s ! i) = Idle" "x \<in> set (ids s)" "n < 2 ^ 31 - 1" "s' = s\<lparr>versioned_ref := enc v (Suc n)\<rparr>"
    using assms(2-4,6) by (auto simp: address_def Let_def room_def unat_of_nat32 split: if_splits)
  note upd = total_upd [OF assms(5), of _ t]
  obtain k where k: "VersionOfVRefId x = of_nat k" "even k" "case live s of None \<Rightarrow> k < v | Some j \<Rightarrow> k \<le> j \<and> (k = j \<longrightarrow> n_creating (threads s) = 0)"
    using ok(9) [OF g(2)] by (auto simp: id_ok_def)
  have kv: "k \<le> v" using k(3) ok(8) by (cases "live s") auto
  have "slot_ok (s'\<lparr>threads := (threads s')[i := t]\<rparr>) v (Suc n)"
  proof (cases "t = (threads s ! i)\<lparr>pc := AUndo (of_nat v)\<rparr>")
    case True
    have eq: "n_creating ((threads s)[i := t]) = n_creating (threads s)" "n_held ((threads s)[i := t]) = n_held (threads s)"
      "n_dsub ((threads s)[i := t]) = n_dsub (threads s)"
      using upd [of "\<lambda>t. creating (pc t)"] upd [of held] upd [of "\<lambda>t. dsub (pc t)"] True g(1) by simp_all
    show ?thesis
      using ok g eq True rcas_other [OF assms(1,5), of t]
      by (intro slot_okI [OF assms(1,5)]) (auto simp: additional_def pc_ok_def)
  next
    case False
    then have m: "(of_nat v :: u32) = of_nat k \<or> (of_nat v :: u32) = of_nat (k + 1)" and t: "t = (threads s ! i)\<lparr>held := held (threads s ! i) + 1\<rparr>"
      using assms(6) ver g(1-3) k(1) by (auto simp: address_def Let_def split: if_splits)
    then have vk: "v = k \<or> v = k + 1"
      using kv assms(3) of_nat_eq32 [of v k] of_nat_eq32 [of v "k + 1"] by linarith
    obtain j where j: "live s = Some j" using vk k(2,3) ok(7) by (cases "live s") auto
    have c: "n_creating (threads s) = 0" using vk k(2,3) ok(8) [OF j] j by auto
    have eq: "n_creating ((threads s)[i := t]) = 0"
      using upd [of "\<lambda>t. creating (pc t)"] t c by simp
    show ?thesis
      using ok g eq t c j rcas_other [OF assms(1,5), of t]
      by (intro slot_okI [OF assms(1,5)]) (auto simp: additional_def pc_ok_def)
  qed
  then show ?thesis using assms(2,3) g(3,4) by (intro vinvI) auto
qed

text \<open>A reference goes: the thread ends idle, or it saw the last one and is about to recycle.\<close>

lemma one_less:
  assumes ok: "slot_ok s v n" and "i < length (threads s)" and v: "v < 2 ^ 32 - 1"
    and "held t + 1 = held (threads s ! i) + flight (pc (threads s ! i))" and "moving (pc (threads s ! i)) = 0"
    and "creating (pc (threads s ! i)) = 0" and "flight (pc t) = 0" and "moving (pc t) = 0" and "creating (pc t) = 0"
    and "dsub (pc t) = 0"
    and "pc_ok v (live s) (VersionOfVRefId (this_id s)) t"
    and "live s \<noteq> None \<Longrightarrow> n = 1 \<Longrightarrow> odd v \<Longrightarrow> \<exists>w. pc t = Cas (enc v 0) w"
    and "\<And>cr. pc (threads s ! i) \<noteq> RCas cr"
  shows "0 < n \<and> slot_ok (s\<lparr>versioned_ref := r, threads := (threads s)[i := t]\<rparr>) v (n - 1)"
proof -
  note upd = total_upd [OF assms(2), of _ t]
  note d = slot_okD [OF ok]
  have pos: "0 < held (threads s ! i) + flight (pc (threads s ! i))" using assms(4) by linarith
  then have n: "0 < n" using d(2) held_le [OF assms(2)] flight_le [OF assms(2)] by linarith
  have c: "n_creating ((threads s)[i := t]) = n_creating (threads s)" using upd [of "\<lambda>t. creating (pc t)"] assms(6,9) by simp
  have h: "n_held ((threads s)[i := t]) \<le> n_held (threads s)"
    using upd [of held] assms(4) by (cases "pc (threads s ! i)") auto
  have dd: "n_dsub ((threads s)[i := t]) \<le> n_dsub (threads s)" using upd [of "\<lambda>t. dsub (pc t)"] assms(10) by linarith
  have "t \<in> set ((threads s)[i := t])" using assms(2) by (simp add: set_update_memI)
  then have leak: "\<exists>u \<in> set ((threads s)[i := t]). \<exists>w. pc u = Cas (enc v 0) w" if "live s \<noteq> None" "n - 1 = 0" "odd v"
    using assms(12) that n by auto
  have "slot_ok ((s\<lparr>versioned_ref := r\<rparr>)\<lparr>threads := (threads (s\<lparr>versioned_ref := r\<rparr>))[i := t]\<rparr>) v (n - 1)"
    by (rule slot_okI [OF ok assms(2)])
      (use d n c h dd leak assms rcas_other [OF ok assms(2), of t] in \<open>auto simp: additional_def\<close>)
  then show ?thesis using n by simp
qed

lemma address_undo_ok:
  assumes "slot_ok s v n" and "versioned_ref s = enc v n" and "v < 2 ^ 32 - 1" and "n < 2 ^ 31"
    and "i < length (threads s)" and "address_undo (threads s ! i) s = Some (t, s')"
  shows "vinv (s'\<lparr>threads := (threads s')[i := t]\<rparr>)"
proof -
  obtain w where p: "pc (threads s ! i) = AUndo w" using assms(6) by (auto simp: address_undo_def split: pc.splits)
  note d = slot_okD [OF assms(1)]
  have "pc_ok v (live s) (VersionOfVRefId (this_id s)) (threads s ! i)" using d(10) assms(5) by simp
  then obtain k where k: "w = of_nat k" "v = k \<or> even k \<and> v = k + 1" using p by (auto simp: pc_ok_def)
  have n: "0 < n" using d(2) flight_le [OF assms(5)] p by simp
  then obtain m where m: "n = Suc m" by (cases n) auto
  have w: "w = of_nat v \<or> w + 1 = of_nat v" using k by auto
  have ver: "VersionOfVRef (versioned_ref s) = of_nat v" "sint (NRefOfVRef (versioned_ref s)) = int n"
    "NRefOfVRef (versioned_ref s) = 1 \<longleftrightarrow> n = 1"
    using assms(2-4) sint_small [of n] of_nat_eq32 [of n 1] by simp_all
  have vr: "versioned_ref s - 1 = enc v m" using assms(2) m by simp
  have s': "s' = s\<lparr>versioned_ref := enc v m\<rparr>"
    and t: "t = (threads s ! i)\<lparr>pc := if n = 1 \<and> odd v then Cas (enc v 0) (of_nat (v + 1)) else Idle\<rparr>"
    using assms(6) p ver vr w m n by (auto simp: address_undo_def Let_def odd32 split: if_splits)
  have "odd v \<Longrightarrow> live s \<noteq> None" using d(7) by auto
  then have "pc_ok v (live s) (VersionOfVRefId (this_id s)) t" using t by (auto simp: pc_ok_def)
  then have "0 < n \<and> slot_ok (s\<lparr>versioned_ref := enc v m, threads := (threads s)[i := t]\<rparr>) v (n - 1)"
    by (intro one_less [OF assms(1,5,3)]) (use t p in auto)
  then show ?thesis using s' m assms(3,4) by (intro vinvI [of _ v m]) auto
qed

lemma Dereference_ok:
  assumes "slot_ok s v n" and "versioned_ref s = enc v n" and "v < 2 ^ 32 - 1" and "n < 2 ^ 31"
    and "i < length (threads s)" and "Dereference t0 s = (t, s')"
    and "held t0 + 1 = held (threads s ! i) + flight (pc (threads s ! i))" and "moving (pc (threads s ! i)) = 0"
    and "creating (pc (threads s ! i)) = 0"
    and "live s = Some j" and "\<And>cr. pc (threads s ! i) \<noteq> RCas cr"
  shows "vinv (s'\<lparr>threads := (threads s')[i := t]\<rparr>)"
proof -
  note d = slot_okD [OF assms(1)]
  have "0 < n" using d(2) held_le [OF assms(5)] flight_le [OF assms(5)] assms(7) by linarith
  then obtain m where m: "n = Suc m" by (cases n) auto
  have j: "even j" "v = j \<or> v = j + 1" "VersionOfVRefId (this_id s) = of_nat j" using d(8) [OF assms(10)] by auto
  have ver: "VersionOfVRef (versioned_ref s) = of_nat v" "sint (NRefOfVRef (versioned_ref s)) = int n"
    "NRefOfVRef (versioned_ref s) = 1 \<longleftrightarrow> n = 1"
    using assms(2-4) sint_small [of n] of_nat_eq32 [of n 1] by simp_all
  have vr: "versioned_ref s - 1 = enc v m" using assms(2) m by simp
  have two: "(of_nat j :: u32) + 2 = of_nat (if even v then v + 2 else v + 1)" using j(1,2) by auto
  have hit: "of_nat v = (of_nat j :: u32) \<or> of_nat v = (of_nat j :: u32) + 1" using j(2) by auto
  have s': "s' = s\<lparr>versioned_ref := enc v m\<rparr>"
    and t: "t = t0\<lparr>pc := if n = 1 then Cas (enc v 0) (of_nat (if even v then v + 2 else v + 1)) else Idle\<rparr>"
    using assms(6) ver vr hit m j(3) two by (auto simp: Dereference_def Let_def split: if_splits)
  have "pc_ok v (live s) (VersionOfVRefId (this_id s)) t" using t assms(10) by (auto simp: pc_ok_def)
  then have "0 < n \<and> slot_ok (s\<lparr>versioned_ref := enc v m, threads := (threads s)[i := t]\<rparr>) v (n - 1)"
    by (intro one_less [OF assms(1,5,3)]) (use t assms(7-9,11) in auto)
  then show ?thesis using s' m assms(3,4) by (intro vinvI [of _ v m]) auto
qed

lemma recycle_cas_ok:
  assumes "slot_ok s v n" and "versioned_ref s = enc v n" and "v < 2 ^ 32 - 1" and "n < 2 ^ 31"
    and "i < length (threads s)" and "recycle_cas (threads s ! i) s = Some (t, s')"
  shows "vinv (s'\<lparr>threads := (threads s')[i := t]\<rparr>)"
proof -
  note d = slot_okD [OF assms(1)]
  obtain e w where p: "pc (threads s ! i) = Cas e w" using assms(6) by (auto simp: recycle_cas_def split: pc.splits)
  have "pc_ok v (live s) (VersionOfVRefId (this_id s)) (threads s ! i)" using d(10) assms(5) by simp
  then obtain k where k: "e = enc k 0" "k \<le> v" "w = of_nat (if even k then k + 2 else k + 1)" "k = v \<longrightarrow> live s \<noteq> None"
    using p by (auto simp: pc_ok_def)
  have hit: "versioned_ref s = e \<longleftrightarrow> v = k \<and> n = 0" using assms(2-4) k(1,2) enc_inj [of v n k 0] by auto
  show ?thesis
  proof (cases "v = k \<and> n = 0")
    case False
    then have t: "t = (threads s ! i)\<lparr>pc := Idle\<rparr>" "s' = s" using assms(6) p hit by (auto simp: recycle_cas_def)
    have "pc (threads s ! i) \<noteq> Cas (enc v 0) x \<or> n \<noteq> 0" for x
      using p k(1,2) False assms(3) enc_inj [of v 0 k 0] by auto
    then have "slot_ok (s\<lparr>threads := (threads s)[i := t]\<rparr>) v n"
      using t p by (intro keep_slot [OF assms(1,5)]) (auto simp: pc_ok_def)
    then show ?thesis using t assms(2-4) by (intro vinvI) auto
  next
    case True
    then obtain j where j: "live s = Some j" using k(4) by auto
    have jv: "even j" "v = j \<or> v = j + 1" "j < 2 ^ 32 - 3" using d(8) [OF j] by auto
    then have w: "w = of_nat (j + 2)" "j + 2 < 2 ^ 32 - 1" using k(3) True by (auto split: if_splits)
    have t: "t = (threads s ! i)\<lparr>pc := Return\<rparr>"
      "s' = s\<lparr>versioned_ref := enc (j + 2) 0, live := None, recycled := recycled s + 1\<rparr>"
      using assms(6) p hit True w MakeVRef_enc [of "j + 2" 0] by (auto simp: recycle_cas_def)
    have z: "\<not> additional s" "n_held (threads s) = 0" "n_flight (threads s) = 0" "n_creating (threads s) = 0"
      using d(2,3) True by auto
    note upd = total_upd [OF assms(5), of _ t]
    have "dsub (pc u) \<le> flight (pc u)" for u by (cases "pc u") auto
    then have dle: "n_dsub (threads s) \<le> n_flight (threads s)" unfolding total_def by (intro sum_list_mono) auto
    have eq: "n_creating ((threads s)[i := t]) = 0" "n_held ((threads s)[i := t]) = 0" "n_dsub ((threads s)[i := t]) = 0"
      using upd [of "\<lambda>t. creating (pc t)"] upd [of held] upd [of "\<lambda>t. dsub (pc t)"] t p z dle by simp_all
    have pcs: "pc_ok (j + 2) None d' u" if u: "u \<in> set (threads s)" for u d'
      using d(10) [OF u] total_le [OF u, of held] total_le [OF u, of "\<lambda>t. flight (pc t)"] total_le [OF u, of "\<lambda>t. creating (pc t)"] z jv(2)
      by (cases "pc u") (auto simp: pc_ok_def)
    have ids: "id_ok (j + 2) None 0 x" if "x \<in> set (ids s)" for x
      using d(9) [OF that] j by (auto simp: id_ok_def)
    have "slot_ok (s'\<lparr>threads := (threads s')[i := t]\<rparr>) (j + 2) 0"
      using d(1,5,6) t j jv(1) z eq pcs ids p True
      by (intro slot_okI [OF assms(1,5)]) (auto simp: additional_def, auto simp: pc_ok_def)
    then show ?thesis using t w(2) by (intro vinvI) auto
  qed
qed

lemma return_slot_ok:
  assumes "slot_ok s v n" and "i < length (threads s)" and "return_slot (threads s ! i) s = Some (t, s')"
  shows "slot_ok (s'\<lparr>threads := (threads s')[i := t]\<rparr>) v n \<and> versioned_ref s' = versioned_ref s"
proof -
  have t: "pc (threads s ! i) = Return" "t = (threads s ! i)\<lparr>pc := Idle\<rparr>" "s' = s\<lparr>pooled := True\<rparr>"
    using assms(3) by (auto simp: return_slot_def split: if_splits)
  note upd = total_upd [OF assms(2), of _ t]
  note ok = slot_okD [OF assms(1)]
  have eq: "n_creating ((threads s)[i := t]) = n_creating (threads s)" "n_held ((threads s)[i := t]) = n_held (threads s)"
    "n_dsub ((threads s)[i := t]) = n_dsub (threads s)"
    using upd [of "\<lambda>t. creating (pc t)"] upd [of held] upd [of "\<lambda>t. dsub (pc t)"] t by simp_all
  have "1 \<le> n_moving (threads s)"
    using total_le [of "threads s ! i" "threads s" "\<lambda>t. moving (pc t)"] assms(2) t(1) by simp
  then have "live s = None" "\<not> pooled s" using ok(1) by (cases "live s"; cases "pooled s"; simp)+
  then have "slot_ok (s'\<lparr>threads := (threads s')[i := t]\<rparr>) v n"
    using ok t eq by (intro slot_okI [OF assms(1,2)]) (auto simp: additional_def pc_ok_def)
  then show ?thesis using t by simp
qed

lemma ReAddress_ok:
  assumes "slot_ok s v n" and "versioned_ref s = enc v n" and "v < 2 ^ 32 - 1" and "n < 2 ^ 31"
    and "i < length (threads s)" and "ReAddress (threads s ! i) s = Some (t, s')"
  shows "vinv (s'\<lparr>threads := (threads s')[i := t]\<rparr>)"
proof -
  note ok = slot_okD [OF assms(1)]
  have g: "pc (threads s ! i) = Idle" "0 < held (threads s ! i)" "n < 2 ^ 31 - 1" "s' = s\<lparr>versioned_ref := enc v (Suc n)\<rparr>"
    "t = (threads s ! i)\<lparr>held := held (threads s ! i) + 1\<rparr>"
    using assms(2-4,6) by (auto simp: ReAddress_def room_def unat_of_nat32 split: if_splits)
  obtain j where j: "live s = Some j" using held_live [OF assms(1,5)] g(2) by blast
  note upd = total_upd [OF assms(5), of _ t]
  have "0 < n_held (threads s)" using held_le [OF assms(5)] g(2) by simp
  then have c: "n_creating (threads s) = 0" using ok(3,4) by (cases "additional s"; cases "n_creating (threads s)") auto
  have eq: "n_creating ((threads s)[i := t]) = 0" using upd [of "\<lambda>t. creating (pc t)"] g c by simp
  have "slot_ok (s'\<lparr>threads := (threads s')[i := t]\<rparr>) v (Suc n)"
    using ok g eq c j rcas_other [OF assms(1,5), of t]
    by (intro slot_okI [OF assms(1,5)]) (auto simp: additional_def pc_ok_def)
  then show ?thesis using assms(3) g by (intro vinvI) auto
qed

lemma drop_ok:
  assumes "slot_ok s v n" and "versioned_ref s = enc v n" and "v < 2 ^ 32 - 1" and "n < 2 ^ 31"
    and "i < length (threads s)"
    and "drop_ref (threads s ! i) s = Some (t, s') \<or> drop_additional (threads s ! i) s = Some (t, s')"
  shows "vinv (s'\<lparr>threads := (threads s')[i := t]\<rparr>)"
proof -
  consider (ref) "pc (threads s ! i) = Idle" "0 < held (threads s ! i)"
      "Dereference ((threads s ! i)\<lparr>held := held (threads s ! i) - 1\<rparr>) s = (t, s')"
    | (add) "pc (threads s ! i) = DSub" "Dereference (threads s ! i) s = (t, s')"
    using assms(6) by (auto simp: drop_ref_def drop_additional_def split: if_splits)
  then show ?thesis
  proof cases
    case ref
    obtain j where "live s = Some j" using held_live [OF assms(1,5)] ref(2) by blast
    then show ?thesis using ref by (intro Dereference_ok [OF assms(1-5) ref(3)]) auto
  next
    case add
    obtain j where "live s = Some j" using held_live [OF assms(1,5)] add(1) by blast
    then show ?thesis using add by (intro Dereference_ok [OF assms(1-5) add(2)]) auto
  qed
qed

lemma set_failed_call_ok:
  assumes "slot_ok s v n" and "i < length (threads s)"
    and "set_failed_call (threads s ! i) s = Some (t, s') \<or> release_call (threads s ! i) s = Some (t, s')"
  shows "slot_ok (s'\<lparr>threads := (threads s')[i := t]\<rparr>) v n \<and> versioned_ref s' = versioned_ref s"
proof -
  have "pc (threads s ! i) = Idle" "0 < held (threads s ! i)" "s' = s"
    "t = (threads s ! i)\<lparr>pc := SLoad False\<rparr> \<or> t = (threads s ! i)\<lparr>pc := RCas False\<rparr>"
    using assms(3) by (auto simp: set_failed_call_def release_call_def split: if_splits)
  then show ?thesis using keep_slot [OF assms(1,2), of t] by (auto simp: pc_ok_def)
qed

lemma set_failed_load_ok:
  assumes "slot_ok s v n" and "i < length (threads s)" and "set_failed_load (threads s ! i) s = Some (t, s')"
  shows "slot_ok (s'\<lparr>threads := (threads s')[i := t]\<rparr>) v n \<and> versioned_ref s' = versioned_ref s"
proof -
  obtain cr where p: "pc (threads s ! i) = SLoad cr" "s' = s"
    "t = (threads s ! i)\<lparr>pc := Idle\<rparr> \<or>
     t = (threads s ! i)\<lparr>pc := SCas cr (versioned_ref s)\<rparr> \<and> VersionOfVRef (versioned_ref s) = VersionOfVRefId (this_id s)"
    using assms(3) by (auto simp: set_failed_load_def split: pc.splits if_splits)
  moreover have "pc_ok v (live s) (VersionOfVRefId (this_id s)) (threads s ! i)"
    using slot_okD(10) [OF assms(1)] assms(2) by simp
  ultimately show ?thesis using keep_slot [OF assms(1,2), of t] by (auto simp: pc_ok_def)
qed

lemma set_failed_cas_ok:
  assumes "slot_ok s v n" and "versioned_ref s = enc v n" and "v < 2 ^ 32 - 1" and "n < 2 ^ 31"
    and "i < length (threads s)" and "set_failed_cas (threads s ! i) s = Some (t, s')"
  shows "vinv (s'\<lparr>threads := (threads s')[i := t]\<rparr>)"
proof -
  note d = slot_okD [OF assms(1)]
  obtain cr w where p: "pc (threads s ! i) = SCas cr w" using assms(6) by (auto simp: set_failed_cas_def split: pc.splits)
  have own: "cr \<or> 0 < held (threads s ! i)" "VersionOfVRef w = VersionOfVRefId (this_id s)"
    using d(10) [of "threads s ! i"] assms(5) p by (auto simp: pc_ok_def)
  obtain j where j: "live s = Some j" "even j" "v = j \<or> v = j + 1" "VersionOfVRefId (this_id s) = of_nat j"
    using held_live [OF assms(1,5)] own(1) p by auto
  note jb = d(8) [OF j(1)]
  show ?thesis
  proof (cases "versioned_ref s = w")
    case False
    then have t: "t = (threads s ! i)\<lparr>pc := SLoad cr\<rparr>" "s' = s" using assms(6) p by (auto simp: set_failed_cas_def)
    then have "slot_ok (s\<lparr>threads := (threads s)[i := t]\<rparr>) v n"
      using p own(1) by (intro keep_slot [OF assms(1,5)]) (auto simp: pc_ok_def)
    then show ?thesis using t assms(2-4) by (intro vinvI) auto
  next
    case True
    then have "(of_nat v :: u32) = of_nat j" using own(2) j(4) assms(2-4) by auto
    then have vj: "v = j" using of_nat_eq32 [of v j] assms(3) jb by auto
    have "MakeVRef (of_nat j + 1) (of_nat n) = enc (j + 1) n"
      using MakeVRef_enc [of "j + 1" n] jb assms(4) by (simp add: add.commute)
    then have t: "t = (threads s ! i)\<lparr>pc := RCas cr\<rparr>" "s' = s\<lparr>versioned_ref := enc (j + 1) n\<rparr>"
      using assms(2-4,6) p True j(4) vj by (auto simp: set_failed_cas_def)
    note upd = total_upd [OF assms(5), of _ t]
    have eq: "n_creating ((threads s)[i := t]) = n_creating (threads s)" "n_held ((threads s)[i := t]) = n_held (threads s)"
      "n_dsub ((threads s)[i := t]) = n_dsub (threads s)"
      using upd [of "\<lambda>t. creating (pc t)"] upd [of held] upd [of "\<lambda>t. dsub (pc t)"] t p by simp_all
    have "0 < n" using own(1) d(2,3) held_le [OF assms(5)] creating_le [OF assms(5)] p by (cases "additional s") auto
    moreover have "pc_ok (j + 1) (Some j) (of_nat j) u" if "u \<in> set (threads s)" for u
      using d(10) [OF that] j vj by (cases "pc u") (auto simp: pc_ok_def)
    moreover have "id_ok (j + 1) (Some j) (n_creating (threads s)) x" if "x \<in> set (ids s)" for x
      using d(9) [OF that] j(1) by (auto simp: id_ok_def)
    moreover have "\<exists>u \<in> set ((threads s)[i := t]). \<exists>cr. pc u = RCas cr"
      using assms(5) t(1) by (intro bexI [of _ t]) (auto simp: set_update_memI)
    ultimately have "slot_ok (s'\<lparr>threads := (threads s')[i := t]\<rparr>) (j + 1) n"
      using d(1-6) jb t j eq p own(1)
      by (intro slot_okI [OF assms(1,5)]) (auto simp: additional_def, auto simp: pc_ok_def)
    then show ?thesis using t jb assms(4) by (intro vinvI) auto
  qed
qed

lemma release_additional_ok:
  assumes "slot_ok s v n" and "i < length (threads s)" and "release_additional (threads s ! i) s = Some (t, s')"
  shows "slot_ok (s'\<lparr>threads := (threads s')[i := t]\<rparr>) v n \<and> versioned_ref s' = versioned_ref s"
proof -
  note d = slot_okD [OF assms(1)]
  obtain cr where p: "pc (threads s ! i) = RCas cr" using assms(3) by (auto simp: release_additional_def split: pc.splits)
  have own: "cr \<or> 0 < held (threads s ! i)" using d(10) [of "threads s ! i"] assms(2) p by (auto simp: pc_ok_def)
  obtain j where j: "live s = Some j" using held_live [OF assms(1,2)] own(1) p by auto
  show ?thesis
  proof (cases "additional_ref_status s")
    case ADDITIONAL_REF_USING
    then have t: "t = (threads s ! i)\<lparr>pc := DSub\<rparr>" "s' = s\<lparr>additional_ref_status := ADDITIONAL_REF_RECYCLED\<rparr>"
      using assms(3) p by (auto simp: release_additional_def)
    note upd = total_upd [OF assms(2), of _ t]
    have a: "additional s" using j ADDITIONAL_REF_USING by (simp add: additional_def)
    have "n_creating (threads s) = creating (pc (threads s ! i)) \<or> 0 < held (threads s ! i)"
      using own d(3) creating_le [OF assms(2)] p a by (cases cr) auto
    then have c: "n_creating ((threads s)[i := t]) = 0"
      using upd [of "\<lambda>t. creating (pc t)"] t d(3,4) a held_le [OF assms(2)] creating_le [OF assms(2)]
      by (cases "n_creating (threads s)") auto
    have ids: "id_ok v (Some j) 0 x" if "x \<in> set (ids s)" for x using d(9) [OF that] j by (auto simp: id_ok_def)
    have "n \<noteq> 0" using d(2) a by simp
    then have "slot_ok (s'\<lparr>threads := (threads s')[i := t]\<rparr>) v n"
      using d t c j a p ids ADDITIONAL_REF_USING
      by (intro slot_okI [OF assms(1,2)]) (auto simp: additional_def, auto simp: pc_ok_def)
    then show ?thesis using t by simp
  next
    case ADDITIONAL_REF_REVIVING
    then show ?thesis using d(6) by simp
  next
    case ADDITIONAL_REF_RECYCLED
    then have t: "t = (threads s ! i)\<lparr>pc := Idle\<rparr>" "s' = s" using assms(3) p by (auto simp: release_additional_def)
    moreover have "\<not> additional s" using ADDITIONAL_REF_RECYCLED by (simp add: additional_def)
    ultimately show ?thesis using keep_slot [OF assms(1,2), of t] p by (auto simp: pc_ok_def)
  qed
qed

lemma vinv_init: "vinv (slot_init n)"
proof -
  have z: "total f (replicate n \<lparr>pc = Idle, held = 0\<rparr>) = 0" if "f \<lparr>pc = Idle, held = 0\<rparr> = 0" for f
    using that by (simp add: total_def sum_list_replicate)
  have "slot_ok (slot_init n) 0 0"
    by (simp add: slot_ok_def slot_init_def Let_def z additional_def pc_ok_def)
  from vinvI [OF this] show ?thesis by (simp add: slot_init_def enc_def)
qed

lemma vinv_step:
  assumes "vinv s" and "vstep i a s = Some s'"
  shows "vinv s'"
proof -
  obtain v n where v: "slot_ok s v n" "versioned_ref s = enc v n" "v < 2 ^ 32 - 1" "n < 2 ^ 31"
    using assms(1) unfolding vinv_def by blast
  obtain t r where i: "i < length (threads s)" and a: "vact a (threads s ! i) s = Some (t, r)"
    and s': "s' = r\<lparr>threads := (threads r)[i := t]\<rparr>"
    using assms(2) by (auto simp: vstep_def split: if_splits option.splits)
  have same: "vinv (r\<lparr>threads := (threads r)[i := t]\<rparr>)"
    if "slot_ok (r\<lparr>threads := (threads r)[i := t]\<rparr>) v n \<and> versioned_ref r = versioned_ref s"
    using that v by (intro vinvI) auto
  show ?thesis
  proof (cases a)
    case Get
    with a have act: "create_get (threads s ! i) s = Some (t, r)" by simp
    show ?thesis unfolding s' by (rule same [OF create_get_ok [OF v(1) i act]])
  next
    case (Fetch x)
    with a have act: "create_fetch x (threads s ! i) s = Some (t, r)" by simp
    show ?thesis unfolding s' by (rule create_fetch_ok [OF v i act])
  next
    case (Done x)
    with a have act: "create_done x (threads s ! i) s = Some (t, r)" by simp
    show ?thesis unfolding s' by (rule same [OF create_done_ok [OF v(1) i act]])
  next
    case (Addr x y)
    with a have act: "address x y (threads s ! i) s = Some (t, r)" by simp
    show ?thesis unfolding s' by (rule address_ok [OF v i act])
  next
    case Undo
    with a have act: "address_undo (threads s ! i) s = Some (t, r)" by simp
    show ?thesis unfolding s' by (rule address_undo_ok [OF v i act])
  next
    case Recycle
    with a have act: "recycle_cas (threads s ! i) s = Some (t, r)" by simp
    show ?thesis unfolding s' by (rule recycle_cas_ok [OF v i act])
  next
    case Ret
    with a have act: "return_slot (threads s ! i) s = Some (t, r)" by simp
    show ?thesis unfolding s' by (rule same [OF return_slot_ok [OF v(1) i act]])
  next
    case ReAddr
    with a have act: "ReAddress (threads s ! i) s = Some (t, r)" by simp
    show ?thesis unfolding s' by (rule ReAddress_ok [OF v i act])
  next
    case Drop
    with a have act: "drop_ref (threads s ! i) s = Some (t, r)" by simp
    show ?thesis unfolding s' by (rule drop_ok [OF v i act [THEN disjI1]])
  next
    case DropAdditional
    with a have act: "drop_additional (threads s ! i) s = Some (t, r)" by simp
    show ?thesis unfolding s' by (rule drop_ok [OF v i act [THEN disjI2]])
  next
    case FailCall
    with a have act: "set_failed_call (threads s ! i) s = Some (t, r)" by simp
    show ?thesis unfolding s' by (rule same [OF set_failed_call_ok [OF v(1) i act [THEN disjI1]]])
  next
    case FailLoad
    with a have act: "set_failed_load (threads s ! i) s = Some (t, r)" by simp
    show ?thesis unfolding s' by (rule same [OF set_failed_load_ok [OF v(1) i act]])
  next
    case FailCas
    with a have act: "set_failed_cas (threads s ! i) s = Some (t, r)" by simp
    show ?thesis unfolding s' by (rule set_failed_cas_ok [OF v i act])
  next
    case ReleaseCall
    with a have act: "release_call (threads s ! i) s = Some (t, r)" by simp
    show ?thesis unfolding s' by (rule same [OF set_failed_call_ok [OF v(1) i act [THEN disjI2]]])
  next
    case Release
    with a have act: "release_additional (threads s ! i) s = Some (t, r)" by simp
    show ?thesis unfolding s' by (rule same [OF release_additional_ok [OF v(1) i act]])
  qed
qed

lemma reachable_vinv: "reachable n s \<Longrightarrow> vinv s"
  by (induction rule: reachable.induct) (auto intro: vinv_init vinv_step)

lemma vrun_reachable: "vrun as s = Some s' \<Longrightarrow> reachable n s \<Longrightarrow> reachable n s'"
proof (induction "as" arbitrary: s)
  case (Cons x xs)
  obtain i a where x: "x = (i, a)" by (cases x)
  then obtain r where r: "vstep i a s = Some r" "vrun xs r = Some s'" using Cons(2) by (auto split: option.splits)
  then show ?case using Cons(1) reachable.step [OF Cons(3) r(1)] by blast
qed simp

section \<open>Properties\<close>

text \<open>A run of two threads. The first creates an object, addresses it, fails it and drops its reference.\<close>

definition demo_life :: "(nat \<times> action) list" where
  "demo_life = [(0, Get), (0, Fetch 5), (0, Done True), (0, Addr (MakeVRefId 0 5) False), (0, FailCall), (0, FailLoad),
     (0, FailCas), (0, Release), (0, DropAdditional), (0, Drop), (0, Recycle), (0, Ret)]"

lemmas step_defs = vstep_def create_get_def create_fetch_def create_done_def address_def address_undo_def recycle_cas_def
  return_slot_def Dereference_def drop_ref_def drop_additional_def set_failed_call_def set_failed_load_def
  set_failed_cas_def release_call_def release_additional_def Let_def room_def

lemma enc_word: "MakeVRef 1 2 = enc (Suc 0) (Suc (Suc 0))" "MakeVRef 2 0 = enc 2 0" "(0 :: u64) = enc 0 0"
  using MakeVRef_enc [of 1 2] MakeVRef_enc [of 2 0] by (simp_all add: enc_def)

lemma slot_init_two: "slot_init 2 = \<lparr>versioned_ref = enc 0 0, this_id = 0, additional_ref_status = ADDITIONAL_REF_USING, pooled = True, ids = [],
     live = None, created = 0, recycled = 0, threads = [\<lparr>pc = Idle, held = 0\<rparr>, \<lparr>pc = Idle, held = 0\<rparr>]\<rparr>"
  by (simp add: slot_init_def enc_word numeral_2_eq_2)

definition demo_ended :: vstate where
  "demo_ended = \<lparr>versioned_ref = enc 2 0, this_id = MakeVRefId 0 5, additional_ref_status = ADDITIONAL_REF_RECYCLED,
     pooled = True, ids = [MakeVRefId 0 5], live = None, created = 1, recycled = 1,
     threads = [\<lparr>pc = Idle, held = 0\<rparr>, \<lparr>pc = Idle, held = 0\<rparr>]\<rparr>"

lemma demo_life_run: "vrun demo_life (slot_init 2) = Some demo_ended"
  unfolding demo_life_def slot_init_two demo_ended_def
  by (simp add: step_defs enc_word(1,2) enc_inj sint_small)

lemma demo_ended_reachable: "reachable 2 demo_ended"
  by (rule vrun_reachable [OF demo_life_run reachable.init])

text \<open>A second object in the slot. Its additional reference is released without \<open>SetFailed\<close>, and while the
  last reference goes another thread tries the identifier of the first object.\<close>

definition demo_release :: "(nat \<times> action) list" where
  "demo_release = [(0, Get), (0, Fetch 5), (0, Done True), (0, Addr (MakeVRefId 2 5) False), (0, ReleaseCall), (0, Release),
     (0, DropAdditional), (0, Drop), (1, Addr (MakeVRefId 0 5) False), (0, Recycle), (1, Undo)]"

lemma demo_release_run:
  "\<exists>s. vrun demo_release demo_ended = Some s \<and> live s = Some 2 \<and> \<not> pooled s \<and> \<not> additional s \<and>
     threads s = [\<lparr>pc = Idle, held = 0\<rparr>, \<lparr>pc = Idle, held = 0\<rparr>]"
  unfolding demo_release_def demo_ended_def
  by (simp add: step_defs enc_inj sint_small additional_def unat_of_nat32 of_nat_eq32)

text \<open>C10: However the threads interleave, no check of \<open>VersionedRefWithId\<close> fails. A thread that has a
  reference keeps its object: it is not recycled and the slot is not in the pool. Each object is recycled
  once: the calls of \<open>BeforeRecycled\<close> are the creations, less the object that is in the slot. The slot is
  returned once: it is in the pool, or with one object, or in the hands of one thread.\<close>

theorem versioned_ref_recycles_once:
  assumes "reachable n s"
  shows "(\<forall>t \<in> set (threads s). pc t \<noteq> Abort \<and> (0 < held t \<longrightarrow> live s \<noteq> None \<and> \<not> pooled s)) \<and>
    created s = recycled s + of_bool (live s \<noteq> None) \<and>
    of_bool (pooled s) + of_bool (live s \<noteq> None) + n_moving (threads s) = 1"
proof -
  obtain v m where ok: "slot_ok s v m" using reachable_vinv [OF assms] by (auto simp: vinv_def)
  note d = slot_okD [OF ok]
  have "pc t \<noteq> Abort" if "t \<in> set (threads s)" for t using d(10) [OF that] by (auto simp: pc_ok_def)
  moreover have "live s \<noteq> None" if "t \<in> set (threads s)" "0 < held t" for t
    using total_le [OF that(1), of held] that(2) d(7) by auto
  moreover have "\<not> pooled s" if "live s \<noteq> None" using d(1) that by (cases "pooled s") auto
  ultimately show ?thesis using d(1,5) by auto
qed

theorem versioned_ref_recycles_once_witness:
  "reachable 2 demo_ended \<and> created demo_ended = 1 \<and> recycled demo_ended = 1 \<and> of_bool (pooled demo_ended) + n_moving (threads demo_ended) = 1"
  using versioned_ref_recycles_once [OF demo_ended_reachable] demo_ended_reachable by (simp add: demo_ended_def)

text \<open>C25: \<open>Address\<close> never mistakes an object for another. Where it succeeds, the object in the slot is the one
  that \<open>Create\<close> returned this identifier for, also when the slot has been used again since.\<close>

theorem address_finds_its_object:
  assumes "reachable n s" and "i < length (threads s)" and "address x failed_as_well (threads s ! i) s = Some (t, s')"
    and "held (threads s ! i) < held t"
  shows "\<exists>j. live s = Some j \<and> VersionOfVRefId x = of_nat j \<and> (\<not> failed_as_well \<longrightarrow> \<not> Failed s)"
proof -
  obtain v m where v: "versioned_ref s = enc v m" "v < 2 ^ 32 - 1" "m < 2 ^ 31" "slot_ok s v m"
    using reachable_vinv [OF assms(1)] unfolding vinv_def by blast
  note d = slot_okD [OF v(4)]
  have x: "x \<in> set (ids s)" "of_nat v = VersionOfVRefId x \<or> failed_as_well \<and> of_nat v = VersionOfVRefId x + 1"
    using assms(3,4) v by (auto simp: address_def Let_def split: if_splits)
  obtain k where k: "VersionOfVRefId x = of_nat k" "even k" "case live s of None \<Rightarrow> k < v | Some j \<Rightarrow> k \<le> j \<and> (k = j \<longrightarrow> n_creating (threads s) = 0)"
    using d(9) [OF x(1)] by (auto simp: id_ok_def)
  have kv: "k \<le> v" using k(3) d(8) by (cases "live s") auto
  have vk: "v = k \<or> failed_as_well \<and> v = k + 1"
    using x(2) k(1) kv v(2) of_nat_eq32 [of v k] of_nat_eq32 [of v "k + 1"] by auto
  obtain j where j: "live s = Some j" using vk k(2,3) d(7) by (cases "live s") auto
  have "k = j" using vk k(2,3) d(8) [OF j] j by auto
  then show ?thesis using j k(1) vk d(8) [OF j] v by (auto simp: Failed_def)
qed

theorem address_finds_its_object_witness:
  "address (MakeVRefId 0 5) False (threads demo_ended ! 1) demo_ended =
     Some (\<lparr>pc = AUndo 2, held = 0\<rparr>, demo_ended\<lparr>versioned_ref := enc 2 1\<rparr>) \<and>
   (\<exists>s t s' j. address (MakeVRefId 2 5) False (threads s ! 0) s = Some (t, s') \<and> live s = Some j \<and> VersionOfVRefId (MakeVRefId 2 5) = of_nat j)"
proof -
  obtain s where s: "vrun (take 3 demo_release) demo_ended = Some s" "length (threads s) = 2" "held (threads s ! 0) = 0"
      "\<exists>s'. address (MakeVRefId 2 5) False (threads s ! 0) s = Some (\<lparr>pc = Idle, held = 1\<rparr>, s')"
    unfolding demo_release_def demo_ended_def by (simp add: step_defs)
  obtain s' where s': "address (MakeVRefId 2 5) False (threads s ! 0) s = Some (\<lparr>pc = Idle, held = 1\<rparr>, s')" using s(4) by blast
  have "\<exists>j. live s = Some j \<and> VersionOfVRefId (MakeVRefId 2 5) = of_nat j"
    using address_finds_its_object [OF vrun_reachable [OF s(1) demo_ended_reachable] _ s'] s(2,3) by auto
  moreover have "address (MakeVRefId 0 5) False (threads demo_ended ! 1) demo_ended =
     Some (\<lparr>pc = AUndo 2, held = 0\<rparr>, demo_ended\<lparr>versioned_ref := enc 2 1\<rparr>)"
    by (simp add: demo_ended_def address_def room_def Let_def)
  ultimately show ?thesis using s' by blast
qed

text \<open>C26: A failed object is not forgotten. When no thread has a reference or is at work in the slot, and the
  last object in it was failed or is gone, then it has been recycled and the slot is back in the pool.\<close>

theorem failed_object_is_recycled:
  assumes "reachable n s" and "\<forall>t \<in> set (threads s). pc t = Idle \<and> held t = 0" and "live s = None \<or> Failed s"
  shows "pooled s \<and> recycled s = created s"
proof -
  obtain v m where v: "versioned_ref s = enc v m" "v < 2 ^ 32 - 1" "m < 2 ^ 31" "slot_ok s v m"
    using reachable_vinv [OF assms(1)] unfolding vinv_def by blast
  note d = slot_okD [OF v(4)]
  have z: "total f (threads s) = 0" if "\<And>t. pc t = Idle \<Longrightarrow> held t = 0 \<Longrightarrow> f t = 0" for f
    using that assms(2) by (auto simp: total_def)
  have "live s = None"
  proof (rule ccontr)
    assume l: "live s \<noteq> None"
    then obtain j where j: "live s = Some j" by auto
    have "v = j + 1" using d(8) [OF j] assms(3) l v by (auto simp: Failed_def)
    then have odd: "odd v" using d(8) [OF j] by simp
    have "\<not> additional s" using d(12) odd assms(2) by fastforce
    then have "m = 0" using d(2) z [of held] z [of "\<lambda>t. flight (pc t)"] by simp
    then show False using d(11) [OF l _ odd] assms(2) by fastforce
  qed
  then show ?thesis using d(1,5) z [of "\<lambda>t. moving (pc t)"] by (cases "pooled s") auto
qed

theorem failed_object_is_recycled_witness: "pooled demo_ended \<and> recycled demo_ended = created demo_ended"
  by (rule failed_object_is_recycled [OF demo_ended_reachable]) (auto simp: demo_ended_def)


end
