(* ===== verification/Event_Dispatcher.thy ===== *)
theory Event_Dispatcher
  imports Versioned_Ref
begin

text \<open>
  \<open>src-endpoint/event_dispatcher.cc\<close>: file descriptors are registered with \<open>epoll\<close> under the id of an
  \<open>IOEventData\<close> object, and the event thread calls the object's callbacks. The objects are versioned
  references: \<open>Versioned_Ref\<close> has their life cycle, and here an id names at most one object, which is gone
  once it has failed and the last reference was dropped. The epoll thread and the threads that register
  and unregister are interleaved between the steps below; the steps under \<open>_mutex\<close> are one each.
  The answers of \<open>epoll_ctl\<close> and of \<open>Create\<close> are arguments.
\<close>

section \<open>State\<close>

definition INVALID_REGISTRATION :: VRefId where "INVALID_REGISTRATION = -1"

definition EPOLLIN :: u32 where "EPOLLIN = 1"
definition EPOLLOUT :: u32 where "EPOLLOUT = 4"
definition EPOLLERR :: u32 where "EPOLLERR = 8"
definition EPOLLHUP :: u32 where "EPOLLHUP = 16"
definition EEXIST :: int where "EEXIST = 17"

text \<open>Callbacks are numbered; \<open>None\<close> is the null pointer or the empty function.\<close>

record IOEventDataOptions =
  input_cb :: "nat option"
  output_cb :: "nat option"
  ev_user_data :: u64
  on_recycled :: "nat option"

text \<open>An object that has been created and not recycled: whether it has failed, and the references that
  callbacks in progress have to it.\<close>

record IOEventData =
  options :: IOEventDataOptions
  has_failed :: bool
  refs :: nat

text \<open>What the outside sees: the calls of callbacks and of \<open>on_recycled\<close>, with the id they are for.\<close>

datatype trace = Called VRefId nat u64 u32 | Recycled VRefId "nat option"

record dispatcher =
  epoll_set :: "int \<rightharpoonup> VRefId \<times> u32"
  fd_map :: "int \<rightharpoonup> VRefId"
  objects :: "VRefId \<rightharpoonup> IOEventData"
  used_ids :: "VRefId set"
  log :: "trace list"
  derrno :: int

definition dispatcher_init :: dispatcher where
  "dispatcher_init = \<lparr>epoll_set = Map.empty, fd_map = Map.empty, objects = Map.empty, used_ids = {}, log = [], derrno = 0\<rparr>"

section \<open>The event objects\<close>

definition data_create :: "VRefId \<Rightarrow> IOEventDataOptions \<Rightarrow> dispatcher \<Rightarrow> dispatcher" where
  "data_create i opts d = d\<lparr>objects := (objects d)(i \<mapsto> \<lparr>options = opts, has_failed = False, refs = 0\<rparr>), used_ids := insert i (used_ids d)\<rparr>"

text \<open>\<open>BeforeRecycled\<close> clears the options and calls \<open>on_recycled\<close> where there is one.\<close>

definition BeforeRecycled :: "VRefId \<Rightarrow> IOEventData \<Rightarrow> dispatcher \<Rightarrow> dispatcher" where
  "BeforeRecycled i e d = d\<lparr>objects := (objects d)(i := None), log := log d @ [Recycled i (on_recycled (options e))]\<rparr>"

definition settle :: "VRefId \<Rightarrow> IOEventData \<Rightarrow> dispatcher \<Rightarrow> dispatcher" where
  "settle i e d = (if has_failed e \<and> refs e = 0 then BeforeRecycled i e d else d\<lparr>objects := (objects d)(i \<mapsto> e)\<rparr>)"

definition SetFailedById :: "VRefId \<Rightarrow> dispatcher \<Rightarrow> dispatcher" where
  "SetFailedById i d = (case objects d i of
     None \<Rightarrow> d
   | Some e \<Rightarrow> if has_failed e then d else settle i (e\<lparr>has_failed := True\<rparr>) d)"

section \<open>Operations\<close>

definition RegisterEvent :: "VRefId option \<Rightarrow> int \<Rightarrow> int \<Rightarrow> IOEventDataOptions \<Rightarrow> u32 \<Rightarrow> VRefId \<Rightarrow> dispatcher \<Rightarrow> (int \<times> VRefId) \<times> dispatcher" where
  "RegisterEvent made ctl_error fd opts events registration d = (case made of
     None \<Rightarrow> ((-1, registration), d)
   | Some i \<Rightarrow>
       let d1 = data_create i opts d in
       if fd_map d1 fd \<noteq> None then ((-1, registration), (SetFailedById i d1)\<lparr>derrno := EEXIST\<rparr>)
       else
         let d2 = d1\<lparr>fd_map := (fd_map d1)(fd \<mapsto> i)\<rparr> in
         if ctl_error \<noteq> 0 then
           ((-1, INVALID_REGISTRATION), (SetFailedById i (d2\<lparr>fd_map := (fd_map d2)(fd := None)\<rparr>))\<lparr>derrno := ctl_error\<rparr>)
         else ((0, i), d2\<lparr>epoll_set := (epoll_set d2)(fd \<mapsto> (i, events OR EPOLLERR OR EPOLLHUP))\<rparr>))"

definition UnregisterEvent :: "int \<Rightarrow> int \<Rightarrow> VRefId \<Rightarrow> dispatcher \<Rightarrow> int \<times> dispatcher" where
  "UnregisterEvent ctl_error fd registration d =
     (if registration = INVALID_REGISTRATION then (0, d)
      else if fd_map d fd \<noteq> Some registration then (0, d)
      else
        let d1 = (if ctl_error = 0 then d\<lparr>epoll_set := (epoll_set d)(fd := None)\<rparr> else d);
            d2 = d1\<lparr>fd_map := (fd_map d1)(fd := None)\<rparr>
        in (if ctl_error = 0 then 0 else -1, (SetFailedById registration d2)\<lparr>derrno := ctl_error\<rparr>))"

text \<open>\<open>Dispatch\<close> addresses the object, calls the callback, and drops its reference when the callback has
  returned.\<close>

definition Call :: "VRefId \<Rightarrow> bool \<Rightarrow> u32 \<Rightarrow> IOEventData \<Rightarrow> trace list" where
  "Call i output events e = (case if output then output_cb (options e) else input_cb (options e) of
     None \<Rightarrow> []
   | Some cb \<Rightarrow> [Called i cb (ev_user_data (options e)) events])"

definition dispatch_begin :: "VRefId \<Rightarrow> u32 \<Rightarrow> bool \<Rightarrow> dispatcher \<Rightarrow> bool \<times> dispatcher" where
  "dispatch_begin i events output d = (case objects d i of
     None \<Rightarrow> (False, d)
   | Some e \<Rightarrow>
       if has_failed e then (False, d)
       else (True, d\<lparr>objects := (objects d)(i \<mapsto> e\<lparr>refs := refs e + 1\<rparr>), log := log d @ Call i output events e\<rparr>))"

definition dispatch_end :: "VRefId \<Rightarrow> dispatcher \<Rightarrow> dispatcher" where
  "dispatch_end i d = (case objects d i of None \<Rightarrow> d | Some e \<Rightarrow> settle i (e\<lparr>refs := refs e - 1\<rparr>) d)"

definition Dispatch :: "VRefId \<Rightarrow> u32 \<Rightarrow> bool \<Rightarrow> dispatcher \<Rightarrow> dispatcher" where
  "Dispatch i events output d = (case dispatch_begin i events output d of (found, d') \<Rightarrow> if found then dispatch_end i d' else d')"

text \<open>One pass over the events that \<open>epoll_wait\<close> returned. The event of \<open>_efd\<close> only wakes the thread.\<close>

definition dispatch_event :: "VRefId \<times> u32 \<Rightarrow> dispatcher \<Rightarrow> dispatcher" where
  "dispatch_event ie d = (case ie of (i, ev) \<Rightarrow>
     if i = INVALID_REGISTRATION then d
     else
       let d1 = (if ev AND (EPOLLIN OR EPOLLERR OR EPOLLHUP) \<noteq> 0 then Dispatch i ev False d else d)
       in if ev AND (EPOLLOUT OR EPOLLERR OR EPOLLHUP) \<noteq> 0 then Dispatch i ev True d1 else d1)"

text \<open>What \<open>epoll_wait\<close> and the test of \<open>_stop\<close> after it give, round by round; the loop has no other end,
  and \<open>[]\<close> is a thread that still waits.\<close>

datatype wait = Stopped | Interrupted | WaitFailed | Events "(VRefId \<times> u32) list"

fun RunEpollLoop :: "wait list \<Rightarrow> dispatcher \<Rightarrow> bool \<times> dispatcher" where
  "RunEpollLoop [] d = (False, d)"
| "RunEpollLoop (Stopped # ws) d = (True, d)"
| "RunEpollLoop (Interrupted # ws) d = RunEpollLoop ws d"
| "RunEpollLoop (WaitFailed # ws) d = (True, d)"
| "RunEpollLoop (Events es # ws) d = RunEpollLoop ws (fold dispatch_event es d)"

section \<open>Interleaving\<close>

text \<open>Any thread registers and unregisters at any time, also while a callback runs; the event thread
  starts a callback for any id, since its events may have been fetched long before. An id that \<open>Create\<close>
  returns is new.\<close>

datatype act = Register "VRefId option" int int IOEventDataOptions u32 | Unregister int int VRefId | Begin VRefId u32 bool | End VRefId

fun dstep :: "act \<Rightarrow> dispatcher \<Rightarrow> dispatcher option" where
  "dstep (Register c e fd opts ev) d =
     (if (case c of None \<Rightarrow> True | Some i \<Rightarrow> i \<notin> used_ids d \<and> i \<noteq> INVALID_REGISTRATION)
      then Some (snd (RegisterEvent c e fd opts ev INVALID_REGISTRATION d)) else None)"
| "dstep (Unregister e fd i) d = Some (snd (UnregisterEvent e fd i d))"
| "dstep (Begin i ev out) d = Some (snd (dispatch_begin i ev out d))"
| "dstep (End i) d = (case objects d i of None \<Rightarrow> None | Some e \<Rightarrow> if refs e = 0 then None else Some (dispatch_end i d))"

inductive dreach :: "dispatcher \<Rightarrow> bool" where
  init: "dreach dispatcher_init"
| step: "dreach d \<Longrightarrow> dstep a d = Some d' \<Longrightarrow> dreach d'"

fun drun :: "act list \<Rightarrow> dispatcher \<Rightarrow> dispatcher option" where
  "drun [] d = Some d"
| "drun (a # as) d = (case dstep a d of None \<Rightarrow> None | Some d' \<Rightarrow> drun as d')"

lemma drun_dreach: "drun as d = Some d' \<Longrightarrow> dreach d \<Longrightarrow> dreach d'"
  by (induction as arbitrary: d) (auto split: option.splits intro: dreach.step)

section \<open>Invariant\<close>

text \<open>The registered ids are the objects that have not failed, each with one descriptor. An object that
  has failed waits for a callback. An id without an object has been recycled, and nothing was logged for it
  afterwards.\<close>

fun subject :: "trace \<Rightarrow> VRefId" where
  "subject (Called i _ _ _) = i"
| "subject (Recycled i _) = i"

fun silent_after :: "trace \<Rightarrow> trace \<Rightarrow> bool" where
  "silent_after (Recycled i _) t = (subject t \<noteq> i)"
| "silent_after (Called i _ _ _) t = True"

definition recycled_ids :: "trace list \<Rightarrow> VRefId set" where
  "recycled_ids l = {i. \<exists>f. Recycled i f \<in> set l}"

definition active :: "dispatcher \<Rightarrow> VRefId \<Rightarrow> bool" where
  "active d i \<longleftrightarrow> (\<exists>e. objects d i = Some e \<and> \<not> has_failed e)"

lemma recycled_ids_simps [simp]:
  "recycled_ids [] = {}" "recycled_ids (l @ l') = recycled_ids l \<union> recycled_ids l'"
  "recycled_ids (Recycled i f # l) = insert i (recycled_ids l)" "recycled_ids (Called i c u e # l) = recycled_ids l"
  by (auto simp: recycled_ids_def)

lemma silent_after_new: "(\<forall>t \<in> set l. silent_after t u) \<longleftrightarrow> subject u \<notin> recycled_ids l"
proof -
  have "silent_after t u \<longleftrightarrow> (\<forall>f. t \<noteq> Recycled (subject u) f)" for t by (cases t) auto
  then show ?thesis by (auto simp: recycled_ids_def)
qed

text \<open>The part of the invariant that does not speak of the descriptors.\<close>

definition objs_ok :: "dispatcher \<Rightarrow> bool" where
  "objs_ok d \<longleftrightarrow> dom (objects d) \<union> recycled_ids (log d) = used_ids d \<and> dom (objects d) \<inter> recycled_ids (log d) = {} \<and>
     subject ` set (log d) \<subseteq> used_ids d \<and> sorted_wrt silent_after (log d) \<and>
     (\<forall>i e. objects d i = Some e \<longrightarrow> has_failed e \<longrightarrow> 0 < refs e)"

definition fds_ok :: "dispatcher \<Rightarrow> bool" where
  "fds_ok d \<longleftrightarrow> inj_on (fd_map d) (dom (fd_map d)) \<and> (\<forall>j. j \<in> ran (fd_map d) \<longleftrightarrow> active d j) \<and> INVALID_REGISTRATION \<notin> used_ids d"

lemma settle_ok:
  assumes "objs_ok d" and "i \<in> dom (objects d)"
  shows "objs_ok (settle i e d)"
  using assms by (auto simp: objs_ok_def settle_def BeforeRecycled_def sorted_wrt_append silent_after_new)

lemma settle_simps [simp]:
  "fd_map (settle i e d) = fd_map d" "used_ids (settle i e d) = used_ids d" "epoll_set (settle i e d) = epoll_set d"
  "active (settle i e d) j = (if j = i then \<not> has_failed e else active d j)"
  by (auto simp: settle_def BeforeRecycled_def active_def)

lemma SetFailedById_ok: "objs_ok d \<Longrightarrow> objs_ok (SetFailedById i d)"
  by (auto simp: SetFailedById_def split: option.splits intro: settle_ok)

lemma SetFailedById_simps [simp]:
  "fd_map (SetFailedById i d) = fd_map d" "used_ids (SetFailedById i d) = used_ids d"
  "active (SetFailedById i d) j = (j \<noteq> i \<and> active d j)"
  by (auto simp: SetFailedById_def active_def [of d] split: option.splits)

lemma objs_ok_frame:
  "objects d' = objects d \<Longrightarrow> log d' = log d \<Longrightarrow> used_ids d' = used_ids d \<Longrightarrow> objs_ok d \<Longrightarrow> objs_ok d'"
  by (simp add: objs_ok_def)

lemma data_create_ok:
  "objs_ok d \<Longrightarrow> i \<notin> used_ids d \<Longrightarrow> objs_ok (data_create i opts d)"
  by (auto simp: objs_ok_def data_create_def)

lemma active_frame: "objects d' = objects d \<Longrightarrow> active d' = active d"
  by (simp add: active_def fun_eq_iff)

lemma active_used: "objs_ok d \<Longrightarrow> active d i \<Longrightarrow> i \<in> used_ids d"
  by (auto simp: objs_ok_def active_def)

lemma active_data_create [simp]: "active (data_create i opts d) j = (j = i \<or> active d j)"
  by (simp add: active_def data_create_def)

lemma fd_free:
  "fds_ok d \<Longrightarrow> fd_map d fd = Some i \<Longrightarrow> ran ((fd_map d)(fd := None)) = ran (fd_map d) - {i}"
proof -
  assume a: "fds_ok d" "fd_map d fd = Some i"
  have "x = fd" if "fd_map d x = Some i" for x
    using inj_onD [of "fd_map d" "dom (fd_map d)" x fd] a that by (auto simp: fds_ok_def)
  moreover have "x \<in> ran ((fd_map d)(fd := None)) \<longleftrightarrow> (\<exists>b. b \<noteq> fd \<and> fd_map d b = Some x)" for x by (auto simp: ran_def)
  moreover have "x \<in> ran (fd_map d) \<longleftrightarrow> (\<exists>b. fd_map d b = Some x)" for x by (auto simp: ran_def)
  ultimately show ?thesis using a(2) by (intro set_eqI) (metis Diff_iff insertE insertI1 option.inject empty_iff)
qed

lemma RegisterEvent_objs:
  assumes "objs_ok d" and "\<And>i. c = Some i \<Longrightarrow> i \<notin> used_ids d"
  shows "objs_ok (snd (RegisterEvent c e fd opts ev r d))"
proof (cases c)
  case (Some i)
  have ok: "objs_ok (data_create i opts d)" using assms Some by (simp add: data_create_ok)
  then have "objs_ok (SetFailedById i (data_create i opts d))" by (rule SetFailedById_ok)
  moreover have "objs_ok (SetFailedById i ((data_create i opts d)\<lparr>fd_map := m\<rparr>))" for m
    by (rule SetFailedById_ok, rule objs_ok_frame [OF _ _ _ ok]) simp_all
  ultimately show ?thesis using Some ok by (auto simp: RegisterEvent_def Let_def objs_ok_def)
qed (use assms in \<open>simp add: RegisterEvent_def\<close>)

lemma fds_ok_more:
  "fds_ok d \<Longrightarrow> fd_map d' = fd_map d \<Longrightarrow> active d' = active d \<Longrightarrow> INVALID_REGISTRATION \<notin> used_ids d' \<Longrightarrow> fds_ok d'"
  by (simp add: fds_ok_def)

lemma RegisterEvent_fds:
  assumes "objs_ok d" and "fds_ok d" and "\<And>i. c = Some i \<Longrightarrow> i \<notin> used_ids d \<and> i \<noteq> INVALID_REGISTRATION"
  shows "fds_ok (snd (RegisterEvent c e fd opts ev r d))"
proof (cases c)
  case (Some i)
  let ?d1 = "data_create i opts d"
  have i: "i \<notin> used_ids d" "i \<noteq> INVALID_REGISTRATION" using assms(3) Some by auto
  have new: "\<not> active d i" using active_used [OF assms(1)] i by auto
  have used: "INVALID_REGISTRATION \<notin> used_ids ?d1" using assms(2) i by (simp add: fds_ok_def data_create_def)
  have m: "fd_map ?d1 = fd_map d" "used_ids (?d1\<lparr>fd_map := q\<rparr>) = used_ids ?d1" for q by (simp_all add: data_create_def)
  have act: "active (d'\<lparr>fd_map := q\<rparr>) = active d'" "active (d'\<lparr>epoll_set := w\<rparr>) = active d'" "active (d'\<lparr>derrno := x\<rparr>) = active d'" for d' q w x
    by (simp_all add: active_def fun_eq_iff)
  have undone: "active (SetFailedById i (?d1\<lparr>fd_map := q\<rparr>)) = active d" "active (SetFailedById i ?d1) = active d" for q
    using new by (auto simp: fun_eq_iff act)
  have added: "fds_ok (?d1\<lparr>fd_map := (fd_map d)(fd \<mapsto> i), epoll_set := w\<rparr>)" if "fd_map d fd = None" for w
    using assms(2) that new used i unfolding fds_ok_def by (auto simp: act inj_on_def ranI)
  have same: "fd_map d fd = None \<Longrightarrow> (fd_map d)(fd := None) = fd_map d" by (simp add: fun_upd_idem)
  consider "fd_map d fd \<noteq> None" | "fd_map d fd = None" "e \<noteq> 0" | "fd_map d fd = None" "e = 0" by blast
  then show ?thesis
    by cases (auto simp: Some RegisterEvent_def Let_def m act undone used same added intro!: fds_ok_more [OF assms(2)])
qed (use assms in \<open>simp add: RegisterEvent_def\<close>)

lemma UnregisterEvent_ok:
  assumes "objs_ok d" and "fds_ok d"
  shows "objs_ok (snd (UnregisterEvent e fd i d))" and "fds_ok (snd (UnregisterEvent e fd i d))"
proof -
  have ob: "objs_ok (SetFailedById i (d\<lparr>fd_map := m\<rparr>))" "objs_ok (SetFailedById i (d\<lparr>epoll_set := w, fd_map := m\<rparr>))" for m w
    by (rule SetFailedById_ok, rule objs_ok_frame [OF _ _ _ assms(1)]; simp)+
  show "objs_ok (snd (UnregisterEvent e fd i d))"
    using ob assms by (auto simp: UnregisterEvent_def Let_def objs_ok_def)
  have f: "fds_ok (SetFailedById i (d\<lparr>fd_map := (fd_map d)(fd := None)\<rparr>))"
      "fds_ok (SetFailedById i (d\<lparr>epoll_set := w, fd_map := (fd_map d)(fd := None)\<rparr>))" if "fd_map d fd = Some i" for w
    using assms(2) fd_free [OF assms(2) that]
    by (auto simp: fds_ok_def active_def [of "d\<lparr>fd_map := _\<rparr>"] active_def [of "d\<lparr>epoll_set := _, fd_map := _\<rparr>"] active_def [of d] inj_on_def dom_def)
  show "fds_ok (snd (UnregisterEvent e fd i d))"
    using f assms by (auto simp: UnregisterEvent_def Let_def fds_ok_def active_def)
qed

lemma dispatch_begin_ok:
  assumes "objs_ok d" and "fds_ok d"
  shows "objs_ok (snd (dispatch_begin i ev out d))" and "fds_ok (snd (dispatch_begin i ev out d))"
  using assms
  by (auto simp: dispatch_begin_def objs_ok_def fds_ok_def Call_def active_def sorted_wrt_append silent_after_new split: option.splits)

lemma dispatch_end_ok:
  assumes "objs_ok d" and "fds_ok d"
  shows "objs_ok (dispatch_end i d)" and "fds_ok (dispatch_end i d)"
  using assms settle_ok [OF assms(1), of i]
  by (auto simp: dispatch_end_def fds_ok_def active_def [of d] split: option.splits)

lemma dreach_ok: "dreach d \<Longrightarrow> objs_ok d \<and> fds_ok d"
proof (induction rule: dreach.induct)
  case init
  show ?case by (simp add: objs_ok_def fds_ok_def dispatcher_init_def active_def)
next
  case (step d a d')
  then have ok: "objs_ok d" "fds_ok d" by auto
  show ?case using step(2)
    by (cases a) (use ok in \<open>auto intro!: RegisterEvent_objs RegisterEvent_fds UnregisterEvent_ok dispatch_begin_ok dispatch_end_ok split: if_splits option.splits\<close>)
qed

section \<open>Properties\<close>


text \<open>A run: descriptor 7 is registered, a callback starts, the registration is removed while it runs, the
  descriptor is registered again, and the callback returns.\<close>

definition demo_opts :: IOEventDataOptions where
  "demo_opts = \<lparr>input_cb = Some 1, output_cb = None, ev_user_data = 9, on_recycled = Some 2\<rparr>"

definition demo_events :: "act list" where
  "demo_events = [Register (Some 5) 0 7 demo_opts EPOLLIN, Begin 5 EPOLLIN False, Unregister 0 7 5,
     Register (Some 6) 0 7 demo_opts EPOLLIN, Begin 5 EPOLLIN False, End 5]"

lemmas event_simps = RegisterEvent_def UnregisterEvent_def dispatch_begin_def dispatch_end_def Call_def SetFailedById_def settle_def
  BeforeRecycled_def data_create_def INVALID_REGISTRATION_def demo_events_def demo_opts_def dispatcher_init_def Let_def


end
