(* ===== verification/Hello_Message.thy ===== *)
theory Hello_Message
  imports Prelude
begin

text \<open>
  The message that both ends of a connection exchange over TCP before any RDMA traffic:
  \<open>HelloMessage\<close> of \<open>inc/fast_rdma_endpoint.h\<close> and its codec in \<open>src-endpoint/fast_rdma_endpoint.cc\<close>.
  The codec writes and reads a buffer of bytes through a moving pointer; here the pointer is an offset.
\<close>

section \<open>The message\<close>

definition kMsgLen :: nat where "kMsgLen = 44"
definition kHelloVer :: u16 where "kHelloVer = 1"
definition kImplVer :: u16 where "kImplVer = 1"

text \<open>\<open>magic\<close> is an array of 4 and \<open>gid\<close> one of 16 bytes.\<close>

record HelloMessage =
  magic :: "byte list"
  msg_len :: u16
  hello_ver :: u16
  impl_ver :: u16
  hello_block_size :: u32
  hello_sq_size :: u16
  hello_rq_size :: u16
  hello_lid :: u16
  hello_gid :: "byte list"
  qp_num :: u32
  data_qp_num :: u32

definition hello_wf :: "HelloMessage \<Rightarrow> bool" where
  "hello_wf m \<longleftrightarrow> length (magic m) = 4 \<and> length (hello_gid m) = 16"

text \<open>The letters R, D, M, A.\<close>

definition RDMA :: "byte list" where "RDMA = [82, 68, 77, 65]"

definition hello_default :: HelloMessage where
  "hello_default = \<lparr>magic = RDMA, msg_len = of_nat kMsgLen, hello_ver = kHelloVer, impl_ver = kImplVer,
     hello_block_size = 8192, hello_sq_size = 0, hello_rq_size = 0, hello_lid = 0, hello_gid = replicate 16 0,
     qp_num = 0, data_qp_num = 0\<rparr>"

section \<open>The codec\<close>

definition store :: "nat \<Rightarrow> byte list \<Rightarrow> byte list \<Rightarrow> byte list" where
  "store off bs buf = take off buf @ bs @ drop (off + length bs) buf"

definition load :: "nat \<Rightarrow> nat \<Rightarrow> byte list \<Rightarrow> byte list" where
  "load off n buf = take n (drop off buf)"

text \<open>\<open>*pos++ = htons(v)\<close> and \<open>ntohs(*pos++)\<close>.\<close>

definition put16 :: "u16 \<Rightarrow> nat \<times> byte list \<Rightarrow> nat \<times> byte list" where
  "put16 v = (\<lambda>(pos, buf). (pos + 2, store pos (le16 (htons v)) buf))"

definition put32 :: "u32 \<Rightarrow> nat \<times> byte list \<Rightarrow> nat \<times> byte list" where
  "put32 v = (\<lambda>(pos, buf). (pos + 4, store pos (le32 (htonl v)) buf))"

definition put_bytes :: "byte list \<Rightarrow> nat \<times> byte list \<Rightarrow> nat \<times> byte list" where
  "put_bytes bs = (\<lambda>(pos, buf). (pos + length bs, store pos bs buf))"

definition Serialize :: "HelloMessage \<Rightarrow> byte list \<Rightarrow> byte list" where
  "Serialize m buf =
     (let p0 = put_bytes (magic m) (0, buf);
          p1 = put16 (msg_len m) p0;
          p2 = put16 (hello_ver m) p1;
          p3 = put16 (impl_ver m) p2;
          p4 = put32 (hello_block_size m) p3;
          p5 = put16 (hello_sq_size m) p4;
          p6 = put16 (hello_rq_size m) p5;
          p7 = put16 (hello_lid m) p6;
          p8 = put_bytes (hello_gid m) p7;
          p9 = put32 (qp_num m) p8;
          p10 = put32 (data_qp_num m) p9
      in snd p10)"

definition get16 :: "nat \<Rightarrow> byte list \<Rightarrow> u16" where
  "get16 pos buf = ntohs (unle16 (load pos 2 buf))"

definition get32 :: "nat \<Rightarrow> byte list \<Rightarrow> u32" where
  "get32 pos buf = ntohl (unle32 (load pos 4 buf))"

definition Deserialize :: "byte list \<Rightarrow> HelloMessage" where
  "Deserialize buf =
     (let pos = 4; bs = pos + 6; pos' = bs + 4; gid = pos' + 6; qpn = gid + 16; dqpn = qpn + 4 in
      \<lparr>magic = load 0 4 buf, msg_len = get16 pos buf, hello_ver = get16 (pos + 2) buf, impl_ver = get16 (pos + 4) buf,
       hello_block_size = get32 bs buf, hello_sq_size = get16 pos' buf, hello_rq_size = get16 (pos' + 2) buf,
       hello_lid = get16 (pos' + 4) buf, hello_gid = load gid 16 buf, qp_num = get32 qpn buf, data_qp_num = get32 dqpn buf\<rparr>)"

definition HelloNegotiationValid :: "HelloMessage \<Rightarrow> bool" where
  "HelloNegotiationValid m \<longleftrightarrow> hello_ver m = kHelloVer \<and> impl_ver m \<noteq> 0 \<and> hello_block_size m \<ge> 1024 \<and>
     hello_sq_size m \<ge> 16 \<and> hello_rq_size m \<ge> 16"

section \<open>The codec as a concatenation\<close>

definition hello_bytes :: "HelloMessage \<Rightarrow> byte list" where
  "hello_bytes m = magic m @ be16 (msg_len m) @ be16 (hello_ver m) @ be16 (impl_ver m) @ be32 (hello_block_size m) @
     be16 (hello_sq_size m) @ be16 (hello_rq_size m) @ be16 (hello_lid m) @ hello_gid m @ be32 (qp_num m) @ be32 (data_qp_num m)"

lemma length_hello_bytes: "hello_wf m \<Longrightarrow> length (hello_bytes m) = kMsgLen"
  by (simp add: hello_bytes_def hello_wf_def kMsgLen_def)

text \<open>A store at the end of what has been written so far appends to it.\<close>

lemma store_next:
  "length w = n \<Longrightarrow> store n bs (w @ r) = (w @ bs) @ drop (length bs) r"
  by (simp add: store_def)

lemma put_next:
  assumes "length w = n"
  shows "put16 v (n, w @ r) = (length (w @ be16 v), (w @ be16 v) @ drop 2 r)"
    and "put32 x (n, w @ r) = (length (w @ be32 x), (w @ be32 x) @ drop 4 r)"
    and "put_bytes bs (n, w @ r) = (length (w @ bs), (w @ bs) @ drop (length bs) r)"
  using assms by (simp_all add: put16_def put32_def put_bytes_def store_next)

lemma Serialize_bytes:
  assumes "hello_wf m" and "length buf = kMsgLen"
  shows "Serialize m buf = hello_bytes m"
proof -
  have "put_bytes (magic m) (0, [] @ buf) = (length (magic m), magic m @ drop (length (magic m)) buf)"
    using put_next(3) [of "[]" 0 "magic m" buf] by simp
  then show ?thesis
    using assms by (simp add: Serialize_def hello_bytes_def put_next Let_def hello_wf_def kMsgLen_def del: append_assoc)
qed

lemma load_split: "load (length a) (length b) (a @ b @ c) = b"
  by (simp add: load_def)

lemma split_44:
  assumes "length bs = kMsgLen"
  shows "bs = load 0 4 bs @ load 4 2 bs @ load 6 2 bs @ load 8 2 bs @ load 10 4 bs @ load 14 2 bs @ load 16 2 bs @ load 18 2 bs @
    load 20 16 bs @ load 36 4 bs @ load 40 4 bs"
proof -
  have "load n k bs @ load (n + k) l bs = load n (k + l) bs" for n k l
    by (simp add: load_def take_add [of k l] add.commute)
  then have j: "load n k bs @ load m l bs = load n (k + l) bs" if "m = n + k" for n k m l using that by simp
  have "load 0 44 bs = bs" using assms by (simp add: load_def kMsgLen_def)
  then show ?thesis by (simp add: j)
qed

lemma hello_bytes_Deserialize:
  assumes "length bs = kMsgLen"
  shows "hello_bytes (Deserialize bs) = bs" and "hello_wf (Deserialize bs)"
proof -
  have n: "n + k \<le> kMsgLen \<Longrightarrow> length (load n k bs) = k" for n k using assms by (simp add: load_def)
  have 16: "n + 2 \<le> kMsgLen \<Longrightarrow> be16 (get16 n bs) = load n 2 bs" for n
    using n [of n 2] by (simp add: be16_def get16_def ntohs_def le16_unle16)
  have 32: "n + 4 \<le> kMsgLen \<Longrightarrow> be32 (get32 n bs) = load n 4 bs" for n
    using n [of n 4] by (simp add: be32_def get32_def ntohl_def le32_unle32)
  show "hello_bytes (Deserialize bs) = bs"
    using split_44 [OF assms] by (simp add: hello_bytes_def Deserialize_def 16 32 kMsgLen_def Let_def)
  show "hello_wf (Deserialize bs)" by (simp add: Deserialize_def hello_wf_def n kMsgLen_def Let_def)
qed

lemma hello_bytes_inj:
  assumes "hello_wf m" and "hello_wf m'" and "hello_bytes m = hello_bytes m'"
  shows "m = m'"
proof -
  have b: "be16 a = be16 b \<longleftrightarrow> a = b" "be32 c = be32 d \<longleftrightarrow> c = d" for a b c d
    by (metis ntohs_unle16_be16) (metis ntohl_unle32_be32)
  show ?thesis using assms
    by (intro HelloMessage.equality) (auto simp: hello_bytes_def hello_wf_def b)
qed

lemma Deserialize_hello_bytes: "hello_wf m \<Longrightarrow> Deserialize (hello_bytes m) = m"
  using hello_bytes_inj hello_bytes_Deserialize length_hello_bytes by metis

section \<open>Properties\<close>

text \<open>C18: The hello message survives the wire in both directions. Whatever the buffer held before,
  \<open>Serialize\<close> fills exactly its 44 bytes, \<open>Deserialize\<close> gives the message back, and every 44 bytes are the
  encoding of the one message they decode to, so no field is lost or overlaps another.\<close>

theorem hello_roundtrip:
  assumes "hello_wf m" and "length buf = kMsgLen"
  shows "Deserialize (Serialize m buf) = m \<and> length (Serialize m buf) = kMsgLen \<and> Serialize (Deserialize buf) buf = buf"
  using assms Serialize_bytes length_hello_bytes Deserialize_hello_bytes hello_bytes_Deserialize by metis

theorem hello_roundtrip_witness:
  "Deserialize (Serialize hello_default (replicate 44 7)) = hello_default \<and>
   Serialize (Deserialize (replicate 44 7)) (replicate 44 7) = replicate 44 7"
  using hello_roundtrip [of hello_default "replicate 44 7"] by (simp add: hello_wf_def hello_default_def RDMA_def kMsgLen_def)

end
