(* ===== verification/Endpoint_State.thy ===== *)
theory Endpoint_State
  imports IOBuf_Contract Large_Block Event_Dispatcher
begin

text \<open>
  The state of \<open>FastRdmaEndpoint\<close> (\<open>inc/fast_rdma_endpoint.h\<close>) and the operations that create it, fail it
  and tie it to file descriptors. An endpoint owns the verbs objects of a connection, two rings of
  buffers, the flow-control windows and its registrations with the event dispatcher.

  The verbs library, the system calls and the other threads are outside: they answer the \<open>k\<close>-th question
  the endpoint asks, and \<open>asked\<close> counts the questions.
\<close>

section \<open>Verbs objects\<close>

text \<open>A completion channel, a completion queue on a channel, a queue pair on its two completion queues.\<close>

datatype vobj = Chan nat | Cq nat vobj | Qp nat vobj vobj

primrec attached :: "vobj \<Rightarrow> vobj list" where
  "attached (Chan n) = []"
| "attached (Cq n c) = [c]"
| "attached (Qp n a b) = [a, b]"

text \<open>What lies outside. \<open>answer\<close> is the error code of a call, 0 where it succeeds; \<open>reg_id\<close> what \<open>Create\<close>
  gives for an event object; \<open>destroys live n x\<close> the result of destroying \<open>x\<close> while \<open>live\<close> are the other
  objects and \<open>n\<close> events of \<open>x\<close> have not been acknowledged, \<open>None\<close> where the call does not return; \<open>cq_event\<close>
  the result of \<open>ibv_get_cq_event\<close>; \<open>fd_of\<close> the descriptor of a channel; \<open>failing\<close> the error code with which
  another thread has failed the endpoint by then, 0 where none has; \<open>dereg\<close> the result of \<open>ibv_dereg_mr\<close>;
  \<open>max_sge\<close> the limit on the scatter list of a work request that the device reports.\<close>

record verbs =
  answer :: "nat \<Rightarrow> int"
  reg_id :: "nat \<Rightarrow> VRefId option"
  destroys :: "vobj list \<Rightarrow> nat \<Rightarrow> vobj \<Rightarrow> int option"
  cq_event :: "nat \<Rightarrow> vobj + int"
  fd_of :: "vobj \<Rightarrow> int"
  failing :: "nat \<Rightarrow> int"
  dereg :: "ibv_mr \<Rightarrow> int"
  max_sge :: nat

text \<open>Work requests handed to the library.\<close>

record sge =
  sge_block :: bptr
  sge_off :: nat
  sge_len :: nat
  sge_lkey :: u32

record send_wr =
  wr_sges :: "sge list"
  wr_imm :: u32
  wr_id :: nat
  wr_signaled :: bool
  wr_solicited :: bool

datatype qp_state = RESET | INIT | RTR u32 | RTS u32

text \<open>The members \<open>comp_channel_\<close> to \<open>data_qp_\<close> that point to verbs objects, by name; the completion queues also
  have a counter of events, such as \<open>send_cq_events\<close>.\<close>

datatype slot = COMP_CHANNEL | SEND_CQ | RECV_CQ | DATA_SEND_CQ | DATA_RECV_CQ | QP | DATA_QP

section \<open>The endpoint\<close>

definition RESERVED_WR_NUM :: nat where "RESERVED_WR_NUM = 3"
definition kDataQpDepth :: nat where "kDataQpDepth = 8"
definition ECANCELED :: int where "ECANCELED = 125"
definition EIO :: int where "EIO = 5"
definition ENOMEM :: int where "ENOMEM = 12"
definition EAGAIN :: int where "EAGAIN = 11"
definition EINTR :: int where "EINTR = 4"
definition EPROTO :: int where "EPROTO = 71"

record endpoint =
  alive :: "vobj list"
  unacked :: "vobj \<Rightarrow> nat"
  asked :: nat
  qp_states :: "vobj \<Rightarrow> qp_state"
  sent :: "send_wr list"
  posted :: "(bptr \<times> nat) option list"
  io_state :: io
  large_state :: large_tls
  events_state :: dispatcher
  ep_id :: VRefId
  errno :: int
  res :: "slot \<Rightarrow> vobj option"
  cq_events :: "slot \<Rightarrow> nat"
  tcp_fd :: int
  tcp_registration :: VRefId
  cq_registration :: VRefId
  cq_event_fd :: int
  sq_size :: nat
  rq_size :: nat
  remote_recv_block_size :: nat
  local_window_capacity :: int
  remote_window_capacity :: int
  sq_window_size :: int
  remote_rq_window_size :: int
  writable_butex :: int
  sq_imm_window_size :: int
  new_rq_wrs :: int
  sbuf :: "IOBuf list"
  sq_current :: nat
  sq_sent :: nat
  rbuf :: "IOBuf list"
  rbuf_data :: "(bptr \<times> nat) option list"
  rq_received :: nat
  read_buf :: IOBuf
  nevent :: int
  handshake_ok :: bool
  write_error :: int
  unsignaled :: int
  unsolicited :: int
  accumulated_ack :: int
  active_large_transfers :: int
  pending_large_frames :: "(u32 \<times> IOBuf) list"
  pending_large_map :: "(u32 \<times> ibv_mr) list"
  stop :: bool
  failed_with :: "int option"
  failures_told :: "int list"
  closed_fds :: "int list"

type_synonym 'a ep = "(endpoint, 'a) prog"

section \<open>Calling out\<close>

definition get :: "(endpoint \<Rightarrow> 'a) \<Rightarrow> 'a ep" where
  "get f = (\<lambda>s. Inr (f s, s))"

text \<open>A call that succeeds or gives an error code.\<close>

definition ask :: "verbs \<Rightarrow> int ep" where
  "ask v = (\<lambda>s. Inr (answer v (asked s), s\<lparr>asked := asked s + 1\<rparr>))"

definition on_io :: "(io, 'a) prog \<Rightarrow> 'a ep" where
  "on_io m = (\<lambda>s. case m (io_state s) of Inl e \<Rightarrow> Inl e | Inr (x, i) \<Rightarrow> Inr (x, s\<lparr>io_state := i\<rparr>))"

definition on_large :: "(large_tls, 'a) prog \<Rightarrow> 'a ep" where
  "on_large m = (\<lambda>s. case m (large_state s) of Inl e \<Rightarrow> Inl e | Inr (x, l) \<Rightarrow> Inr (x, s\<lparr>large_state := l\<rparr>))"

text \<open>The tail of \<open>if (call() < 0) return -1;\<close>.\<close>

definition andthen :: "int ep \<Rightarrow> int ep \<Rightarrow> int ep" where
  "andthen m k = bindp m (\<lambda>rc. if rc < 0 then ret (-1) else k)"

definition fail_with :: "int \<Rightarrow> int ep" where
  "fail_with e = bindp (upd (\<lambda>s. s\<lparr>errno := e\<rparr>)) (\<lambda>_. ret (-1))"

text \<open>\<open>error()\<close>; it is 0 exactly where \<open>Failed()\<close> is false.\<close>

definition error :: "verbs \<Rightarrow> endpoint \<Rightarrow> int" where
  "error v s = (case failed_with s of Some e \<Rightarrow> e | None \<Rightarrow> failing v (asked s))"

definition unless_failed :: "verbs \<Rightarrow> int ep \<Rightarrow> int ep" where
  "unless_failed v k = bindp (get (error v)) (\<lambda>e. if e \<noteq> 0 then fail_with e else k)"

section \<open>Creation\<close>

definition OnCreated :: "int ep" where
  "OnCreated = bindp (upd (\<lambda>s. s\<lparr>write_error := 0, stop := False, handshake_ok := False, nevent := 0,
       tcp_registration := INVALID_REGISTRATION, cq_registration := INVALID_REGISTRATION, tcp_fd := -1, cq_event_fd := -1,
       sq_size := 128, rq_size := 128, remote_recv_block_size := 0, local_window_capacity := 0, remote_window_capacity := 0,
       sq_window_size := 0, remote_rq_window_size := 0, new_rq_wrs := 0, sq_imm_window_size := int RESERVED_WR_NUM,
       sq_current := 0, sq_sent := 0, rq_received := 0, unsignaled := 0, unsolicited := 0, accumulated_ack := 0,
       cq_events := (\<lambda>_. 0),
       active_large_transfers := 0\<rparr>)) (\<lambda>_. ret 0)"

section \<open>Events and descriptors\<close>

definition OnCompChannelEvent_cb :: nat where "OnCompChannelEvent_cb = 0"
definition OnServerHandshake_cb :: nat where "OnServerHandshake_cb = 1"
definition OnClientHandshake_cb :: nat where "OnClientHandshake_cb = 2"

text \<open>\<open>RegisterEvent(fd, cb, nullptr, id(), events, &registration)\<close>.\<close>

definition register :: "verbs \<Rightarrow> int \<Rightarrow> nat \<Rightarrow> u32 \<Rightarrow> VRefId \<Rightarrow> (int \<times> VRefId) ep" where
  "register v fd cb events reg = (\<lambda>s.
     let opts = \<lparr>input_cb = Some cb, output_cb = None, ev_user_data = ep_id s, on_recycled = None\<rparr>;
         (r, d) = RegisterEvent (reg_id v (asked s)) (answer v (asked s)) fd opts events reg ((events_state s)\<lparr>derrno := errno s\<rparr>)
     in Inr (r, s\<lparr>events_state := d, errno := derrno d, asked := asked s + 1\<rparr>))"

definition unregister :: "verbs \<Rightarrow> int \<Rightarrow> VRefId \<Rightarrow> unit ep" where
  "unregister v fd reg = (\<lambda>s.
     let (rc, d) = UnregisterEvent (answer v (asked s)) fd reg ((events_state s)\<lparr>derrno := errno s\<rparr>)
     in Inr ((), s\<lparr>events_state := d, errno := derrno d, asked := asked s + 1\<rparr>))"

definition RegisterTcpEvent :: "verbs \<Rightarrow> int \<Rightarrow> nat \<Rightarrow> u32 \<Rightarrow> int ep" where
  "RegisterTcpEvent v fd cb events = unless_failed v
     (bindp (upd (\<lambda>s. s\<lparr>tcp_fd := fd\<rparr>)) (\<lambda>_. bindp (get tcp_registration) (\<lambda>r. bindp (register v fd cb events r) (\<lambda>(rc, r').
        bindp (upd (\<lambda>s. s\<lparr>tcp_registration := r'\<rparr>)) (\<lambda>_. ret rc)))))"

definition UnregisterTcpEvent :: "verbs \<Rightarrow> unit ep" where
  "UnregisterTcpEvent v = bindp (get (\<lambda>s. (tcp_fd s, tcp_registration s))) (\<lambda>(fd, r). unregister v fd r)"

definition CloseTcpFd :: "unit ep" where
  "CloseTcpFd = upd (\<lambda>s. if tcp_fd s \<ge> 0 then s\<lparr>closed_fds := closed_fds s @ [tcp_fd s], tcp_fd := -1\<rparr> else s)"

text \<open>\<open>fcntl\<close> answers with the flags, and where the descriptor blocks it is asked to change them. A negative
  answer is an error code.\<close>

definition O_NONBLOCK :: int where "O_NONBLOCK = 2048"

definition SetNonBlocking :: "verbs \<Rightarrow> int ep" where
  "SetNonBlocking v = bindp (ask v) (\<lambda>flags.
     if flags < 0 then fail_with (- flags)
     else if flags AND O_NONBLOCK \<noteq> 0 then ret 0
     else bindp (ask v) (\<lambda>rc. if rc < 0 then fail_with (- rc) else ret rc))"

section \<open>Failure\<close>

text \<open>\<open>OnFailed\<close> runs once, in the thread whose \<open>SetFailed\<close> changed the version.\<close>

definition OnFailed :: "verbs \<Rightarrow> int \<Rightarrow> unit ep" where
  "OnFailed v e =
     bindp (upd (\<lambda>s. s\<lparr>write_error := e, stop := True, writable_butex := writable_butex s + 1\<rparr>)) (\<lambda>_.
     bindp (get (\<lambda>s. (tcp_fd s, tcp_registration s))) (\<lambda>(fd, r). bindp (unregister v fd r) (\<lambda>_.
     bindp (get (\<lambda>s. (cq_event_fd s, cq_registration s))) (\<lambda>(fd, r). bindp (unregister v fd r) (\<lambda>_.
     upd (\<lambda>s. s\<lparr>tcp_registration := INVALID_REGISTRATION, cq_registration := INVALID_REGISTRATION,
       failures_told := failures_told s @ [e]\<rparr>))))))"

definition SetFailed :: "verbs \<Rightarrow> int \<Rightarrow> int ep" where
  "SetFailed v e = (let e' = (if e \<noteq> 0 then e else EIO) in
     bindp (get (error v)) (\<lambda>err. if err \<noteq> 0 then ret (-1)
       else bindp (upd (\<lambda>s. s\<lparr>failed_with := Some e'\<rparr>)) (\<lambda>_. bindp (OnFailed v e') (\<lambda>_. ret 0))))"

section \<open>Rules\<close>

lemma runs_get [runs_rules, simp]: "runs (get f) s Q = Q (f s) s"
  by (simp add: runs_def get_def)

lemma runs_ask [runs_rules, simp]: "runs (ask v) s Q = Q (answer v (asked s)) (s\<lparr>asked := asked s + 1\<rparr>)"
  by (simp add: runs_def ask_def)

lemma runs_on_io:
  assumes "runs m (io_state s) (\<lambda>x i. Q x (s\<lparr>io_state := i\<rparr>))"
  shows "runs (on_io m) s Q"
  using assms by (auto simp: runs_def on_io_def split: sum.splits)

lemma runs_on_large:
  assumes "runs m (large_state s) (\<lambda>x i. Q x (s\<lparr>large_state := i\<rparr>))"
  shows "runs (on_large m) s Q"
  using assms by (auto simp: runs_def on_large_def split: sum.splits)

lemma runs_andthen [runs_rules]:
  assumes "runs m s (\<lambda>rc s'. if rc < 0 then Q (-1) s' else runs k s' Q)"
  shows "runs (andthen m k) s Q"
  unfolding andthen_def by (rule runs_bindp, rule runs_mono [OF assms]) (simp split: if_splits)

lemma runs_fail_with [simp]: "runs (fail_with e) s Q = Q (-1) (s\<lparr>errno := e\<rparr>)"
  by (simp add: fail_with_def runs_bindp_iff)

lemma runs_unless_failed [simp]:
  "runs (unless_failed v k) s Q = (if error v s \<noteq> 0 then Q (-1) (s\<lparr>errno := error v s\<rparr>) else runs k s Q)"
  by (simp add: unless_failed_def runs_bindp_iff)

end
