(* ===== verification/Endpoint_Resources.thy ===== *)
theory Endpoint_Resources
  imports Endpoint_State
begin

text \<open>
  The verbs objects of an endpoint: \<open>AllocateResources\<close>, \<open>DeallocateResources\<close>, \<open>BeforeRecycled\<close> and
  \<open>GetAndAckEvents\<close> of \<open>src-endpoint/fast_rdma_endpoint.cc\<close>. The library refuses to destroy an object that
  another one is attached to, and \<open>ibv_destroy_cq\<close> waits for every event to be acknowledged; the code
  aborts on a refusal. So the order of destruction and the count of events matter.
\<close>

section \<open>Release\<close>

fun clear_bufs :: "IOBuf list \<Rightarrow> (io, unit) prog" where
  "clear_bufs [] = ret ()"
| "clear_bufs (x # xs) = bindp (IOBuf_clear x) (\<lambda>_. clear_bufs xs)"

definition ack_cq_events :: "slot \<Rightarrow> unit ep" where
  "ack_cq_events a = bindp (get (\<lambda>s. (res s a, cq_events s a))) (\<lambda>(cq, n). case cq of
     Some c \<Rightarrow> upd (\<lambda>s. s\<lparr>unacked := (unacked s)(c := unacked s c - n), cq_events := (cq_events s)(a := 0)\<rparr>)
   | None \<Rightarrow> if n \<noteq> 0 then crash Aborted else ret ())"

text \<open>\<open>if (x) { CHECK_EQ(0, ibv_destroy(x)); x = nullptr; }\<close>.\<close>

definition destroy :: "verbs \<Rightarrow> slot \<Rightarrow> unit ep" where
  "destroy v a = (\<lambda>s. case res s a of
     None \<Rightarrow> Inr ((), s)
   | Some x \<Rightarrow> (case destroys v (remove1 x (alive s)) (unacked s x) x of
        None \<Rightarrow> Inl Diverges
      | Some rc \<Rightarrow> if rc \<noteq> 0 then Inl Aborted else Inr ((), s\<lparr>alive := remove1 x (alive s), res := (res s)(a := None)\<rparr>)))"

fun return_large :: "verbs \<Rightarrow> (u32 \<times> ibv_mr) list \<Rightarrow> unit ep" where
  "return_large v [] = ret ()"
| "return_large v ((k, mr) # l) = bindp (on_large (ReturnLargeBlock (dereg v) (Some mr))) (\<lambda>_. return_large v l)"

text \<open>The buffers of the rings, the input and the large frames go back to their pools.\<close>

definition release_buffers :: "verbs \<Rightarrow> unit ep" where
  "release_buffers v =
     bindp (get sbuf) (\<lambda>bs. bindp (on_io (clear_bufs bs)) (\<lambda>_. bindp (upd (\<lambda>s. s\<lparr>sbuf := []\<rparr>)) (\<lambda>_.
     bindp (get rbuf) (\<lambda>bs. bindp (on_io (clear_bufs bs)) (\<lambda>_. bindp (upd (\<lambda>s. s\<lparr>rbuf := [], rbuf_data := []\<rparr>)) (\<lambda>_.
     bindp (get read_buf) (\<lambda>b. bindp (on_io (IOBuf_clear b)) (\<lambda>b'. bindp (upd (\<lambda>s. s\<lparr>read_buf := b'\<rparr>)) (\<lambda>_.
     bindp (get pending_large_map) (\<lambda>l. bindp (return_large v l) (\<lambda>_. bindp (upd (\<lambda>s. s\<lparr>pending_large_map := []\<rparr>)) (\<lambda>_.
     bindp (get pending_large_frames) (\<lambda>l. bindp (on_io (clear_bufs (map snd l))) (\<lambda>_.
     upd (\<lambda>s. s\<lparr>pending_large_frames := []\<rparr>)))))))))))))))"

definition DeallocateResources :: "verbs \<Rightarrow> unit ep" where
  "DeallocateResources v =
     bindp (ack_cq_events SEND_CQ) (\<lambda>_. bindp (ack_cq_events RECV_CQ) (\<lambda>_.
     bindp (ack_cq_events DATA_SEND_CQ) (\<lambda>_. bindp (ack_cq_events DATA_RECV_CQ) (\<lambda>_.
     bindp (destroy v DATA_QP) (\<lambda>_. bindp (destroy v QP) (\<lambda>_.
     bindp (destroy v DATA_SEND_CQ) (\<lambda>_. bindp (destroy v DATA_RECV_CQ) (\<lambda>_.
     bindp (destroy v SEND_CQ) (\<lambda>_. bindp (destroy v RECV_CQ) (\<lambda>_.
     bindp (destroy v COMP_CHANNEL) (\<lambda>_. release_buffers v)))))))))))"

text \<open>\<open>drained\<close>: the write queue is empty after \<open>ReleaseAllFailedWriteRequests\<close>, as the code checks; the
  queue has its own theory.\<close>

definition BeforeRecycled :: "verbs \<Rightarrow> bool \<Rightarrow> unit ep" where
  "BeforeRecycled v drained = (if \<not> drained then crash Aborted else
     bindp (UnregisterTcpEvent v) (\<lambda>_. bindp (get (\<lambda>s. (cq_event_fd s, cq_registration s))) (\<lambda>(fd, r).
     bindp (unregister v fd r) (\<lambda>_. bindp CloseTcpFd (\<lambda>_. DeallocateResources v)))))"

section \<open>Allocation\<close>

definition create :: "verbs \<Rightarrow> slot \<Rightarrow> (nat \<Rightarrow> vobj) \<Rightarrow> int ep" where
  "create v a mk = bindp (get asked) (\<lambda>k. bindp (ask v) (\<lambda>e.
     if e \<noteq> 0 then fail_with e
     else bindp (upd (\<lambda>s. s\<lparr>alive := mk k # alive s, res := (res s)(a \<mapsto> mk k)\<rparr>)) (\<lambda>_. ret 0)))"

definition deref :: "slot \<Rightarrow> (vobj \<Rightarrow> 'a ep) \<Rightarrow> 'a ep" where
  "deref a k = bindp (get (\<lambda>s. res s a)) (\<lambda>x. case x of None \<Rightarrow> crash NullDeref | Some c \<Rightarrow> k c)"

definition CreateCq :: "verbs \<Rightarrow> slot \<Rightarrow> int ep" where
  "CreateCq v a = deref COMP_CHANNEL (\<lambda>ch. create v a (\<lambda>k. Cq k ch))"

definition CreateQp :: "verbs \<Rightarrow> slot \<Rightarrow> slot \<Rightarrow> slot \<Rightarrow> int ep" where
  "CreateQp v a sc rc = deref sc (\<lambda>c. deref rc (\<lambda>d. create v a (\<lambda>k. Qp k c d)))"

text \<open>\<open>vector::resize\<close>: a failed allocation is caught and becomes \<open>ENOMEM\<close>.\<close>

definition vec_resize :: "nat \<Rightarrow> IOBuf list \<Rightarrow> (io, IOBuf list) prog" where
  "vec_resize n l = bindp (clear_bufs (drop n l)) (\<lambda>_. ret (take n l @ replicate (n - length l) IOBuf_new))"

definition may_throw :: "verbs \<Rightarrow> unit ep \<Rightarrow> int ep" where
  "may_throw v m = bindp (ask v) (\<lambda>e. if e \<noteq> 0 then fail_with ENOMEM else bindp m (\<lambda>_. ret 0))"

definition resize_rings :: "verbs \<Rightarrow> int ep" where
  "resize_rings v = bindp (get (\<lambda>s. (sq_size s, rq_size s))) (\<lambda>(sq, rq).
     if sq < RESERVED_WR_NUM then crash Aborted
     else andthen (may_throw v (bindp (get sbuf) (\<lambda>l. bindp (on_io (vec_resize (sq - RESERVED_WR_NUM) l)) (\<lambda>l'. upd (\<lambda>s. s\<lparr>sbuf := l'\<rparr>)))))
         (andthen (may_throw v (bindp (get rbuf) (\<lambda>l. bindp (on_io (vec_resize rq l)) (\<lambda>l'. upd (\<lambda>s. s\<lparr>rbuf := l'\<rparr>)))))
         (may_throw v (upd (\<lambda>s. s\<lparr>rbuf_data := take rq (rbuf_data s) @ replicate (rq - length (rbuf_data s)) None\<rparr>)))))"

fun arm_cqs :: "verbs \<Rightarrow> nat \<Rightarrow> int ep" where
  "arm_cqs v 0 = ret 0"
| "arm_cqs v (Suc n) = bindp (ask v) (\<lambda>rc. if rc \<noteq> 0 then fail_with rc else arm_cqs v n)"

definition EPOLLET :: u32 where "EPOLLET = 2 ^ 31"

definition init_objects :: "verbs \<Rightarrow> int ep" where
  "init_objects v = andthen (create v COMP_CHANNEL Chan) (andthen (SetNonBlocking v)
     (andthen (CreateCq v SEND_CQ) (andthen (CreateCq v RECV_CQ) (andthen (CreateCq v DATA_SEND_CQ) (andthen (CreateCq v DATA_RECV_CQ)
     (andthen (CreateQp v QP SEND_CQ RECV_CQ) (andthen (CreateQp v DATA_QP DATA_SEND_CQ DATA_RECV_CQ)
     (andthen (resize_rings v) (arm_cqs v 4)))))))))"

definition publish_channel :: "verbs \<Rightarrow> int ep" where
  "publish_channel v = unless_failed v (deref COMP_CHANNEL (\<lambda>ch.
     bindp (upd (\<lambda>s. s\<lparr>cq_event_fd := fd_of v ch\<rparr>)) (\<lambda>_. bindp (get cq_registration) (\<lambda>r.
     bindp (register v (fd_of v ch) OnCompChannelEvent_cb (EPOLLIN OR EPOLLET) r) (\<lambda>(rc, r').
     bindp (upd (\<lambda>s. s\<lparr>cq_registration := r'\<rparr>)) (\<lambda>_. ret rc))))))"

text \<open>The scope guard of \<open>AllocateResources\<close>; \<open>d\<close> tells whether the dispatcher is known already.\<close>

definition rollback :: "verbs \<Rightarrow> bool \<Rightarrow> unit ep" where
  "rollback v d = bindp (get errno) (\<lambda>e.
     bindp (if d then deref COMP_CHANNEL (\<lambda>ch. bindp (get cq_registration) (unregister v (fd_of v ch))) else ret ()) (\<lambda>_.
     bindp (DeallocateResources v) (\<lambda>_. upd (\<lambda>s. s\<lparr>errno := e\<rparr>))))"

definition AllocateResources :: "verbs \<Rightarrow> int ep" where
  "AllocateResources v = bindp (get (\<lambda>s. res s COMP_CHANNEL)) (\<lambda>c.
     if c \<noteq> None then crash Aborted
     else bindp (init_objects v) (\<lambda>rc.
       if rc < 0 then bindp (rollback v False) (\<lambda>_. ret (-1))
       else bindp (publish_channel v) (\<lambda>rc.
         if rc < 0 then bindp (rollback v True) (\<lambda>_. ret (-1)) else ret 0)))"

section \<open>Events of the channel\<close>

definition MAX_CQ_EVENTS :: nat where "MAX_CQ_EVENTS = 128"

text \<open>A round of the loop. Every event that was fetched has to be acknowledged: later for the endpoint's own
  queues, where a counter remembers it, at once for another.\<close>

definition count_event :: "vobj \<Rightarrow> endpoint \<Rightarrow> endpoint" where
  "count_event c s = (let s1 = s\<lparr>unacked := (unacked s)(c := unacked s c + 1)\<rparr>;
       bump = (\<lambda>a. s1\<lparr>cq_events := (cq_events s)(a := cq_events s a + 1)\<rparr>) in
     if res s SEND_CQ = Some c then bump SEND_CQ
     else if res s RECV_CQ = Some c then bump RECV_CQ
     else if res s DATA_SEND_CQ = Some c then bump DATA_SEND_CQ
     else if res s DATA_RECV_CQ = Some c then bump DATA_RECV_CQ
     else s1\<lparr>unacked := (unacked s1)(c := unacked s1 c - 1)\<rparr>)"

fun get_events :: "verbs \<Rightarrow> nat \<Rightarrow> int ep" where
  "get_events v 0 = crash Diverges"
| "get_events v (Suc fuel) = bindp (get asked) (\<lambda>k. bindp (upd (\<lambda>s. s\<lparr>asked := asked s + 1\<rparr>)) (\<lambda>_. case cq_event v k of
     Inl c \<Rightarrow> bindp (upd (count_event c)) (\<lambda>_. get_events v fuel)
   | Inr e \<Rightarrow> if e = EINTR then get_events v fuel else if e = EAGAIN then ret 0 else fail_with e))"

definition ack_if_many :: "slot \<Rightarrow> unit ep" where
  "ack_if_many a = bindp (get (\<lambda>s. cq_events s a)) (\<lambda>n. if n \<ge> MAX_CQ_EVENTS then ack_cq_events a else ret ())"

definition GetAndAckEvents :: "verbs \<Rightarrow> nat \<Rightarrow> int ep" where
  "GetAndAckEvents v fuel = andthen (get_events v fuel)
     (bindp (ack_if_many SEND_CQ) (\<lambda>_. bindp (ack_if_many RECV_CQ) (\<lambda>_. bindp (ack_if_many DATA_SEND_CQ) (\<lambda>_.
      bindp (ack_if_many DATA_RECV_CQ) (\<lambda>_. ret 0)))))"

section \<open>Ownership\<close>

text \<open>A queue is attached to a channel and a queue pair to two queues. The objects of an endpoint are alive,
  each in one slot of its kind, and what is attached to one of them is another one of them.\<close>

primrec wt :: "vobj \<Rightarrow> bool" where
  "wt (Chan n) = True"
| "wt (Cq n c) = (case c of Chan _ \<Rightarrow> True | _ \<Rightarrow> False)"
| "wt (Qp n c d) = ((case c of Cq _ _ \<Rightarrow> True | _ \<Rightarrow> False) \<and> (case d of Cq _ _ \<Rightarrow> True | _ \<Rightarrow> False))"

primrec vids :: "vobj \<Rightarrow> nat set" where
  "vids (Chan n) = {n}"
| "vids (Cq n c) = insert n (vids c)"
| "vids (Qp n c d) = insert n (vids c \<union> vids d)"

definition is_cq :: "slot \<Rightarrow> bool" where
  "is_cq a = (a \<in> {SEND_CQ, RECV_CQ, DATA_SEND_CQ, DATA_RECV_CQ})"

definition is_qp :: "slot \<Rightarrow> bool" where
  "is_qp a = (a \<in> {QP, DATA_QP})"

definition kind :: "slot \<Rightarrow> vobj \<Rightarrow> bool" where
  "kind a x = (case x of Chan _ \<Rightarrow> a = COMP_CHANNEL | Cq _ _ \<Rightarrow> is_cq a | Qp _ _ _ \<Rightarrow> is_qp a)"

definition owns :: "endpoint \<Rightarrow> bool" where
  "owns s \<longleftrightarrow> distinct (alive s) \<and> ran (res s) \<subseteq> set (alive s) \<and> inj_on (res s) (dom (res s)) \<and>
     (\<forall>a x. res s a = Some x \<longrightarrow> kind a x) \<and>
     (\<forall>p \<in> set (alive s). wt p \<and> vids p \<subseteq> {..<asked s} \<and> (\<forall>x \<in> set (attached p). x \<in> ran (res s) \<longrightarrow> p \<in> ran (res s)))"

text \<open>The counters are the events that are not acknowledged yet; a future object has none.\<close>

definition acked :: "endpoint \<Rightarrow> bool" where
  "acked s \<longleftrightarrow> (\<forall>a x. res s a = Some x \<longrightarrow> unacked s x = cq_events s a) \<and>
     (\<forall>a. res s a = None \<or> \<not> is_cq a \<longrightarrow> cq_events s a = 0) \<and> (\<forall>x. \<not> vids x \<subseteq> {..<asked s} \<longrightarrow> unacked s x = 0)"

definition others :: "endpoint \<Rightarrow> vobj list" where
  "others s = filter (\<lambda>x. x \<notin> ran (res s)) (alive s)"

abbreviation bufs :: "endpoint \<Rightarrow> IOBuf list" where
  "bufs s \<equiv> sbuf s @ rbuf s @ read_buf s # map snd (pending_large_frames s)"

definition ready :: "addr set \<Rightarrow> bptr multiset \<Rightarrow> vobj list \<Rightarrow> endpoint \<Rightarrow> bool" where
  "ready X F R s \<longleftrightarrow> owns s \<and> acked s \<and> others s = R \<and> iobufs X F (io_state s) (bufs s) \<and> lb_inv (large_state s)"

text \<open>The documented behaviour of the library: an object to which nothing is attached and that has no
  event left to acknowledge is destroyed; a memory region can be deregistered.\<close>

definition verbs_ok :: "verbs \<Rightarrow> bool" where
  "verbs_ok v \<longleftrightarrow> (\<forall>live x. (\<forall>p \<in> set live. x \<notin> set (attached p)) \<longrightarrow> destroys v live 0 x = Some 0) \<and> (\<forall>m. dereg v m = 0)"

lemma readyD:
  assumes "ready X F R s"
  shows "owns s" "acked s" "others s = R" "iobufs X F (io_state s) (bufs s)" "lb_inv (large_state s)"
  using assms by (simp_all add: ready_def)

lemma kind_slots:
  "kind a (Chan n) = (a = COMP_CHANNEL)" "kind a (Cq n c) = is_cq a" "kind a (Qp n c d) = is_qp a"
  by (simp_all add: kind_def)

section \<open>Destruction\<close>

text \<open>The slots that are destroyed before slot \<open>a\<close>: a queue waits for the queue pairs, the channel for all.\<close>

definition before :: "slot \<Rightarrow> slot \<Rightarrow> bool" where
  "before a b = (is_cq a \<and> is_qp b \<or> a = COMP_CHANNEL \<and> b \<noteq> COMP_CHANNEL)"

lemma ownsD:
  assumes "owns s"
  shows "distinct (alive s)" "ran (res s) \<subseteq> set (alive s)" "inj_on (res s) (dom (res s))"
    "res s a = Some x \<Longrightarrow> kind a x" "p \<in> set (alive s) \<Longrightarrow> wt p" "p \<in> set (alive s) \<Longrightarrow> vids p \<subseteq> {..<asked s}"
    "p \<in> set (alive s) \<Longrightarrow> x \<in> set (attached p) \<Longrightarrow> x \<in> ran (res s) \<Longrightarrow> p \<in> ran (res s)"
  using assms unfolding owns_def by blast+

lemma attached_before: "wt p \<Longrightarrow> x \<in> set (attached p) \<Longrightarrow> kind a x \<Longrightarrow> kind b p \<Longrightarrow> before a b"
  by (cases p; cases x) (auto simp: before_def kind_slots is_cq_def is_qp_def)

lemma nothing_attached:
  assumes "owns s" and "res s a = Some x" and "\<And>b. before a b \<Longrightarrow> res s b = None"
    and "p \<in> set (alive s)"
  shows "x \<notin> set (attached p)"
proof
  note d = ownsD [OF assms(1)]
  assume x: "x \<in> set (attached p)"
  have "x \<in> ran (res s)" using assms(2) by (rule ranI)
  from d(7) [OF assms(4) x this] obtain b where b: "res s b = Some p" unfolding ran_def by blast
  have "before a b" by (rule attached_before [OF d(5) [OF assms(4)] x d(4) [OF assms(2)] d(4) [OF b]])
  then show False using assms(3) b by simp
qed

lemma ran_drop: "inj_on f (dom f) \<Longrightarrow> f a = Some x \<Longrightarrow> ran (f(a := None)) = ran f - {x}"
proof -
  assume i: "inj_on f (dom f)" "f a = Some x"
  then have "b = a" if "f b = Some x" for b using inj_onD [of f "dom f" b a] that by auto
  moreover have "y \<in> ran (f(a := None)) \<longleftrightarrow> (\<exists>b. b \<noteq> a \<and> f b = Some y)" for y by (auto simp: ran_def)
  moreover have "y \<in> ran f \<longleftrightarrow> (\<exists>b. f b = Some y)" for y by (auto simp: ran_def)
  ultimately show ?thesis using i(2) by (intro set_eqI) (metis Diff_iff insertE insertI1 option.inject empty_iff)
qed

lemma owns_drop:
  assumes "owns s" and "res s a = Some x"
  shows "owns (s\<lparr>alive := remove1 x (alive s), res := (res s)(a := None)\<rparr>)"
    and "others (s\<lparr>alive := remove1 x (alive s), res := (res s)(a := None)\<rparr>) = others s"
proof -
  note ow = ownsD [OF assms(1)]
  note i = ow(3) and d = ow(1)
  note r = ran_drop [OF i assms(2)]
  have rm: "remove1 x (alive s) = filter (\<lambda>y. y \<noteq> x) (alive s)" using d by (simp add: distinct_remove1_removeAll removeAll_filter_not_eq) (metis)
  show "owns (s\<lparr>alive := remove1 x (alive s), res := (res s)(a := None)\<rparr>)"
    unfolding owns_def using ow(2,4,5,6,7) d i by (auto simp: r rm inj_on_def)
  have "x \<in> ran (res s)" using assms(2) by (rule ranI)
  then show "others (s\<lparr>alive := remove1 x (alive s), res := (res s)(a := None)\<rparr>) = others s"
    by (auto simp: others_def r rm intro!: filter_cong)
qed

text \<open>The other members of the endpoint.\<close>

definition rest :: "endpoint \<Rightarrow> endpoint" where
  "rest s = s\<lparr>alive := [], res := Map.empty, unacked := (\<lambda>_. 0), cq_events := (\<lambda>_. 0)\<rparr>"

lemma rest_simps [simp]:
  "rest (s\<lparr>alive := l\<rparr>) = rest s" "rest (s\<lparr>res := r\<rparr>) = rest s" "rest (s\<lparr>unacked := u\<rparr>) = rest s" "rest (s\<lparr>cq_events := c\<rparr>) = rest s"
  by (simp_all add: rest_def)

text \<open>A stage of the release of \<open>s0\<close>: the events of the slots \<open>A\<close> are acknowledged, the slots \<open>D\<close> are empty.\<close>

definition winding :: "endpoint \<Rightarrow> slot set \<Rightarrow> slot set \<Rightarrow> endpoint \<Rightarrow> bool" where
  "winding s0 A D s \<longleftrightarrow> owns s \<and> acked s \<and> others s = others s0 \<and> rest s = rest s0 \<and>
     (\<forall>a \<in> A. cq_events s a = 0) \<and> (\<forall>a \<in> D. res s a = None)"

lemma windingD:
  assumes "winding s0 A D s"
  shows "owns s" "acked s" "others s = others s0" "rest s = rest s0" "\<And>a. a \<in> A \<Longrightarrow> cq_events s a = 0" "\<And>a. a \<in> D \<Longrightarrow> res s a = None"
  using assms by (simp_all add: winding_def)

lemma ackedD:
  assumes "acked s"
  shows "res s a = Some x \<Longrightarrow> unacked s x = cq_events s a" "res s a = None \<or> \<not> is_cq a \<Longrightarrow> cq_events s a = 0"
    "\<not> vids x \<subseteq> {..<asked s} \<Longrightarrow> unacked s x = 0"
  using assms unfolding acked_def by blast+

lemma res_inj: "owns s \<Longrightarrow> res s a = Some x \<Longrightarrow> res s b = Some x \<Longrightarrow> a = b"
  by (rule inj_onD [of "res s" "dom (res s)"]) (auto simp: owns_def)

lemma ackedI:
  assumes "\<And>a x. res s a = Some x \<Longrightarrow> unacked s x = cq_events s a" and "\<And>a. res s a = None \<or> \<not> is_cq a \<Longrightarrow> cq_events s a = 0"
    and "\<And>x. \<not> vids x \<subseteq> {..<asked s} \<Longrightarrow> unacked s x = 0"
  shows "acked s"
  unfolding acked_def using assms by blast

lemma acked_ack:
  assumes "owns s" and "acked s" and "res s a = Some x"
  shows "acked (s\<lparr>unacked := (unacked s)(x := unacked s x - cq_events s a), cq_events := (cq_events s)(a := 0)\<rparr>)"
proof (rule ackedI, goal_cases)
  case (1 b y)
  then have b: "res s b = Some y" by simp
  show ?case
  proof (cases "b = a")
    case True
    then show ?thesis using b assms(3) ackedD(1) [OF assms(2,3)] by simp
  next
    case False
    then have "y \<noteq> x" using res_inj [OF assms(1) b] assms(3) by blast
    then show ?thesis using False ackedD(1) [OF assms(2) b] by simp
  qed
next
  case (2 b)
  then show ?case using ackedD(2) [OF assms(2), of b] by simp
next
  case (3 y)
  then show ?case using ackedD(3) [OF assms(2), of y] ackedD(1) [OF assms(2,3)] by simp
qed

lemma winding_ack:
  assumes "winding s0 A D s"
  shows "runs (ack_cq_events a) s (\<lambda>_ s'. winding s0 (insert a A) D s')"
proof (cases "res s a")
  case None
  then have "cq_events s a = 0" using ackedD(2) [OF windingD(2) [OF assms]] by blast
  then show ?thesis using assms None by (simp add: ack_cq_events_def runs_bindp_iff winding_def)
next
  case (Some x)
  note w = windingD [OF assms]
  let ?s = "s\<lparr>unacked := (unacked s)(x := unacked s x - cq_events s a), cq_events := (cq_events s)(a := 0)\<rparr>"
  have "owns ?s" "others ?s = others s" using w(1) by (simp_all add: owns_def others_def)
  then have "winding s0 (insert a A) D ?s" using acked_ack [OF w(1,2) Some] w(3-6) by (simp add: winding_def)
  then show ?thesis using Some by (simp add: ack_cq_events_def runs_bindp_iff)
qed

lemma winding_destroy:
  assumes "winding s0 A D s" and "\<And>a. is_cq a \<Longrightarrow> a \<in> A" and "verbs_ok v" and "\<And>b. before a b \<Longrightarrow> b \<in> D"
  shows "runs (destroy v a) s (\<lambda>_ s'. winding s0 A (insert a D) s')"
proof (cases "res s a")
  case None
  then show ?thesis using assms(1) by (auto simp: destroy_def runs_def winding_def)
next
  case (Some x)
  note w = windingD [OF assms(1)]
  have u: "unacked s x = 0" using ackedD(1) [OF w(2) Some] ackedD(2) [OF w(2), of a] w(5) assms(2) by fastforce
  have "\<forall>p \<in> set (remove1 x (alive s)). x \<notin> set (attached p)"
    using nothing_attached [OF w(1) Some w(6)] assms(4) set_remove1_subset by fast
  then have "destroys v (remove1 x (alive s)) 0 x = Some 0"
    using assms(3) unfolding verbs_ok_def by blast
  moreover have "acked (s\<lparr>alive := remove1 x (alive s), res := (res s)(a := None)\<rparr>)"
    using w(2) ackedD(1) [OF w(2) Some] u by (auto simp: acked_def)
  ultimately show ?thesis
    using owns_drop [OF w(1) Some] w Some u by (auto simp: destroy_def runs_def winding_def)
qed

lemma slots: "a = COMP_CHANNEL \<or> is_cq a \<or> is_qp a"
  by (cases a) (auto simp: is_cq_def is_qp_def)

lemma destroy_objects_ok:
  assumes "owns s" and "acked s" and "verbs_ok v"
    and Q: "\<And>s'. alive s' = others s \<Longrightarrow> res s' = Map.empty \<Longrightarrow> rest s' = rest s \<Longrightarrow> owns s' \<Longrightarrow> acked s' \<Longrightarrow> runs (release_buffers v) s' Q"
  shows "runs (DeallocateResources v) s Q"
proof -
  let ?C = "{DATA_RECV_CQ, DATA_SEND_CQ, RECV_CQ, SEND_CQ}"
  have w: "winding s {} {} s" using assms by (simp add: winding_def)
  have d: "winding s ?C D t \<Longrightarrow> (\<And>b. before a b \<Longrightarrow> b \<in> D) \<Longrightarrow> (\<And>t'. winding s ?C (insert a D) t' \<Longrightarrow> runs (k ()) t' Q) \<Longrightarrow>
      runs (bindp (destroy v a) k) t Q" for t a D and k :: "unit \<Rightarrow> unit ep"
    by (rule runs_then [OF winding_destroy [of s ?C D t v a]]) (auto simp: assms(3) is_cq_def)
  have e: "winding s A {} t \<Longrightarrow> (\<And>t'. winding s (insert a A) {} t' \<Longrightarrow> runs (k ()) t' Q) \<Longrightarrow> runs (bindp (ack_cq_events a) k) t Q"
    for t a A and k :: "unit \<Rightarrow> unit ep"
    by (rule runs_then [OF winding_ack]) auto
  have fin: "runs (release_buffers v) t Q" if t: "winding s ?C {COMP_CHANNEL, RECV_CQ, SEND_CQ, DATA_RECV_CQ, DATA_SEND_CQ, QP, DATA_QP} t" for t
  proof (rule Q)
    have "res t a = None" for a using windingD(6) [OF t, of a] by (cases a) auto
    then show r: "res t = Map.empty" by auto
    show "alive t = others s" using windingD(3) [OF t] by (simp add: others_def r)
    show "rest t = rest s" "owns t" "acked t" using windingD [OF t] by auto
  qed
  have ob: "before COMP_CHANNEL b \<Longrightarrow> b \<in> {RECV_CQ, SEND_CQ, DATA_RECV_CQ, DATA_SEND_CQ, QP, DATA_QP}"
      "is_cq a \<Longrightarrow> before a b \<Longrightarrow> b \<in> {QP, DATA_QP}" "is_qp a \<Longrightarrow> \<not> before a b" for a b
    by (cases b, auto simp: before_def is_cq_def is_qp_def)
  have c: "is_cq SEND_CQ" "is_cq RECV_CQ" "is_cq DATA_SEND_CQ" "is_cq DATA_RECV_CQ" "is_qp QP" "is_qp DATA_QP" by (simp_all add: is_cq_def is_qp_def)
  show ?thesis
    unfolding DeallocateResources_def
    by (rule e [OF w], erule e, erule e, erule e, erule d, simp add: ob(3) c, erule d, simp add: ob(3) c,
        erule d, use ob(2) c in blast, erule d, use ob(2) c in blast, erule d, use ob(2) c in blast, erule d, use ob(2) c in blast,
        erule d, use ob(1) in blast, erule fin)
qed

section \<open>Buffers\<close>

lemma clear_bufs_ok:
  "iobufs X F i (xs @ ys) \<Longrightarrow> runs (clear_bufs xs) i (\<lambda>_ i'. iobufs X F i' ys)"
proof (induction xs arbitrary: i)
  case (Cons x xs)
  from Cons(2) have "iobufs X F i (x # (xs @ ys))" by simp
  from iobufs_destroy [OF this] show ?case
    unfolding clear_bufs.simps by (rule runs_then) (auto intro: Cons(1))
qed simp

lemma clear_one_ok:
  assumes "iobufs X F i (x # ys)"
  shows "runs (IOBuf_clear x) i (\<lambda>x' i'. x' = IOBuf_new \<and> iobufs X F i' (x' # ys))"
proof -
  have "runs (IOBuf_clear x) i (\<lambda>_ i'. iobufs X F i' ys)" by (rule runs_mono [OF iobufs_destroy [OF assms]]) simp
  moreover have "holds X i x (ptrs (concat (map brefs ys)) + F)"
    using assms by (simp add: iobufs_def holds_is_buf ac_simps)
  ultimately show ?thesis
    using runs_conj [OF _ clear_runs] by (fastforce intro: runs_mono iobuf.new_buf(1))
qed

lemma return_large_ok:
  assumes "lb_inv (large_state s)" and "\<And>m. dereg v m = 0"
  shows "runs (return_large v l) s (\<lambda>_ s'. lb_inv (large_state s') \<and> (\<exists>i. s' = s\<lparr>large_state := i\<rparr>))"
  using assms(1)
proof (induction l arbitrary: s)
  case (Cons a l)
  have "runs (on_large (ReturnLargeBlock (dereg v) (Some (snd a)))) s (\<lambda>_ s'. lb_inv (large_state s') \<and> (\<exists>i. s' = s\<lparr>large_state := i\<rparr>))"
    by (rule runs_on_large, rule runs_mono [OF ReturnLargeBlock_runs [OF Cons(2) assms(2)]]) auto
  then have "runs (return_large v ((fst a, snd a) # l)) s (\<lambda>_ s'. lb_inv (large_state s') \<and> (\<exists>i. s' = s\<lparr>large_state := i\<rparr>))"
    unfolding return_large.simps
    by (rule runs_then) (elim conjE exE, rule runs_mono [OF Cons(1)], auto)
  then show ?case by simp
next
  case Nil
  have "s = s\<lparr>large_state := large_state s\<rparr>" by simp
  then show ?case using Nil unfolding return_large.simps runs_ret by blast
qed

lemma then_get: "runs (k (f s)) s Q \<Longrightarrow> runs (bindp (get f) k) s Q"
  by (simp add: runs_bindp_iff)

lemma then_upd: "runs (k ()) (f s) Q \<Longrightarrow> runs (bindp (upd f) k) s Q"
  by (simp add: runs_bindp_iff)

lemma then_clear:
  assumes "iobufs X F (io_state s) (xs @ ys)" and "\<And>i. iobufs X F i ys \<Longrightarrow> runs (k ()) (s\<lparr>io_state := i\<rparr>) Q"
  shows "runs (bindp (on_io (clear_bufs xs)) k) s Q"
  by (rule runs_bindp, rule runs_on_io, rule runs_mono [OF clear_bufs_ok [OF assms(1)]]) (simp add: assms(2))

lemma then_clear_one:
  assumes "iobufs X F (io_state s) (x # ys)" and "\<And>i. iobufs X F i (IOBuf_new # ys) \<Longrightarrow> runs (k IOBuf_new) (s\<lparr>io_state := i\<rparr>) Q"
  shows "runs (bindp (on_io (IOBuf_clear x)) k) s Q"
  by (rule runs_bindp, rule runs_on_io, rule runs_mono [OF clear_one_ok [OF assms(1)]]) (use assms(2) in blast)

lemma then_large:
  assumes "lb_inv (large_state s)" and "\<And>m. dereg v m = 0" and "\<And>l. lb_inv l \<Longrightarrow> runs (k ()) (s\<lparr>large_state := l\<rparr>) Q"
  shows "runs (bindp (return_large v ms) k) s Q"
  by (rule runs_then [OF return_large_ok [OF assms(1,2)]]) (use assms(3) in auto)

definition emptied :: "io \<Rightarrow> large_tls \<Rightarrow> endpoint \<Rightarrow> endpoint" where
  "emptied i l s = s\<lparr>io_state := i, large_state := l, sbuf := [], rbuf := [], rbuf_data := [], read_buf := IOBuf_new,
     pending_large_map := [], pending_large_frames := []\<rparr>"

lemma release_buffers_ok:
  assumes "iobufs X F (io_state s) (bufs s)" and "lb_inv (large_state s)" and "\<And>m. dereg v m = 0"
  shows "runs (release_buffers v) s (\<lambda>_ s'. s' = emptied (io_state s') (large_state s') s \<and>
    iobufs X F (io_state s') [IOBuf_new] \<and> lb_inv (large_state s'))"
proof -
  let ?fs = "map snd (pending_large_frames s)"
  show ?thesis
    unfolding release_buffers_def
    apply (rule then_get, rule then_clear [OF assms(1)], rule then_upd, rule then_get)
    apply (rule then_clear [of X F _ _ "read_buf s # ?fs"], simp, rule then_upd, rule then_get)
    apply (rule then_clear_one [of X F _ _ ?fs], simp, rule then_upd, rule then_get)
    apply (rule then_large, simp add: assms(2), rule assms(3), rule then_upd, rule then_get)
    apply (rule then_clear [of X F _ _ "[IOBuf_new]"], simp, erule iobuf.order, simp)
    apply (unfold runs_upd emptied_def, intro conjI endpoint.equality)
    by simp_all
qed

text \<open>What neither allocation nor release of the objects touches.\<close>

definition conn :: "endpoint \<Rightarrow> dispatcher \<times> VRefId \<times> VRefId \<times> int \<times> VRefId \<times> nat \<times> nat \<times> int option \<times> int list" where
  "conn s = (events_state s, ep_id s, cq_registration s, tcp_fd s, tcp_registration s, sq_size s, rq_size s, failed_with s, closed_fds s)"

definition released :: "addr set \<Rightarrow> bptr multiset \<Rightarrow> endpoint \<Rightarrow> bool" where
  "released X F s \<longleftrightarrow> res s = Map.empty \<and> (\<forall>a. cq_events s a = 0) \<and> sbuf s = [] \<and> rbuf s = [] \<and> rbuf_data s = [] \<and> read_buf s = IOBuf_new \<and>
     pending_large_map s = [] \<and> pending_large_frames s = [] \<and> iobufs X F (io_state s) [IOBuf_new] \<and> lb_inv (large_state s) \<and> owns s \<and> acked s"

lemma DeallocateResources_ok:
  assumes "ready X F R s" and "verbs_ok v"
  shows "runs (DeallocateResources v) s (\<lambda>_ s'. released X F s' \<and> alive s' = R \<and> conn s' = conn s \<and> asked s' = asked s \<and> errno s' = errno s)"
proof (rule destroy_objects_ok [OF readyD(1,2) [OF assms(1)] assms(2)])
  note r = readyD [OF assms(1)]
  fix t assume t: "alive t = others s" "res t = Map.empty" "rest t = rest s" "owns t" "acked t"
  have f: "f t = f s" if "\<And>x. f (rest x) = f x" for f :: "endpoint \<Rightarrow> 'a" using arg_cong [OF t(3), of f] that by simp
  have eq: "io_state t = io_state s" "large_state t = large_state s" "bufs t = bufs s" "asked t = asked s" "errno t = errno s"
    by (simp_all add: f rest_def)
  have b: "conn (emptied i l t) = conn s" for i l by (simp add: conn_def emptied_def f rest_def)
  show "runs (release_buffers v) t (\<lambda>_ s'. released X F s' \<and> alive s' = R \<and> conn s' = conn s \<and> asked s' = asked s \<and> errno s' = errno s)"
  proof (rule runs_mono [OF release_buffers_ok [of X F t v]])
    show "iobufs X F (io_state t) (bufs t)" "lb_inv (large_state t)" "\<And>m. dereg v m = 0"
      using r(4,5) eq assms(2) by (simp_all add: verbs_ok_def)
    fix u s' assume "s' = emptied (io_state s') (large_state s') t \<and> iobufs X F (io_state s') [IOBuf_new] \<and> lb_inv (large_state s')"
    then obtain i l where s': "s' = emptied i l t" "iobufs X F i [IOBuf_new]" "lb_inv l" by blast
    have "owns s'" "acked s'" using t(4,5) unfolding s'(1) emptied_def by (simp_all add: owns_def acked_def)
    moreover have "cq_events t a = 0" for a using ackedD(2) [OF t(5), of a] t(2) by simp
    ultimately show "released X F s' \<and> alive s' = R \<and> conn s' = conn s \<and> asked s' = asked s \<and> errno s' = errno s"
      using t(1,2) r(3) s'(2,3) b [of i l] eq(4,5) by (simp add: released_def s'(1)) (simp add: emptied_def)
  qed
qed

section \<open>Creation of the objects\<close>

lemma subset_lessThan_Suc: "A \<subseteq> {..<n} \<Longrightarrow> A \<subseteq> {..<Suc n}"
  by auto

lemma no_events_yet: "acked s \<Longrightarrow> \<not> vids y \<subseteq> {..<Suc (asked s)} \<Longrightarrow> unacked s y = 0"
  using ackedD(3) [of s y] subset_lessThan_Suc by blast

lemma ask_ok:
  assumes "ready X F R s"
  shows "ready X F R (s\<lparr>asked := Suc (asked s)\<rparr>)"
proof -
  note r = readyD [OF assms]
  note ow = ownsD [OF r(1)]
  have "vids p \<subseteq> {..<Suc (asked s)}" if "p \<in> set (alive s)" for p by (rule subset_lessThan_Suc [OF ow(6) [OF that]])
  then have "owns (s\<lparr>asked := Suc (asked s)\<rparr>)" unfolding owns_def using ow(1-5,7) by simp
  moreover have "acked (s\<lparr>asked := Suc (asked s)\<rparr>)"
    by (rule ackedI) (use ackedD(1,2) [OF r(2)] no_events_yet [OF r(2)] in simp_all)
  ultimately show ?thesis using r by (simp add: ready_def others_def)
qed

lemma ready_errno: "ready X F R s \<Longrightarrow> ready X F R (s\<lparr>errno := e\<rparr>)"
  by (simp add: ready_def owns_def acked_def others_def)

lemma attached_vids: "y \<in> set (attached p) \<Longrightarrow> vids y \<subseteq> vids p"
  by (cases p) auto

lemma add_object_ok:
  assumes "ready X F R s" and "res s a = None" and "kind a x" and "wt x" and "asked s \<in> vids x" and "vids x \<subseteq> {..asked s}"
    and "set (attached x) \<subseteq> ran (res s)"
  shows "ready X F R (s\<lparr>asked := Suc (asked s), alive := x # alive s, res := (res s)(a \<mapsto> x)\<rparr>)"
proof -
  note r = readyD [OF assms(1)]
  note ow = ownsD [OF r(1)]
  let ?s = "s\<lparr>asked := Suc (asked s), alive := x # alive s, res := (res s)(a \<mapsto> x)\<rparr>"
  have new: "x \<notin> set (alive s)" using ow(6) [of x] assms(5) by auto
  have n: "\<not> vids x \<subseteq> {..<asked s}" using assms(5) by auto
  have ran: "ran ((res s)(a \<mapsto> x)) = insert x (ran (res s))" using assms(2) by simp
  have u: "unacked s x = 0" by (rule ackedD(3) [OF r(2) n])
  have z: "cq_events s a = 0" using ackedD(2) [OF r(2)] assms(2) by blast
  have "inj_on ((res s)(a \<mapsto> x)) (insert a (dom (res s)))"
    using ow(2,3) new unfolding inj_on_def by (auto intro: ranI)
  moreover have "wt p \<and> vids p \<subseteq> {..<Suc (asked s)} \<and> (\<forall>y \<in> set (attached p). y \<in> insert x (ran (res s)) \<longrightarrow> p \<in> insert x (ran (res s)))"
    if p: "p \<in> insert x (set (alive s))" for p
  proof (cases "p = x")
    case True
    then show ?thesis using assms(4,6) by auto
  next
    case False
    then have p': "p \<in> set (alive s)" using p by simp
    then have "x \<notin> set (attached p)" using attached_vids [of x p] ow(6) [OF p'] n by blast
    then show ?thesis using ow(5,7) [OF p'] subset_lessThan_Suc [OF ow(6) [OF p']] by auto
  qed
  ultimately have "owns ?s" using ow(1,2,4) new assms(3) by (simp add: owns_def ran) auto
  moreover have "acked ?s"
    by (rule ackedI) (use ackedD(1,2) [OF r(2)] no_events_yet [OF r(2)] u z in \<open>auto split: if_splits\<close>)
  moreover have "others ?s = others s"
    using new by (auto simp: others_def ran intro!: filter_cong)
  ultimately show ?thesis using r by (simp add: ready_def)
qed

text \<open>A stage of the allocation that started in \<open>s0\<close>: the slots \<open>A\<close> are filled.\<close>

definition built :: "addr set \<Rightarrow> bptr multiset \<Rightarrow> vobj list \<Rightarrow> endpoint \<Rightarrow> slot set \<Rightarrow> endpoint \<Rightarrow> bool" where
  "built X F R s0 A s \<longleftrightarrow> ready X F R s \<and> conn s = conn s0 \<and> dom (res s) = A"

lemma built_ask: "built X F R s0 A s \<Longrightarrow> built X F R s0 A (s\<lparr>asked := Suc (asked s)\<rparr>)"
  by (simp add: built_def ask_ok conn_def)

lemma built_errno: "built X F R s0 A s \<Longrightarrow> built X F R s0 A (s\<lparr>errno := e\<rparr>)"
  by (simp add: built_def ready_errno conn_def)

lemma create_ok:
  assumes "built X F R s0 A s" and "a \<notin> A" and "kind a (mk (asked s))" and "wt (mk (asked s))" and "asked s \<in> vids (mk (asked s))"
    and "vids (mk (asked s)) \<subseteq> {..asked s}" and "set (attached (mk (asked s))) \<subseteq> ran (res s)"
  shows "runs (create v a mk) s (\<lambda>rc s'. built X F R s0 (if rc < 0 then A else insert a A) s')"
proof -
  have b: "ready X F R s" "res s a = None" "conn s = conn s0" "dom (res s) = A" using assms(1,2) by (auto simp: built_def)
  have "built X F R s0 (insert a A) (s\<lparr>asked := Suc (asked s), alive := mk (asked s) # alive s, res := (res s)(a \<mapsto> mk (asked s))\<rparr>)"
    using add_object_ok [OF b(1,2) assms(3-7)] b by (simp add: built_def conn_def)
  then show ?thesis
    using built_errno [OF built_ask [OF assms(1)]] by (simp add: create_def runs_bindp_iff)
qed

lemma deref_ok:
  assumes "built X F R s0 A s" and "a \<in> A" and "\<And>c. res s a = Some c \<Longrightarrow> c \<in> set (alive s) \<Longrightarrow> kind a c \<Longrightarrow> runs (k c) s Q"
  shows "runs (deref a k) s Q"
proof -
  have r: "owns s" using assms(1) readyD(1) by (auto simp: built_def)
  obtain c where c: "res s a = Some c" using assms(1,2) by (auto simp: built_def)
  have "c \<in> ran (res s)" using c by (rule ranI)
  then have "runs (k c) s Q" using assms(3) [OF c] ownsD(2,4) [OF r] c by blast
  then show ?thesis using c by (simp add: deref_def runs_bindp_iff)
qed

lemma alive_vids: "built X F R s0 A s \<Longrightarrow> c \<in> set (alive s) \<Longrightarrow> vids c \<subseteq> {..<asked s}"
  using ownsD(6) readyD(1) unfolding built_def by blast

lemma CreateCq_ok:
  assumes b: "built X F R s0 A s" and "COMP_CHANNEL \<in> A" and "is_cq a" and "a \<notin> A"
  shows "runs (CreateCq v a) s (\<lambda>rc s'. built X F R s0 (if rc < 0 then A else insert a A) s')"
  unfolding CreateCq_def
proof (rule deref_ok [OF b assms(2)])
  fix c assume c: "res s COMP_CHANNEL = Some c" "c \<in> set (alive s)" "kind COMP_CHANNEL c"
  have "c \<in> ran (res s)" using c(1) by (rule ranI)
  moreover obtain n where "c = Chan n" using c(3) by (cases c) (auto simp: kind_slots is_cq_def is_qp_def)
  ultimately show "runs (create v a (\<lambda>k. Cq k c)) s (\<lambda>rc s'. built X F R s0 (if rc < 0 then A else insert a A) s')"
    using alive_vids [OF b c(2)] assms(3) by (intro create_ok [OF b assms(4)]) (auto simp: kind_slots)
qed

lemma CreateQp_ok:
  assumes b: "built X F R s0 A s" and "c \<in> A" "is_cq c" and "d \<in> A" "is_cq d" and "is_qp a" and "a \<notin> A"
  shows "runs (CreateQp v a c d) s (\<lambda>rc s'. built X F R s0 (if rc < 0 then A else insert a A) s')"
  unfolding CreateQp_def
proof (rule deref_ok [OF b assms(2)], rule deref_ok [OF b assms(4)])
  fix x y assume x: "res s c = Some x" "x \<in> set (alive s)" "kind c x" and y: "res s d = Some y" "y \<in> set (alive s)" "kind d y"
  have "x \<in> ran (res s)" "y \<in> ran (res s)" using x(1) y(1) by (auto intro: ranI)
  moreover obtain n m h g where "x = Cq n h" "y = Cq m g"
    using x(3) y(3) assms(3,5) by (cases x; cases y) (auto simp: kind_slots is_cq_def is_qp_def)
  ultimately show "runs (create v a (\<lambda>k. Qp k x y)) s (\<lambda>rc s'. built X F R s0 (if rc < 0 then A else insert a A) s')"
    using alive_vids [OF b x(2)] alive_vids [OF b y(2)] assms(6) by (intro create_ok [OF b assms(7)]) (auto simp: kind_slots)
qed

lemma SetNonBlocking_ok:
  assumes "built X F R s0 A s"
  shows "runs (SetNonBlocking v) s (\<lambda>rc s'. built X F R s0 A s')"
proof -
  note one = built_ask [OF assms]
  have two: "built X F R s0 A (s\<lparr>asked := Suc (Suc (asked s))\<rparr>)" using built_ask [OF one] by simp
  show ?thesis using one two built_errno [OF one] built_errno [OF two] by (simp add: SetNonBlocking_def runs_bindp_iff)
qed

lemma vec_resize_ok:
  assumes "iobufs X F i (l @ ys)"
  shows "runs (vec_resize n l) i (\<lambda>l' i'. length l' = n \<and> iobufs X F i' (l' @ ys))"
proof -
  have new: "iobufs X F j zs \<Longrightarrow> iobufs X F j (replicate k IOBuf_new @ zs)" for j k zs
    by (induction k) (auto intro: iobuf.new_buf(1))
  have "mset (l @ ys) = mset (drop n l @ take n l @ ys)" by (metis append_take_drop_id mset_append union_commute add.assoc)
  from iobuf.order [OF assms this] show ?thesis
    unfolding vec_resize_def
  proof (rule runs_then [OF clear_bufs_ok], unfold runs_ret)
    fix j assume "iobufs X F j (take n l @ ys)"
    from iobuf.order [OF new [OF this, of "n - length l"]]
    have "iobufs X F j ((take n l @ replicate (n - length l) IOBuf_new) @ ys)" by simp
    then show "length (take n l @ replicate (n - length l) IOBuf_new) = n \<and> iobufs X F j ((take n l @ replicate (n - length l) IOBuf_new) @ ys)"
      by simp
  qed
qed

lemma ready_bufs:
  assumes "ready X F R s" and "iobufs X F i (l @ l' @ read_buf s # map snd (pending_large_frames s))"
  shows "ready X F R (s\<lparr>io_state := i, sbuf := l, rbuf := l'\<rparr>)"
  using assms by (simp add: ready_def owns_def acked_def others_def)

lemma resize_sbuf_ok:
  assumes "built X F R s0 A s"
  shows "runs (bindp (get sbuf) (\<lambda>l. bindp (on_io (vec_resize n l)) (\<lambda>l'. upd (\<lambda>s. s\<lparr>sbuf := l'\<rparr>)))) s
    (\<lambda>_ s'. built X F R s0 A s' \<and> length (sbuf s') = n)"
proof -
  have r: "ready X F R s" using assms by (simp add: built_def)
  show ?thesis
    by (rule then_get, rule runs_bindp, rule runs_on_io, rule runs_mono [OF vec_resize_ok [OF readyD(4) [OF r]]])
      (use assms ready_bufs [OF r, of _ _ "rbuf s"] in \<open>auto simp: built_def conn_def\<close>)
qed

lemma resize_rbuf_ok:
  assumes "built X F R s0 A s"
  shows "runs (bindp (get rbuf) (\<lambda>l. bindp (on_io (vec_resize n l)) (\<lambda>l'. upd (\<lambda>s. s\<lparr>rbuf := l'\<rparr>)))) s
    (\<lambda>_ s'. built X F R s0 A s' \<and> length (rbuf s') = n \<and> sbuf s' = sbuf s)"
proof -
  have r: "ready X F R s" using assms by (simp add: built_def)
  let ?t = "read_buf s # map snd (pending_large_frames s)"
  have b: "iobufs X F (io_state s) (rbuf s @ sbuf s @ ?t)" by (rule iobuf.order [OF readyD(4) [OF r]]) simp
  have back': "iobufs X F j (l' @ sbuf s @ ?t) \<Longrightarrow> iobufs X F j (sbuf s @ l' @ ?t)" for j l' by (erule iobuf.order) simp
  show ?thesis
    by (rule then_get, rule runs_bindp, rule runs_on_io, rule runs_mono [OF vec_resize_ok [OF b]])
      (use assms ready_bufs [OF r back'] in \<open>auto simp: built_def conn_def\<close>)
qed

lemma may_throw_ok:
  assumes "built X F R s0 A s" and "\<And>s'. built X F R s0 A s' \<Longrightarrow> sbuf s' = sbuf s \<Longrightarrow> rbuf s' = rbuf s \<Longrightarrow> runs m s' (\<lambda>_. Q)"
  shows "runs (may_throw v m) s (\<lambda>rc s'. if rc < 0 then built X F R s0 A s' else Q s')"
proof -
  note b = built_ask [OF assms(1)]
  show ?thesis
    using built_errno [OF b] runs_mono [OF assms(2) [OF b]] by (auto simp: may_throw_def runs_bindp_iff)
qed

lemma resize_rings_ok:
  assumes b: "built X F R s0 A s" and "3 \<le> sq_size s0"
  shows "runs (resize_rings v) s (\<lambda>rc s'. built X F R s0 A s' \<and>
    (0 \<le> rc \<longrightarrow> length (sbuf s') = sq_size s0 - 3 \<and> length (rbuf s') = rq_size s0 \<and> length (rbuf_data s') = rq_size s0))"
proof -
  have sz: "sq_size t = sq_size s0" "rq_size t = rq_size s0" if "built X F R s0 A t" for t using that by (auto simp: built_def conn_def)
  have "\<not> sq_size s < RESERVED_WR_NUM" "RESERVED_WR_NUM = 3" using sz [OF b] assms(2) by (auto simp: RESERVED_WR_NUM_def)
  then show ?thesis
    unfolding resize_rings_def
    apply (intro then_get) apply (simp add: sz [OF b])
    apply (rule runs_andthen, rule runs_mono [OF may_throw_ok [OF b resize_sbuf_ok]], assumption)
    apply (clarsimp split: if_splits)
    apply (rule runs_andthen, rule runs_mono [OF may_throw_ok [where Q = "\<lambda>t. built X F R s0 A t \<and> length (rbuf t) = rq_size s0 \<and>
        length (sbuf t) = sq_size s0 - 3"]], assumption, rule runs_mono [OF resize_rbuf_ok], assumption, simp)
    apply (clarsimp split: if_splits)
    apply (rule runs_mono [OF may_throw_ok [where Q = "\<lambda>s'. built X F R s0 A s' \<and> length (sbuf s') = sq_size s0 - 3 \<and> length (rbuf s') = rq_size s0 \<and> length (rbuf_data s') = rq_size s0"]], assumption)
     apply (auto simp: built_def conn_def ready_def owns_def acked_def others_def split: if_splits)
    done
qed

lemma arm_cqs_ok:
  "built X F R s0 A s \<Longrightarrow> runs (arm_cqs v n) s (\<lambda>rc s'. built X F R s0 A s' \<and> sbuf s' = sbuf s \<and> rbuf s' = rbuf s \<and> rbuf_data s' = rbuf_data s \<and> rc \<in> {0, -1})"
proof (induction n arbitrary: s)
  case (Suc n)
  note b = built_ask [OF Suc(2)]
  show ?case using built_errno [OF b] Suc(1) [OF b] by (simp add: runs_bindp_iff)
qed simp

text \<open>An endpoint whose objects and rings are all there.\<close>

definition complete :: "endpoint \<Rightarrow> endpoint \<Rightarrow> bool" where
  "complete s0 s \<longleftrightarrow> dom (res s) = UNIV \<and> length (sbuf s) = sq_size s0 - 3 \<and> length (rbuf s) = rq_size s0 \<and> length (rbuf_data s) = rq_size s0"

lemma init_objects_ok:
  assumes "built X F R s0 {} s" and "3 \<le> sq_size s0"
  shows "runs (init_objects v) s (\<lambda>rc s'. (\<exists>A. built X F R s0 A s' \<and> (COMP_CHANNEL \<notin> A \<longrightarrow> rc < 0)) \<and> (0 \<le> rc \<longrightarrow> complete s0 s'))"
    (is "runs _ _ ?Q")
proof -
  have q: "?Q (-1) s'" if "built X F R s0 A s'" for A s' using that by auto
  have stop: "runs (andthen m k) t ?Q"
    if "runs m t (\<lambda>rc s'. built X F R s0 (if rc < 0 then A else B) s')" "\<And>t'. built X F R s0 B t' \<Longrightarrow> runs k t' ?Q" for m k t A B
    by (rule runs_andthen, rule runs_mono [OF that(1)]) (use that(2) q in \<open>auto split: if_splits\<close>)
  have cqs: "is_cq SEND_CQ" "is_cq RECV_CQ" "is_cq DATA_SEND_CQ" "is_cq DATA_RECV_CQ" "is_qp QP" "is_qp DATA_QP" by (simp_all add: is_cq_def is_qp_def)
  have all: "insert DATA_QP {QP, DATA_RECV_CQ, DATA_SEND_CQ, RECV_CQ, SEND_CQ, COMP_CHANNEL} = UNIV"
    by (rule set_eqI, rename_tac x, case_tac x) auto
  have fin: "runs (andthen (resize_rings v) (arm_cqs v 4)) t ?Q" if t: "built X F R s0 UNIV t" for t
    by (rule runs_andthen, rule runs_mono [OF resize_rings_ok [OF t assms(2)]], simp split: if_splits, intro conjI impI, use q in blast,
        rule runs_mono [OF arm_cqs_ok]) (auto simp: complete_def built_def)
  have start: "runs (create v COMP_CHANNEL Chan) s (\<lambda>rc s'. built X F R s0 (if rc < 0 then {} else {COMP_CHANNEL}) s')"
    by (rule create_ok [OF assms(1)]) (auto simp: kind_slots)
  show ?thesis
    unfolding init_objects_def
    apply (rule stop [OF start], rule stop [where A = "{COMP_CHANNEL}" and B = "{COMP_CHANNEL}"], rule runs_mono [OF SetNonBlocking_ok], assumption, simp)
    apply ((rule stop, erule CreateCq_ok, simp, rule cqs, simp)+)
    apply (rule stop, erule CreateQp_ok, simp, rule cqs, simp, rule cqs, rule cqs, simp)
    apply (rule stop, erule CreateQp_ok, simp, rule cqs, simp, rule cqs, rule cqs, simp)
    by (rule fin) (simp only: all)
qed

section \<open>Publication\<close>

lemma RegisterEvent_outcome:
  assumes "RegisterEvent c e fd opts ev reg d = ((rc, r), d')"
  shows "rc = 0 \<and> fd_map d' fd = Some r \<or> rc = -1 \<and> fd_map d' = fd_map d \<and> (r = reg \<or> r = INVALID_REGISTRATION)"
  using assms by (auto simp: RegisterEvent_def data_create_def Let_def fun_upd_idem split: option.splits if_splits)

lemma ready_conn:
  assumes "ready X F R s"
  shows "ready X F R (s\<lparr>cq_event_fd := f, events_state := d, errno := e, asked := Suc (asked s), cq_registration := r\<rparr>)"
  using ask_ok [OF assms] by (simp add: ready_def owns_def acked_def others_def)

lemma publish_channel_ok:
  assumes "ready X F R s" and "complete s0 s" and "cq_registration s = INVALID_REGISTRATION"
  shows "runs (publish_channel v) s (\<lambda>rc s'. ready X F R s' \<and> complete s0 s' \<and>
    (rc = 0 \<and> fd_map (events_state s') (cq_event_fd s') = Some (cq_registration s') \<or>
     rc = -1 \<and> fd_map (events_state s') = fd_map (events_state s) \<and> cq_registration s' = INVALID_REGISTRATION))"
proof -
  obtain c where c: "res s COMP_CHANNEL = Some c" using assms(2) by (auto simp: complete_def)
  have cm: "complete s0 (s\<lparr>cq_event_fd := f, events_state := d, errno := e, asked := n, cq_registration := r\<rparr>)" for f d e n r
    using assms(2) by (simp add: complete_def)
  have cm': "complete s0 (s\<lparr>errno := e\<rparr>)" for e using assms(2) by (simp add: complete_def)
  have "runs (register v (fd_of v c) cb ev reg) (s\<lparr>cq_event_fd := f\<rparr>) Q \<longleftrightarrow> (case RegisterEvent (reg_id v (asked s)) (answer v (asked s)) (fd_of v c)
      \<lparr>input_cb = Some cb, output_cb = None, ev_user_data = ep_id s, on_recycled = None\<rparr> ev reg ((events_state s)\<lparr>derrno := errno s\<rparr>) of
      (r, d) \<Rightarrow> Q r (s\<lparr>cq_event_fd := f, events_state := d, errno := derrno d, asked := asked s + 1\<rparr>))" for cb ev reg f Q
    by (simp add: register_def runs_def split: prod.splits)
  note reg = this
  show ?thesis
    using assms(3) ready_errno [OF assms(1)]
    by (auto simp: publish_channel_def deref_def runs_bindp_iff c reg ready_conn [OF assms(1)] cm cm' split: prod.splits dest!: RegisterEvent_outcome)
qed

lemma released_errno: "released X F s \<Longrightarrow> released X F (s\<lparr>errno := e\<rparr>)"
  by (simp add: released_def owns_def acked_def)

lemma rollback_ok:
  assumes "ready X F R s" and "verbs_ok v" and "d \<longrightarrow> res s COMP_CHANNEL \<noteq> None \<and> cq_registration s = INVALID_REGISTRATION"
  shows "runs (rollback v d) s (\<lambda>_ s'. released X F s' \<and> alive s' = R \<and> fd_map (events_state s') = fd_map (events_state s))"
proof -
  have fin: "runs (bindp (DeallocateResources v) (\<lambda>_. upd (\<lambda>s. s\<lparr>errno := e\<rparr>))) t
      (\<lambda>_ s'. released X F s' \<and> alive s' = R \<and> fd_map (events_state s') = fd_map (events_state t))" if "ready X F R t" for t e
    by (rule runs_then [OF DeallocateResources_ok [OF that assms(2)]]) (simp add: released_errno conn_def)
  have ev: "ready X F R (s\<lparr>events_state := d', asked := Suc (asked s)\<rparr>)" for d'
    using ask_ok [OF assms(1)] by (simp add: ready_def owns_def acked_def others_def)
  show ?thesis
    using fin [OF assms(1)] fin [OF ev [of "(events_state s)\<lparr>derrno := errno s\<rparr>"]] assms(3)
    by (cases d) (auto simp: rollback_def runs_bindp_iff deref_def unregister_def runs_def [of "\<lambda>s. Inr (_ s)"] UnregisterEvent_def split: prod.splits)
qed

lemma AllocateResources_ok:
  assumes "released X F s" and "verbs_ok v" and "3 \<le> sq_size s" and "cq_registration s = INVALID_REGISTRATION"
  shows "runs (AllocateResources v) s (\<lambda>rc s'.
    rc = 0 \<and> ready X F (alive s) s' \<and> complete s s' \<and> fd_map (events_state s') (cq_event_fd s') = Some (cq_registration s') \<or>
    rc = -1 \<and> released X F s' \<and> alive s' = alive s \<and> fd_map (events_state s') = fd_map (events_state s))"
proof -
  have b: "built X F (alive s) s {} s" and n: "res s COMP_CHANNEL = None"
    using assms(1) by (simp_all add: built_def released_def ready_def others_def)
  show ?thesis
    unfolding AllocateResources_def
  proof (rule then_get, simp only: n not_True_eq_False if_False simp_thms, rule runs_then [OF init_objects_ok [OF b assms(3)]], goal_cases)
    case (1 rc t)
    then obtain A where t: "built X F (alive s) s A t" "COMP_CHANNEL \<notin> A \<longrightarrow> rc < 0" "0 \<le> rc \<longrightarrow> complete s t" by blast
    then have r: "ready X F (alive s) t" "events_state t = events_state s" "cq_registration t = INVALID_REGISTRATION"
      using assms(4) by (auto simp: built_def conn_def)
    show ?case
    proof (cases "rc < 0")
      case True
      have "runs (rollback v False) t (\<lambda>_ s'. released X F s' \<and> alive s' = alive s \<and> fd_map (events_state s') = fd_map (events_state t))"
        by (rule rollback_ok [OF r(1) assms(2)]) simp
      then show ?thesis using True r(2) by (auto simp: runs_bindp_iff elim: runs_mono)
    next
      case False
      then have "complete s t" using t(3) by simp
      note pub = publish_channel_ok [OF r(1) this r(3), of v]
      have "runs (rollback v True) u (\<lambda>_ s'. released X F s' \<and> alive s' = alive s \<and> fd_map (events_state s') = fd_map (events_state u))"
        if "ready X F (alive s) u" "complete s u" "cq_registration u = INVALID_REGISTRATION" for u
        by (rule rollback_ok [OF that(1) assms(2)]) (use that in \<open>auto simp: complete_def\<close>)
      note rb = this
      show ?thesis
        using False by (auto intro!: runs_then [OF pub] runs_then [OF rb] simp: r(2))
    qed
  qed
qed

section \<open>The events are accounted for\<close>

lemma count_event_ok:
  assumes "owns s" and "acked s"
  shows "acked (count_event c s)"
proof -
  have one: "acked (s\<lparr>unacked := (unacked s)(c := Suc (unacked s c)), cq_events := (cq_events s)(a := Suc (cq_events s a))\<rparr>)"
    if a: "res s a = Some c" "is_cq a" for a
  proof (rule ackedI, goal_cases)
    case (1 b y)
    then have y: "res s b = Some y" by simp
    show ?case
    proof (cases "b = a")
      case True
      then show ?thesis using y a(1) ackedD(1) [OF assms(2) a(1)] by simp
    next
      case False
      then have "y \<noteq> c" using res_inj [OF assms(1) y] a(1) by blast
      then show ?thesis using False ackedD(1) [OF assms(2) y] by simp
    qed
  next
    case (2 b)
    then have "b \<noteq> a" using a by auto
    then show ?case using 2 ackedD(2) [OF assms(2), of b] by simp
  next
    case (3 y)
    have "c \<in> ran (res s)" using a(1) by (rule ranI)
    then have "vids c \<subseteq> {..<asked s}" using ownsD(2,6) [OF assms(1)] by blast
    then show ?case using ackedD(3) [OF assms(2), of y] 3 by auto
  qed
  note cq = one [of SEND_CQ] one [of RECV_CQ] one [of DATA_SEND_CQ] one [of DATA_RECV_CQ]
  show ?thesis using cq assms(2) by (simp add: count_event_def Let_def is_cq_def)
qed

lemma count_event_fields [simp]:
  "res (count_event c s) = res s" "alive (count_event c s) = alive s" "asked (count_event c s) = asked s"
  "io_state (count_event c s) = io_state s" "bufs (count_event c s) = bufs s" "large_state (count_event c s) = large_state s"
  "conn (count_event c s) = conn s"
  by (simp_all add: count_event_def Let_def conn_def)

lemma count_event_ready: "ready X F R s \<Longrightarrow> ready X F R (count_event c s)"
  using count_event_ok [of s c] by (auto simp: ready_def others_def owns_def)

text \<open>The channel is drained within \<open>n\<close> answers, wherever one starts.\<close>

definition drains :: "verbs \<Rightarrow> nat \<Rightarrow> bool" where
  "drains v n \<longleftrightarrow> (\<forall>k. \<exists>m < n. \<exists>e. cq_event v (k + m) = Inr e \<and> e \<noteq> EINTR)"

lemma get_events_ok:
  assumes "ready X F R s" and "\<exists>m < n. \<exists>e. cq_event v (asked s + m) = Inr e \<and> e \<noteq> EINTR"
  shows "runs (get_events v n) s (\<lambda>rc s'. ready X F R s')"
  using assms
proof (induction n arbitrary: s)
  case (Suc n)
  let ?s = "s\<lparr>asked := Suc (asked s)\<rparr>"
  note r = ask_ok [OF Suc(2)]
  have later: "\<exists>m < n. \<exists>e. cq_event v (Suc (asked s) + m) = Inr e \<and> e \<noteq> EINTR" if "\<nexists>e. cq_event v (asked s) = Inr e \<and> e \<noteq> EINTR"
  proof -
    obtain m e where m: "m < Suc n" "cq_event v (asked s + m) = Inr e" "e \<noteq> EINTR" using Suc(3) by blast
    then have "m \<noteq> 0" using that by (metis add.right_neutral)
    then show ?thesis using m by (intro exI [of _ "m - 1"]) auto
  qed
  show ?case
  proof (cases "cq_event v (asked s)")
    case (Inl c)
    then have "runs (get_events v n) (count_event c ?s) (\<lambda>rc s'. ready X F R s')"
      using later by (intro Suc(1) count_event_ready [OF r]) simp
    then show ?thesis using Inl by (simp add: runs_bindp_iff)
  next
    case (Inr e)
    show ?thesis
    proof (cases "e = EINTR")
      case True
      then have "runs (get_events v n) ?s (\<lambda>rc s'. ready X F R s')" using later Inr by (intro Suc(1) r) simp
      then show ?thesis using Inr True by (simp add: runs_bindp_iff)
    next
      case False
      then show ?thesis using Inr r ready_errno [OF r] by (simp add: runs_bindp_iff)
    qed
  qed
qed simp

lemma ack_if_many_ok:
  assumes "ready X F R s"
  shows "runs (ack_if_many a) s (\<lambda>_ s'. ready X F R s')"
proof -
  note r = readyD [OF assms]
  have "runs (ack_cq_events a) s (\<lambda>_ s'. ready X F R s')"
  proof (cases "res s a")
    case None
    then show ?thesis using assms ackedD(2) [OF r(2), of a] by (simp add: ack_cq_events_def runs_bindp_iff)
  next
    case (Some x)
    then show ?thesis
      using r acked_ack [OF r(1,2) Some] by (simp add: ack_cq_events_def runs_bindp_iff ready_def owns_def others_def)
  qed
  then show ?thesis using assms by (simp add: ack_if_many_def runs_bindp_iff)
qed

lemma GetAndAckEvents_ok:
  assumes "ready X F R s" and "drains v n"
  shows "runs (GetAndAckEvents v n) s (\<lambda>_ s'. ready X F R s')"
proof -
  have "\<exists>m < n. \<exists>e. cq_event v (asked s + m) = Inr e \<and> e \<noteq> EINTR" using assms(2) by (simp add: drains_def)
  from get_events_ok [OF assms(1) this] show ?thesis
    unfolding GetAndAckEvents_def
    by (intro runs_andthen, elim runs_mono) (auto intro!: runs_then [OF ack_if_many_ok])
qed

lemma unregister_ok:
  assumes "ready X F R s"
  shows "runs (unregister v fd r) s (\<lambda>_ s'. ready X F R s')"
  using ask_ok [OF assms] by (auto simp: unregister_def runs_def ready_def owns_def acked_def others_def split: prod.splits)

lemma BeforeRecycled_ok:
  assumes "ready X F R s" and "verbs_ok v"
  shows "runs (BeforeRecycled v True) s (\<lambda>_ s'. released X F s' \<and> alive s' = R \<and> tcp_fd s' < 0)"
proof -
  have close: "runs (bindp CloseTcpFd (\<lambda>_. DeallocateResources v)) t (\<lambda>_ s'. released X F s' \<and> alive s' = R \<and> tcp_fd s' < 0)"
    if "ready X F R t" for t
  proof -
    let ?t = "if tcp_fd t \<ge> 0 then t\<lparr>closed_fds := closed_fds t @ [tcp_fd t], tcp_fd := -1\<rparr> else t"
    have "ready X F R ?t" using that by (simp add: ready_def owns_def acked_def others_def)
    moreover have "tcp_fd ?t < 0" by simp
    ultimately show ?thesis
      unfolding CloseTcpFd_def by (intro then_upd, elim runs_mono [OF DeallocateResources_ok [OF _ assms(2)]]) (auto simp: conn_def)
  qed
  have 1: "runs (UnregisterTcpEvent v) s (\<lambda>_ s'. ready X F R s')"
    using unregister_ok [OF assms(1)] by (simp add: UnregisterTcpEvent_def runs_bindp_iff)
  show ?thesis
    unfolding BeforeRecycled_def by (simp, rule runs_then [OF 1], rule then_get, simp, rule runs_then [OF unregister_ok], assumption, erule close)
qed

section \<open>Properties\<close>

fun poll_rounds :: "verbs \<Rightarrow> nat \<Rightarrow> nat \<Rightarrow> unit ep" where
  "poll_rounds v fuel 0 = ret ()"
| "poll_rounds v fuel (Suc n) = bindp (GetAndAckEvents v fuel) (\<lambda>_. poll_rounds v fuel n)"

lemma poll_rounds_ok:
  "ready X F R s \<Longrightarrow> drains v fuel \<Longrightarrow> runs (poll_rounds v fuel n) s (\<lambda>_ s'. ready X F R s')"
  by (induction n arbitrary: s) (auto intro: runs_then [OF GetAndAckEvents_ok])

definition demo_verbs :: verbs where
  "demo_verbs = \<lparr>answer = (\<lambda>_. 0), reg_id = (\<lambda>k. Some (of_nat k)),
     destroys = (\<lambda>live n x. if n = 0 \<and> (\<forall>p \<in> set live. x \<notin> set (attached p)) then Some 0 else Some 16),
     cq_event = (\<lambda>_. Inr EAGAIN), fd_of = (\<lambda>_. 9), failing = (\<lambda>_. 0), dereg = (\<lambda>_. 0), max_sge = 30\<rparr>"

definition demo_ep :: endpoint where
  "demo_ep = \<lparr>alive = [Chan 3], unacked = (\<lambda>_. 0), asked = 5, qp_states = (\<lambda>_. RESET), sent = [], posted = [], io_state = demo_io,
     large_state = large_tls_init, events_state = dispatcher_init, ep_id = 1, errno = 0, res = Map.empty, cq_events = (\<lambda>_. 0),
     tcp_fd = -1, tcp_registration = INVALID_REGISTRATION, cq_registration = INVALID_REGISTRATION, cq_event_fd = -1,
     sq_size = 128, rq_size = 128, remote_recv_block_size = 0, local_window_capacity = 0, remote_window_capacity = 0,
     sq_window_size = 0, remote_rq_window_size = 0, writable_butex = 0, sq_imm_window_size = 3, new_rq_wrs = 0,
     sbuf = [], sq_current = 0, sq_sent = 0, rbuf = [], rbuf_data = [], rq_received = 0, read_buf = IOBuf_new,
     nevent = 0, handshake_ok = False, write_error = 0, unsignaled = 0, unsolicited = 0, accumulated_ack = 0,
     active_large_transfers = 0, pending_large_frames = [], pending_large_map = [], stop = False, failed_with = None,
     failures_told = [], closed_fds = []\<rparr>"

lemma demo_verbs_ok: "verbs_ok demo_verbs" "drains demo_verbs 1"
  by (simp_all add: verbs_ok_def demo_verbs_def drains_def EAGAIN_def EINTR_def)

lemma demo_ep_released: "released {} {#} demo_ep"
proof -
  have "iobufs {} {#} demo_io []" using demo_io_ok by (simp add: iobufs_def)
  then have "iobufs {} {#} demo_io [IOBuf_new]" by (rule iobuf.new_buf(1))
  then show ?thesis
    by (simp add: released_def demo_ep_def owns_def acked_def lb_inv_def large_tls_init_def kMaxCachedLargeBlocks_def)
qed

text \<open>C11: \<open>AllocateResources\<close> gives all or nothing. Whatever call of the verbs library, of the kernel or of the
  allocator fails, and even if another thread fails the endpoint meanwhile, it returns -1 with every object
  destroyed that it had created, no buffer kept and no descriptor registered. Otherwise all seven objects
  exist, the rings have the sizes of the queues, and the channel is registered.\<close>

theorem AllocateResources_all_or_nothing:
  assumes "released X F s" and "verbs_ok v" and "3 \<le> sq_size s" and "cq_registration s = INVALID_REGISTRATION"
  shows "runs (AllocateResources v) s (\<lambda>rc s'.
    rc = 0 \<and> ready X F (alive s) s' \<and> complete s s' \<and> fd_map (events_state s') (cq_event_fd s') = Some (cq_registration s') \<or>
    rc = -1 \<and> released X F s' \<and> alive s' = alive s \<and> fd_map (events_state s') = fd_map (events_state s))"
  by (rule AllocateResources_ok [OF assms])

theorem AllocateResources_all_or_nothing_witness:
  "runs (AllocateResources (demo_verbs\<lparr>answer := \<lambda>k. if k = 10 then 12 else 0\<rparr>)) demo_ep (\<lambda>rc s'. rc = 0 \<and> length (sbuf s') = 125 \<or> rc = -1 \<and> alive s' = [Chan 3])"
proof -
  have "verbs_ok (demo_verbs\<lparr>answer := \<lambda>k. if k = 10 then 12 else 0\<rparr>)" using demo_verbs_ok(1) by (simp add: verbs_ok_def)
  from AllocateResources_all_or_nothing [OF demo_ep_released this] show ?thesis
    by (rule runs_mono) (auto simp: demo_ep_def complete_def)
qed



end
