(* ===== verification/Endpoint_Flow.thy ===== *)
theory Endpoint_Flow
  imports Endpoint_Resources "HOL-Library.Signed_Division"
begin

text \<open>
  The data path of the endpoint in \<open>src-endpoint/fast_rdma_endpoint.cc\<close>: buffers are cut into scatter
  lists and posted as work requests within two windows, the slots of the send queue and the receive
  buffers of the peer; completions give slots back, and the number of receive buffers posted anew travels
  to the peer in the immediate data of the next request.

  A call runs alone here: the windows, which the code keeps in atomic variables, are not changed by another
  thread while it runs.
\<close>

section \<open>Cutting into scatter lists\<close>

definition region_key :: "bptr \<Rightarrow> nat \<Rightarrow> (io, u32) prog" where
  "region_key p off = bindp (get_block p) (\<lambda>b s. Inr (GetRegionId (io_pool s) (data b + off), s))"

text \<open>\<open>cut_into_sglist_and_iobuf\<close>; the first argument is \<open>max_sge - *sge_index\<close>. The result \<open>None\<close> is -1.\<close>

fun cut_into_sglist_and_iobuf :: "nat \<Rightarrow> nat \<Rightarrow> nat \<Rightarrow> sge list \<Rightarrow> IOBuf \<Rightarrow> IOBuf \<Rightarrow> (io, (nat \<times> sge list) option \<times> IOBuf \<times> IOBuf) prog" where
  "cut_into_sglist_and_iobuf 0 max_len len sgs x to = ret (Some (len, sgs), x, to)"
| "cut_into_sglist_and_iobuf (Suc k) max_len len sgs x to = bindp (ref_num x) (\<lambda>nref.
     if len \<ge> max_len \<or> nref = 0 then ret (Some (len, sgs), x, to)
     else bindp (ref_at x 0) (\<lambda>r. bindp (fetch1 x) (\<lambda>start. case start of
       None \<Rightarrow> crash NullDeref
     | Some (p, off) \<Rightarrow> bindp (region_key p off) (\<lambda>lkey.
         if lkey = 0 then ret (None, x, to)
         else
           let n = (if len + r_length r > max_len then max_len - len else r_length r) in
           bindp (cutn_buf n x to) (\<lambda>(x', to', _).
             cut_into_sglist_and_iobuf k max_len (len + n) (sgs @ [\<lparr>sge_block = p, sge_off = off, sge_len = n, sge_lkey = lkey\<rparr>]) x' to')))))"

section \<open>Credits\<close>

text \<open>\<open>ibv_post_send\<close>: the request is in the send queue, or an error code says why not.\<close>

definition post_send :: "verbs \<Rightarrow> send_wr \<Rightarrow> int ep" where
  "post_send v wr = deref QP (\<lambda>_. bindp (ask v) (\<lambda>rc.
     if rc \<noteq> 0 then ret rc else bindp (upd (\<lambda>s. s\<lparr>sent := sent s @ [wr]\<rparr>)) (\<lambda>_. ret 0)))"

definition SendImm :: "verbs \<Rightarrow> u32 \<Rightarrow> int ep" where
  "SendImm v imm = (if imm = 0 then ret 0 else
     bindp (post_send v \<lparr>wr_sges = [], wr_imm = htonl imm, wr_id = 0, wr_signaled = True, wr_solicited = True\<rparr>) (\<lambda>rc.
       if rc \<noteq> 0 then ret (-1) else bindp (upd (\<lambda>s. s\<lparr>sq_imm_window_size := sq_imm_window_size s - 1\<rparr>)) (\<lambda>_. ret 0)))"

definition SendAck :: "verbs \<Rightarrow> int \<Rightarrow> int ep" where
  "SendAck v num = bindp (get new_rq_wrs) (\<lambda>prev. bindp (upd (\<lambda>s. s\<lparr>new_rq_wrs := prev + num\<rparr>)) (\<lambda>_.
     bindp (get (\<lambda>s. (remote_window_capacity s, sq_imm_window_size s))) (\<lambda>(cap, imm_wnd).
       if prev + num > cap sdiv 2 \<and> imm_wnd > 0 then
         bindp (get new_rq_wrs) (\<lambda>total. bindp (upd (\<lambda>s. s\<lparr>new_rq_wrs := 0\<rparr>)) (\<lambda>_. SendImm v (of_int total)))
       else ret 0)))"

definition IsWritable :: "endpoint \<Rightarrow> bool" where
  "IsWritable s \<longleftrightarrow> sq_window_size s > 0 \<and> remote_rq_window_size s > 0"

definition WakeForWritable :: "unit ep" where
  "WakeForWritable = upd (\<lambda>s. s\<lparr>writable_butex := writable_butex s + 1\<rparr>)"

section \<open>Receive buffers\<close>

text \<open>\<open>g_rdma_recv_block_size\<close>, as \<open>GlobalInitialize\<close> sets it.\<close>

definition g_rdma_recv_block_size :: nat where
  "g_rdma_recv_block_size = g_block_size 0 - sizeof_Block"

definition g_rdma_zerocopy_min_size :: nat where "g_rdma_zerocopy_min_size = 512"

definition DoPostRecv :: "verbs \<Rightarrow> (bptr \<times> nat) option \<Rightarrow> int ep" where
  "DoPostRecv v block = bindp (case block of None \<Rightarrow> ret 0 | Some (p, off) \<Rightarrow> on_io (region_key p off)) (\<lambda>lkey.
     deref QP (\<lambda>_. bindp (ask v) (\<lambda>rc.
       if rc \<noteq> 0 then ret rc else bindp (upd (\<lambda>s. s\<lparr>posted := posted s @ [block]\<rparr>)) (\<lambda>_. ret 0))))"

definition ring_at :: "'a list \<Rightarrow> nat \<Rightarrow> ('a \<Rightarrow> 'b ep) \<Rightarrow> 'b ep" where
  "ring_at l i k = (if i < length l then k (l ! i) else crash OutOfBounds)"

text \<open>A new block for slot \<open>i\<close>, through an output stream that is destroyed right away.\<close>

definition fresh_slot :: "nat \<Rightarrow> int ep" where
  "fresh_slot i = bindp (get rbuf) (\<lambda>l. ring_at l i (\<lambda>b. bindp (on_io (IOBuf_clear b)) (\<lambda>b0.
     case out_stream_new (Some (g_rdma_recv_block_size + sizeof_Block)) of
       None \<Rightarrow> crash Aborted
     | Some os \<Rightarrow> bindp (on_io (bindp (out_Next b0 os) (\<lambda>(b1, os', r). bindp (out_destroy os') (\<lambda>_. ret (b1, r))))) (\<lambda>(b1, r).
         case r of
           None \<Rightarrow> bindp (upd (\<lambda>s. s\<lparr>rbuf := l[i := b1]\<rparr>)) (\<lambda>_. ret (-1))
         | Some (p, off, n) \<Rightarrow> bindp (upd (\<lambda>s. s\<lparr>rbuf := l[i := b1], rbuf_data := (rbuf_data s)[i := Some (p, off)]\<rparr>)) (\<lambda>_. ret 0)))))"

fun post_recvs :: "verbs \<Rightarrow> nat \<Rightarrow> bool \<Rightarrow> int ep" where
  "post_recvs v 0 zerocopy = ret 0"
| "post_recvs v (Suc n) zerocopy = bindp (get rq_received) (\<lambda>i.
     andthen (if zerocopy then fresh_slot i else ret 0)
     (bindp (get rbuf_data) (\<lambda>d. ring_at d i (\<lambda>block. bindp (DoPostRecv v block) (\<lambda>rc.
       if rc < 0 then
         bindp (get rbuf) (\<lambda>l. ring_at l i (\<lambda>b. bindp (on_io (IOBuf_clear b)) (\<lambda>b'. bindp (upd (\<lambda>s. s\<lparr>rbuf := l[i := b']\<rparr>)) (\<lambda>_. ret (-1)))))
       else
         bindp (upd (\<lambda>s. s\<lparr>rq_received := (if Suc i = length (rbuf s) then 0 else Suc i)\<rparr>)) (\<lambda>_. post_recvs v n zerocopy))))))"

definition PostRecv :: "verbs \<Rightarrow> nat \<Rightarrow> bool \<Rightarrow> int ep" where
  "PostRecv v num zerocopy = andthen (post_recvs v num zerocopy)
     (bindp (upd (\<lambda>s. s\<lparr>new_rq_wrs := new_rq_wrs s + int num\<rparr>)) (\<lambda>_. ret 0))"

section \<open>Sending\<close>

text \<open>The inner loop of \<open>CutFromIOBufList\<close>: one work request is filled from the buffers \<open>from[current]\<close> on.
  \<open>None\<close> is the return of -1.\<close>

fun fill_wr :: "nat \<Rightarrow> nat \<Rightarrow> nat \<Rightarrow> nat \<Rightarrow> IOBuf list \<Rightarrow> IOBuf \<Rightarrow> sge list \<Rightarrow> nat \<Rightarrow>
    (io, (nat \<times> sge list \<times> nat) option \<times> IOBuf list \<times> IOBuf) prog" where
  "fill_wr M B 0 cur from to sgs this_len = crash Diverges"
| "fill_wr M B (Suc fuel) cur from to sgs this_len =
     (if \<not> (length sgs < M \<and> this_len < B) then ret (Some (cur, sgs, this_len), from, to)
      else bindp (IOBuf_empty (from ! cur)) (\<lambda>e.
        if e then
          if Suc cur = length from then ret (Some (Suc cur, sgs, this_len), from, to)
          else fill_wr M B fuel (Suc cur) from to sgs this_len
        else bindp (cut_into_sglist_and_iobuf (M - length sgs) (B - this_len) 0 sgs (from ! cur) to) (\<lambda>(r, x, to').
          case r of
            None \<Rightarrow> ret (None, from[cur := x], to')
          | Some (len, sgs') \<Rightarrow> fill_wr M B fuel cur (from[cur := x]) to' sgs' (this_len + len))))"

text \<open>The flags of a request and the counters behind them.\<close>

definition solicit :: "bool \<Rightarrow> int \<Rightarrow> bool ep" where
  "solicit now imm = (\<lambda>s.
     if now \<or> unsolicited s > local_window_capacity s sdiv 4 \<or> accumulated_ack s > remote_window_capacity s sdiv 4
     then Inr (True, s\<lparr>unsolicited := 0, accumulated_ack := 0\<rparr>)
     else Inr (False, s\<lparr>unsolicited := unsolicited s + 1, accumulated_ack := accumulated_ack s + imm\<rparr>))"

definition signal :: "(bool \<times> nat) ep" where
  "signal = (\<lambda>s. let n = unsignaled s + 1 in
     if n \<ge> local_window_capacity s sdiv 4 then Inr ((True, nat n), s\<lparr>unsignaled := 0\<rparr>)
     else Inr ((False, 0), s\<lparr>unsignaled := n\<rparr>))"

text \<open>The windows are read into \<open>uint32_t\<close> variables.\<close>

definition u32_of :: "int \<Rightarrow> nat" where
  "u32_of i = nat (i mod 2 ^ 32)"

definition post_wr :: "verbs \<Rightarrow> sge list \<Rightarrow> bool \<Rightarrow> int ep" where
  "post_wr v sgs now = bindp (get new_rq_wrs) (\<lambda>imm. bindp (upd (\<lambda>s. s\<lparr>new_rq_wrs := 0\<rparr>)) (\<lambda>_.
     bindp (solicit now imm) (\<lambda>sol. bindp signal (\<lambda>(sig, n).
       bindp (post_send v \<lparr>wr_sges = sgs, wr_imm = htonl (of_int imm), wr_id = n, wr_signaled = sig, wr_solicited = sol\<rparr>) (\<lambda>rc.
         if rc \<noteq> 0 then ret (-1)
         else bindp (upd (\<lambda>s. s\<lparr>sq_current := (if Suc (sq_current s) = length (sbuf s) then 0 else Suc (sq_current s)),
           remote_rq_window_size := remote_rq_window_size s - 1, sq_window_size := sq_window_size s - 1\<rparr>)) (\<lambda>_. ret 0))))))"

fun cut_loop :: "verbs \<Rightarrow> nat \<Rightarrow> nat \<Rightarrow> IOBuf list \<Rightarrow> nat \<Rightarrow> (int \<times> IOBuf list) ep" where
  "cut_loop v 0 cur from total_len = crash Diverges"
| "cut_loop v (Suc fuel) cur from total_len =
     (if cur \<ge> length from then ret (int total_len, from)
      else bindp (get (\<lambda>s. (u32_of (remote_rq_window_size s), u32_of (sq_window_size s)))) (\<lambda>(rq_wnd, sq_wnd).
        if rq_wnd = 0 \<or> sq_wnd = 0 then
          if total_len > 0 then ret (int total_len, from) else bindp (fail_with EAGAIN) (\<lambda>rc. ret (rc, from))
        else bindp (get (\<lambda>s. (sbuf s, sq_current s, remote_recv_block_size s))) (\<lambda>(l, i, B). ring_at l i (\<lambda>to.
          bindp (on_io (fill_wr (max_sge v) B (length from - cur + max_sge v + 1) cur from to [] 0)) (\<lambda>(r, from', to').
          bindp (upd (\<lambda>s. s\<lparr>sbuf := l[i := to']\<rparr>)) (\<lambda>_. case r of
            None \<Rightarrow> ret (-1, from')
          | Some (cur', sgs, this_len) \<Rightarrow>
              if this_len = 0 then cut_loop v fuel cur' from' total_len
              else bindp (post_wr v sgs (rq_wnd = 1 \<or> sq_wnd = 1 \<or> cur' + 1 \<ge> length from')) (\<lambda>rc.
                if rc < 0 then ret (-1, from') else cut_loop v fuel cur' from' (total_len + this_len))))))))"

definition CutFromIOBufList :: "verbs \<Rightarrow> nat \<Rightarrow> IOBuf list \<Rightarrow> (int \<times> IOBuf list) ep" where
  "CutFromIOBufList v fuel from = bindp (get (error v)) (\<lambda>e.
     if e \<noteq> 0 then bindp (fail_with e) (\<lambda>rc. ret (rc, from)) else cut_loop v fuel 0 from 0)"

section \<open>Completions\<close>

datatype wc_opcode = WC_SEND | WC_RECV | WC_OTHER

record ibv_wc =
  wc_op :: wc_opcode
  wc_id :: nat
  wc_len :: nat
  wc_with_imm :: bool
  wc_imm :: u32

fun release_slots :: "nat \<Rightarrow> unit ep" where
  "release_slots 0 = ret ()"
| "release_slots (Suc n) = bindp (get (\<lambda>s. (sbuf s, sq_sent s))) (\<lambda>(l, i).
     bindp (if i < length l then
         bindp (on_io (IOBuf_clear (l ! i))) (\<lambda>b. upd (\<lambda>s. s\<lparr>sbuf := l[i := b], sq_sent := (if Suc i = length l then 0 else Suc i)\<rparr>))
       else ret ()) (\<lambda>_. release_slots n))"

text \<open>The bytes of a receive: moved out of the slot's buffer, or copied where they are few.\<close>

definition read_block :: "(bptr \<times> nat) option \<Rightarrow> nat \<Rightarrow> (io, byte list option) prog" where
  "read_block src n = (case src of None \<Rightarrow> ret None
   | Some (p, off) \<Rightarrow> bindp (get_block p) (\<lambda>b. ret (Some (map (\<lambda>k. bytes b (off + k)) [0..<n]))))"

definition take_input :: "ibv_wc \<Rightarrow> unit ep" where
  "take_input wc = bindp (get (\<lambda>s. (rbuf s, rbuf_data s, rq_received s, read_buf s))) (\<lambda>(l, d, i, rb).
     if wc_len wc \<ge> g_rdma_zerocopy_min_size then
       ring_at l i (\<lambda>b. bindp (on_io (cutn_buf (wc_len wc) b rb)) (\<lambda>(b', rb', _). upd (\<lambda>s. s\<lparr>rbuf := l[i := b'], read_buf := rb'\<rparr>)))
     else ring_at d i (\<lambda>src. bindp (on_io (bindp (read_block src (wc_len wc)) (\<lambda>bs. append_data bs rb))) (\<lambda>(rb', _). upd (\<lambda>s. s\<lparr>read_buf := rb'\<rparr>))))"

text \<open>The credits of the peer. \<open>ntohs\<close> reads the low 16 bits of what \<open>htonl\<close> wrote.\<close>

definition add_credits :: "u32 \<Rightarrow> unit ep" where
  "add_credits imm = (let acks = unat (ntohs (ucast imm)) in
     bindp (get (\<lambda>s. (local_window_capacity s, remote_rq_window_size s))) (\<lambda>(cap, old).
     bindp (upd (\<lambda>s. s\<lparr>remote_rq_window_size := old + int acks\<rparr>)) (\<lambda>_. bindp (get sq_window_size) (\<lambda>sq.
       let thresh = u32_of (cap sdiv 8) in
       if sq > 0 \<and> (u32_of old \<ge> thresh \<or> acks \<ge> thresh) then WakeForWritable else ret ()))))"

definition HandleCompletion :: "verbs \<Rightarrow> ibv_wc \<Rightarrow> int ep" where
  "HandleCompletion v wc = (case wc_op wc of
     WC_SEND \<Rightarrow>
       if wc_id wc = 0 then
         bindp (upd (\<lambda>s. s\<lparr>sq_imm_window_size := sq_imm_window_size s + 1\<rparr>)) (\<lambda>_. bindp (SendAck v 0) (\<lambda>_. ret 0))
       else
         bindp (release_slots (wc_id wc)) (\<lambda>_. bindp (upd (\<lambda>s. s\<lparr>sq_window_size := sq_window_size s + int (wc_id wc)\<rparr>)) (\<lambda>_.
         bindp (get (\<lambda>s. remote_rq_window_size s \<ge> local_window_capacity s sdiv 8)) (\<lambda>w.
         bindp (if w then WakeForWritable else ret ()) (\<lambda>_. ret 0))))
   | WC_RECV \<Rightarrow>
       bindp (if wc_len wc > 0 then take_input wc else ret ()) (\<lambda>_.
       bindp (if wc_with_imm wc \<and> wc_imm wc > 0 then add_credits (wc_imm wc) else ret ()) (\<lambda>_.
       andthen (PostRecv v 1 (\<not> (0 < wc_len wc \<and> wc_len wc < g_rdma_zerocopy_min_size)))
         (bindp (if wc_len wc > 0 then SendAck v 1 else ret 0) (\<lambda>_. ret (int (wc_len wc))))))
   | WC_OTHER \<Rightarrow> ret (-1))"

section \<open>Scatter lists cover what was moved\<close>

definition sge_bytes :: "io \<Rightarrow> sge \<Rightarrow> byte list" where
  "sge_bytes s g = rbytes s \<lparr>r_offset = sge_off g, r_length = sge_len g, r_block = Some (sge_block g)\<rparr>"

definition gather :: "io \<Rightarrow> sge list \<Rightarrow> byte list" where
  "gather s gs = concat (map (sge_bytes s) gs)"

lemma gather_simps [simp]: "gather s [] = []" "gather s (gs @ hs) = gather s gs @ gather s hs" "gather s [g] = sge_bytes s g"
  by (simp_all add: gather_def)

lemma ptrs_push_list: "set_mset (ptrs (push_list rs r)) = insert (the (r_block r)) (set_mset (ptrs rs))"
proof (cases "rs \<noteq> [] \<and> mergeable (last rs) r")
  case True
  then have m: "the (r_block (merge (last rs) r)) = the (r_block r)" "the (r_block (last rs)) = the (r_block r)"
    by (auto simp: mergeable_def merge_def)
  have "ptrs rs = ptrs (butlast rs) + {#the (r_block (last rs))#}"
    using True ptrs_simps(3) [of "butlast rs" "[last rs]"] by simp
  then show ?thesis using True m by (simp add: push_list_def)
qed (auto simp: push_list_def)

text \<open>Cutting no more than the first reference moves a part of it.\<close>

lemma cutn_front:
  assumes "is_buf s x" and "is_buf s out" and "io_ok X s (ptrs (brefs x) + ptrs (brefs out) + F)"
    and rs: "brefs x = r # rs" and n: "0 < n" "n \<le> r_length r" and f: "fits out n"
  shows "runs (cutn_buf n x out) s (\<lambda>(x', out', k) s'. is_buf s' x' \<and> is_buf s' out' \<and>
     io_ok X s' (ptrs (brefs x') + ptrs (brefs out') + F) \<and> btext s' x' = drop n (btext s x) \<and>
     btext s' out' = btext s out @ take n (btext s x) \<and>
     brefs out' = push_list (brefs out) (r\<lparr>r_length := n\<rparr>) \<and> brefs x' = (if n = r_length r then rs else cut_front n r # rs) \<and>
     still (ptrs (brefs x) + ptrs (brefs out) + F) s s')" (is "runs _ _ ?Q")
proof -
  have x: "buf_ok x" "list_all (ref_in s) (brefs x)" using assms(1) by (simp_all add: is_buf_def)
  have r: "ref_fmt r" "ref_in s r" "length (rbytes s r) = r_length r" "list_all (ref_in s) rs"
    using x buf_okD(2) [OF x(1)] rs by (auto simp: length_rbytes)
  obtain m where m: "n = Suc m" using n(1) by (cases n) auto
  have fr: "front_ref x = ret r" using front_ref_ok [OF x(1)] rs by simp
  have len: "min n (blen (brefs x)) = n" using n rs by simp
  have cut: "runs (cutn_buf n x out) s ?Q \<longleftrightarrow> runs (cutn_loop (Suc (length rs)) (Suc m) x out) s (\<lambda>(x', out'). ?Q (x', out', n))"
    using len m rs by (simp add: cutn_buf_def IOBuf_length_ok [OF x(1)] ref_num_ok [OF x(1)] runs_bindp_iff case_prod_unfold del: cutn_loop.simps)
  let ?p = "the (r_block r)"
  show ?thesis
  proof (cases "n = r_length r")
    case True
    obtain x' where x': "buf_ok x'" "brefs x' = rs" "pop_front_ref True x = ret (x', 0)"
      using pop_front_ref_ok [OF x(1) rs, of True] by (auto simp: dec_if_def)
    have "runs (push_ref True r out) s (\<lambda>out' s'. is_buf s' out' \<and> brefs out' = push_list (brefs out) r \<and>
       io_ok X s' (ptrs (brefs out') + (ptrs rs + F)) \<and> btext s' out' = btext s out @ rbytes s r \<and>
       still ({#?p#} + ptrs (brefs out) + (ptrs rs + F)) s s')"
      using push_gen [OF assms(2) r(1,2), of X True "ptrs rs + F"] assms(3) f rs True by (simp add: ac_simps)
    then have "runs (push_ref True r out) s (\<lambda>out' s'. ?Q (x', out', n) s')"
    proof (rule runs_mono, elim conjE, goal_cases)
      case (1 out' s')
      then have s': "is_buf s' out'" "brefs out' = push_list (brefs out) r" "io_ok X s' (ptrs (brefs out') + (ptrs rs + F))"
        "btext s' out' = btext s out @ rbytes s r" "still ({#?p#} + ptrs (brefs out) + (ptrs rs + F)) s s'" by simp_all
      have c: "list_all (ref_in s') rs" "content s' rs = content s rs"
        using content_grows [OF still_grows [OF still_weaken(1) [OF s'(5)]] _ r(4)] by auto
      show ?case
        using s' c x' rs True r(3) by (simp add: is_buf_def ac_simps)
    qed
    then show ?thesis unfolding cut cutn_loop.simps(3) fr bindp_ret using True x'(3) m by (simp add: runs_bindp_iff)
  next
    case False
    then have lt: "n < r_length r" using n(2) by simp
    let ?r = "r\<lparr>r_length := n\<rparr>"
    have r': "ref_fmt ?r" "ref_in s ?r" "rbytes s ?r = take n (rbytes s r)"
      using r lt n(1) by (auto simp: ref_fmt_def ref_in_def rbytes_def take_map split: option.splits)
    have "runs (push_ref False ?r out) s (\<lambda>out' s'. is_buf s' out' \<and> brefs out' = push_list (brefs out) ?r \<and>
       io_ok X s' (ptrs (brefs out') + (ptrs (brefs x) + F)) \<and> btext s' out' = btext s out @ rbytes s ?r \<and>
       still (ptrs (brefs out) + (ptrs (brefs x) + F)) s s')"
      using push_gen [OF assms(2) r'(1,2), of X False "ptrs (brefs x) + F"] assms(3) f rs by (simp add: ac_simps)
    then have "runs (push_ref False ?r out) s (\<lambda>out' s'. ?Q (trim_front n x, out', n) s')"
    proof (rule runs_mono, elim conjE, goal_cases)
      case (1 out' s')
      then have s': "is_buf s' out'" "brefs out' = push_list (brefs out) ?r" "io_ok X s' (ptrs (brefs out') + (ptrs (brefs x) + F))"
        "btext s' out' = btext s out @ rbytes s ?r" "still (ptrs (brefs out) + (ptrs (brefs x) + F)) s s'" by simp_all
      have c: "is_buf s' x" "btext s' x = btext s x"
        using is_buf_grows [OF assms(1) still_grows [OF still_weaken(1) [OF s'(5)]]] by auto
      have h: "holds X s' x (ptrs (brefs out') + F)" using c(1) s'(3) by (simp add: holds_is_buf ac_simps)
      have t: "btext s' (trim_front n x) = drop n (btext s x)" by (simp only: trim_front_holds(2) [OF h rs lt] c(2))
      have tk: "rbytes s ?r = take n (btext s x)" using r'(3) r(3) rs lt by simp
      show ?case
        using trim_front_holds(1) [OF h rs lt] trim_front_ok(2) [OF x(1) rs lt] t tk s' lt by (simp add: holds_is_buf ac_simps)
    qed
    then show ?thesis unfolding cut cutn_loop.simps(3) fr bindp_ret using lt m by (simp add: runs_bindp_iff)
  qed
qed

lemma gather_still:
  assumes "still T s s'" and "\<And>g. g \<in> set gs \<Longrightarrow> sge_block g \<in># T \<and> (\<exists>b. heap s (sge_block g) = Some b)"
  shows "gather s' gs = gather s gs"
proof -
  have "sge_bytes s' g = sge_bytes s g" if "g \<in> set gs" for g
    using assms(1) assms(2) [OF that] unfolding still_def sge_bytes_def rbytes_def by fastforce
  then show ?thesis unfolding gather_def by (metis map_eq_conv)
qed

lemma still_set: "set_mset T = set_mset T' \<Longrightarrow> still T s s' = still T' s s'"
  by (simp add: still_def)

abbreviation all_ptrs :: "IOBuf list \<Rightarrow> bptr multiset" where
  "all_ptrs bs \<equiv> ptrs (concat (map brefs bs))"

abbreviation all_bytes :: "io \<Rightarrow> IOBuf list \<Rightarrow> byte list" where
  "all_bytes s bs \<equiv> concat (map (btext s) bs)"

text \<open>The requests \<open>gs\<close> that were made cover the bytes \<open>m\<close> that went from the front of some buffers to the end of another.\<close>

definition moved :: "addr set \<Rightarrow> bptr multiset \<Rightarrow> io \<Rightarrow> IOBuf list \<Rightarrow> IOBuf \<Rightarrow> byte list \<Rightarrow> sge list \<Rightarrow> io \<Rightarrow> IOBuf list \<Rightarrow> IOBuf \<Rightarrow> bool" where
  "moved X F s xs to m gs s' xs' to' \<longleftrightarrow> length xs' = length xs \<and> iobufs X F s' (to' # xs') \<and>
     all_bytes s xs = m @ all_bytes s' xs' \<and> btext s' to' = btext s to @ m \<and> gather s' gs = m \<and> length m = sum_list (map sge_len gs) \<and>
     set_mset (all_ptrs (to' # xs')) = set_mset (all_ptrs (to # xs)) \<and> set_mset (ptrs (brefs to)) \<subseteq> set_mset (ptrs (brefs to')) \<and>
     still (all_ptrs (to # xs) + F) s s' \<and> (\<forall>g \<in> set gs. sge_block g \<in># ptrs (brefs to') \<and> 0 < sge_len g) \<and>
     (\<forall>n. fits to (length m + n) \<longrightarrow> fits to' n)"

lemma movedD:
  assumes "moved X F s xs to m gs s' xs' to'"
  shows "length xs' = length xs" "iobufs X F s' (to' # xs')" "all_bytes s xs = m @ all_bytes s' xs'" "btext s' to' = btext s to @ m"
    "gather s' gs = m" "length m = sum_list (map sge_len gs)" "set_mset (all_ptrs (to' # xs')) = set_mset (all_ptrs (to # xs))"
    "set_mset (ptrs (brefs to)) \<subseteq> set_mset (ptrs (brefs to'))" "still (all_ptrs (to # xs) + F) s s'"
    "\<And>g. g \<in> set gs \<Longrightarrow> sge_block g \<in># ptrs (brefs to')" "\<And>g. g \<in> set gs \<Longrightarrow> 0 < sge_len g"
    "\<And>n. fits to (length m + n) \<Longrightarrow> fits to' n"
  using assms unfolding moved_def by blast+

lemma moved_refl: "iobufs X F s (to # xs) \<Longrightarrow> moved X F s xs to [] [] s xs to"
  by (simp add: moved_def)

lemma gather_frame:
  assumes "iobufs X F s bs" and "still (all_ptrs bs + F) s s'" and "\<And>g. g \<in> set gs \<Longrightarrow> sge_block g \<in># all_ptrs bs"
  shows "gather s' gs = gather s gs"
proof (rule gather_still [OF assms(2)])
  fix g assume g: "g \<in> set gs"
  have "heap_ok X s (all_ptrs bs + F + mset (block_head s))" using assms(1) by (simp add: iobufs_def io_ok_def)
  from heap_okD(4) [OF this, of "sge_block g"] assms(3) [OF g]
  show "sge_block g \<in># all_ptrs bs + F \<and> (\<exists>b. heap s (sge_block g) = Some b)" by auto
qed

lemma moved_trans:
  assumes 1: "moved X F s xs to m gs s' xs' to'" and 2: "moved X F s' xs' to' m' gs' s'' xs'' to''"
  shows "moved X F s xs to (m @ m') (gs @ gs') s'' xs'' to''"
proof -
  let ?T = "all_ptrs (to # xs) + F"
  have T: "set_mset (all_ptrs (to' # xs') + F) = set_mset ?T" using movedD(7) [OF 1] by simp
  have st: "still ?T s' s''" using movedD(9) [OF 2] still_set [OF T] by simp
  have a: "gather s'' gs = m"
    using gather_frame [OF movedD(2) [OF 1] movedD(9) [OF 2], of gs] movedD(5,10) [OF 1] by simp
  have b: "still ?T s s''" using movedD(9) [OF 1] st by (rule still_trans)
  have c: "fits to'' n" if "fits to (length (m @ m') + n)" for n
    using movedD(12) [OF 2, of n] movedD(12) [OF 1, of "length m' + n"] that by (simp add: add.assoc)
  show ?thesis
    unfolding moved_def
    using a b c movedD(1-8,10,11) [OF 1] movedD(1-8,10,11) [OF 2] by (auto simp del: map_concat)
qed

lemma region_key_ok: "heap s p = Some b \<Longrightarrow> runs (region_key p off) s Q = Q (GetRegionId (io_pool s) (data b + off)) s"
  by (simp add: region_key_def get_block_def bindp_def runs_def)

lemma moved_front:
  assumes "is_buf s x" and "is_buf s to" and "io_ok X s (ptrs (brefs x) + ptrs (brefs to) + F)"
    and rs: "brefs x = r # rs" and n: "0 < n" "n \<le> r_length r" and f: "fits to n"
  shows "runs (cutn_buf n x to) s (\<lambda>(x', to', _) s'. moved X F s [x] to (take n (btext s x))
     [\<lparr>sge_block = the (r_block r), sge_off = r_offset r, sge_len = n, sge_lkey = lkey\<rparr>] s' [x'] to' \<and>
     length (take n (btext s x)) = n)"
proof (rule runs_mono [OF cutn_front [OF assms]], goal_cases)
  case (1 q s')
  obtain x' to' k where q: "q = (x', to', k)" by (cases q)
  let ?p = "the (r_block r)"
  let ?r = "\<lparr>r_offset = r_offset r, r_length = n, r_block = Some ?p\<rparr>"
  have s': "is_buf s' x'" "is_buf s' to'" "io_ok X s' (ptrs (brefs x') + ptrs (brefs to') + F)" "btext s' x' = drop n (btext s x)"
    "btext s' to' = btext s to @ take n (btext s x)" "brefs to' = push_list (brefs to) (r\<lparr>r_length := n\<rparr>)"
    "brefs x' = (if n = r_length r then rs else cut_front n r # rs)" "still (ptrs (brefs x) + ptrs (brefs to) + F) s s'"
    using 1 unfolding q prod.case by blast+
  have b: "buf_ok x" "list_all (ref_in s) (brefs x)" "buf_ok to" using assms(1,2) by (simp_all add: is_buf_def)
  have r: "ref_fmt r" "ref_in s r" using b buf_okD(2) [OF b(1)] rs by auto
  have len: "length (rbytes s r) = r_length r" by (rule length_rbytes [OF r(2)])
  then have tk: "take n (btext s x) = take n (rbytes s r)" "length (take n (btext s x)) = n" using n rs by simp_all
  obtain bl m where bl: "heap s ?p = Some bl" "heap s' ?p = Some (bl\<lparr>nshared := m\<rparr>)"
    using r(2) s'(8) rs by (fastforce simp: ref_in_def still_def)
  then have "gather s' [\<lparr>sge_block = ?p, sge_off = r_offset r, sge_len = n, sge_lkey = lkey\<rparr>] = take n (btext s x)"
    using tk(1) n(2) by (simp add: sge_bytes_def rbytes_def take_map)
  moreover have "set_mset (all_ptrs [to', x']) = set_mset (all_ptrs [to, x])"
    using s'(6,7) rs by (auto simp: ptrs_push_list cut_front_def)
  moreover have "fits to' k" if "fits to (n + k)" for k
    by (rule fits_push [OF _ s'(6)]) (use that r(1) n b(3) in \<open>simp_all add: ref_fmt_def\<close>)
  moreover have "set_mset (ptrs (brefs to)) \<subseteq> set_mset (ptrs (brefs to'))" "the (r_block r) \<in># ptrs (brefs to')"
    using s'(6) by (auto simp: ptrs_push_list)
  ultimately show ?case
    unfolding q prod.case moved_def using s'(1-5,8) tk(2) n(1) by (simp add: iobufs_def ac_simps)
qed

text \<open>A part of a buffer that is in no registered region.\<close>

definition keyless :: "io \<Rightarrow> IOBuf \<Rightarrow> bool" where
  "keyless s x \<longleftrightarrow> (\<exists>r \<in> set (brefs x). \<exists>b. heap s (the (r_block r)) = Some b \<and> GetRegionId (io_pool s) (data b + r_offset r) = 0)"

definition cut_res :: "addr set \<Rightarrow> bptr multiset \<Rightarrow> io \<Rightarrow> IOBuf \<Rightarrow> IOBuf \<Rightarrow> nat \<Rightarrow> nat \<Rightarrow> nat \<Rightarrow> sge list \<Rightarrow>
    (nat \<times> sge list) option \<times> IOBuf \<times> IOBuf \<Rightarrow> io \<Rightarrow> bool" where
  "cut_res X F s x to k ml len sgs q s' \<longleftrightarrow> (\<exists>m gs. moved X F s [x] to m gs s' [fst (snd q)] (snd (snd q)) \<and> length gs \<le> k \<and>
     (case fst q of None \<Rightarrow> keyless s' (fst (snd q)) | Some (len', sgs') \<Rightarrow> len' = len + length m \<and> len' \<le> ml \<and> sgs' = sgs @ gs \<and>
        (0 < k \<and> len < ml \<and> brefs x \<noteq> [] \<longrightarrow> gs \<noteq> [])))"

lemma cut_res_step:
  assumes s1: "moved X F s [x] to m [g] s1 [x1] to1" "length m = n" "0 < n"
    and 2: "cut_res X F s1 x1 to1 k ml (len + n) (sgs @ [g]) q s2"
  shows "cut_res X F s x to (Suc k) ml len sgs q s2"
proof -
  obtain e x2 to2 where q: "q = (e, x2, to2)" by (cases q)
  obtain m' gs where m: "moved X F s1 [x1] to1 m' gs s2 [x2] to2" "length gs \<le> k"
    "case e of None \<Rightarrow> keyless s2 x2 | Some (len', sgs') \<Rightarrow> len' = len + n + length m' \<and> len' \<le> ml \<and> sgs' = (sgs @ [g]) @ gs \<and>
       (0 < k \<and> len + n < ml \<and> brefs x1 \<noteq> [] \<longrightarrow> gs \<noteq> [])"
    using 2 unfolding cut_res_def q fst_conv snd_conv by blast
  have a: "moved X F s [x] to (m @ m') ([g] @ gs) s2 [x2] to2" by (rule moved_trans [OF s1(1) m(1)])
  have c: "case e of None \<Rightarrow> keyless s2 x2 | Some (len', sgs') \<Rightarrow> len' = len + length (m @ m') \<and> len' \<le> ml \<and> sgs' = sgs @ [g] @ gs \<and>
      (0 < Suc k \<and> len < ml \<and> brefs x \<noteq> [] \<longrightarrow> [g] @ gs \<noteq> [])"
    using m(3) s1(2) by (cases e) auto
  have d: "length ([g] @ gs) \<le> Suc k" using m(2) by simp
  show ?thesis unfolding cut_res_def q fst_conv snd_conv using a d c by blast
qed

lemma cut_into_sglist_ok:
  assumes "iobufs X F s [to, x]" and "fits to (ml - len)" and "len \<le> ml"
  shows "runs (cut_into_sglist_and_iobuf k ml len sgs x to) s (cut_res X F s x to k ml len sgs)"
  using assms
proof (induction k arbitrary: s x to len sgs)
  case 0
  then show ?case using moved_refl [OF 0(1)] by (auto simp: cut_res_def intro!: exI [of _ "[]"])
next
  case (Suc k)
  have bs: "is_buf s x" "is_buf s to" "io_ok X s (ptrs (brefs x) + ptrs (brefs to) + F)" using Suc(2) by (simp_all add: iobufs_def ac_simps)
  have b: "buf_ok x" "list_all (ref_in s) (brefs x)" using bs(1) by (simp_all add: is_buf_def)
  have nr: "ref_num x = ret (length (brefs x))" by (rule ref_num_ok [OF b(1)])
  show ?case
  proof (cases "len \<ge> ml \<or> brefs x = []")
    case True
    then show ?thesis using moved_refl [OF Suc(2)] Suc(4) by (auto simp: nr cut_res_def intro!: exI [of _ "[]"])
  next
    case False
    then obtain r rs where rs: "brefs x = r # rs" by (cases "brefs x") auto
    have r: "ref_fmt r" "ref_in s r" using b buf_okD(2) [OF b(1)] rs by auto
    obtain bl where bl: "heap s (the (r_block r)) = Some bl" using r(2) by (auto simp: ref_in_def)
    let ?p = "the (r_block r)" and ?key = "GetRegionId (io_pool s) (data bl + r_offset r)"
    define n where "n = (if len + r_length r > ml then ml - len else r_length r)"
    have n: "0 < n" "n \<le> r_length r" "len + n \<le> ml" using False r(1) by (auto simp: n_def ref_fmt_def)
    let ?g = "\<lparr>sge_block = ?p, sge_off = r_offset r, sge_len = n, sge_lkey = ?key\<rparr>"
    have fetch: "runs (fetch1 x) s Q = Q (Some (?p, r_offset r)) s" for Q
      using rs front_ref_ok [OF b(1)] IOBuf_empty_ok [OF b(1)] bl
      by (simp add: fetch1_def runs_on_block [OF r(1)] runs_bindp_iff runs_get_block)
    have step: "runs (cut_into_sglist_and_iobuf (Suc k) ml len sgs x to) s Q \<longleftrightarrow>
        (if ?key = 0 then Q (None, x, to) s else runs (cutn_buf n x to) s (\<lambda>(x', to', _) s'.
           runs (cut_into_sglist_and_iobuf k ml (len + n) (sgs @ [?g]) x' to') s' Q))" for Q
      using False rs ref_at_ok [OF b(1), of 0]
      by (simp add: nr fetch region_key_ok [OF bl] runs_bindp_iff Let_def n_def [symmetric] case_prod_unfold)
    have f: "fits to n" by (rule fits_mono [OF Suc(3)]) (use n(3) in simp)
    have nokey: "cut_res X F s x to (Suc k) ml len sgs (None, x, to) s" if "?key = 0"
      using moved_refl [OF Suc(2)] that rs bl by (auto simp: cut_res_def keyless_def intro!: exI [of _ "[]"])
    have "runs (cutn_buf n x to) s (\<lambda>(x', to', _) s'.
           runs (cut_into_sglist_and_iobuf k ml (len + n) (sgs @ [?g]) x' to') s' (cut_res X F s x to (Suc k) ml len sgs))"
    proof (rule runs_mono [OF moved_front [OF bs rs n(1,2) f, of ?key]], goal_cases)
      case (1 q s1)
      obtain x1 to1 j where q: "q = (x1, to1, j)" by (cases q)
      let ?m = "take n (btext s x)"
      have s1: "moved X F s [x] to ?m [?g] s1 [x1] to1" "length ?m = n"
        using 1 unfolding q prod.case by blast+
      have "fits to (length ?m + (ml - (len + n)))" by (rule fits_mono [OF Suc(3)]) (use s1(2) n(3) in simp)
      then have b1: "fits to1 (ml - (len + n))" by (rule movedD(12) [OF s1(1)])
      show ?case
        unfolding q prod.case
        by (rule runs_mono [OF Suc(1) [OF movedD(2) [OF s1(1)] b1 n(3)]]) (rule cut_res_step [OF s1 n(1)])
    qed
    then show ?thesis unfolding step using nokey by simp
  qed
qed

end
