(* ===== verification/Endpoint_Send.thy ===== *)
theory Endpoint_Send
  imports Endpoint_Flow
begin

text \<open>
  The send path of \<open>src-endpoint/fast_rdma_endpoint.cc\<close>: what \<open>CutFromIOBufList\<close> posts are exactly the bytes it
  takes from the front of the buffers, within both windows, and the slots of the send ring that the device may still
  read are neither overwritten nor cleared before their completion.
\<close>

section \<open>One work request\<close>

lemma moved_at:
  assumes m: "moved X (all_ptrs (as @ cs) + F) s [x] to m gs s' [x'] to'" and io: "iobufs X F s (to # as @ x # cs)"
    and e: "\<forall>b \<in> set as. btext s b = []"
  shows "moved X F s (as @ x # cs) to m gs s' (as @ x' # cs) to'" and "\<forall>b \<in> set as. btext s' b = []"
proof -
  have st: "still (all_ptrs (to # as @ x # cs) + F) s s'" using movedD(9) [OF m] by (simp add: ac_simps)
  have b: "\<forall>b \<in> set (to # as @ x # cs). is_buf s' b \<and> btext s' b = btext s b"
    by (rule iobufs_frame [OF st]) (use io in \<open>simp add: iobufs_def\<close>)
  then show e': "\<forall>b \<in> set as. btext s' b = []" using e by simp
  have n: "all_bytes s as = []" "all_bytes s' as = []" "all_bytes s' cs = all_bytes s cs" using e e' b by (simp_all cong: map_cong)
  have "iobufs X F s' (to' # as @ x' # cs)"
    using movedD(2) [OF m] b by (auto simp: iobufs_def ac_simps)
  moreover have "all_bytes s (as @ x # cs) = m @ all_bytes s' (as @ x' # cs)"
    using movedD(3) [OF m] by (simp only: map_append concat_append list.map concat.simps n) simp
  moreover have "set_mset (all_ptrs (to' # as @ x' # cs)) = set_mset (all_ptrs (to # as @ x # cs))"
    using movedD(7) [OF m] by auto
  ultimately show "moved X F s (as @ x # cs) to m gs s' (as @ x' # cs) to'"
    using movedD(4-6,8,10-12) [OF m] st unfolding moved_def by simp
qed

definition fill_res :: "addr set \<Rightarrow> bptr multiset \<Rightarrow> io \<Rightarrow> IOBuf list \<Rightarrow> IOBuf \<Rightarrow> nat \<Rightarrow> nat \<Rightarrow> sge list \<Rightarrow> nat \<Rightarrow>
    (nat \<times> sge list \<times> nat) option \<times> IOBuf list \<times> IOBuf \<Rightarrow> io \<Rightarrow> bool" where
  "fill_res X F s xs to M B sgs len q s' \<longleftrightarrow> (\<exists>m gs. moved X F s xs to m gs s' (fst (snd q)) (snd (snd q)) \<and> length (sgs @ gs) \<le> M \<and>
     (case fst q of None \<Rightarrow> list_ex (keyless s') (fst (snd q)) | Some (cur', sgs', len') \<Rightarrow> len' = len + length m \<and> len' \<le> B \<and> sgs' = sgs @ gs \<and>
        cur' \<le> length xs \<and> (\<forall>b \<in> set (take cur' (fst (snd q))). btext s' b = []) \<and> (cur' = length xs \<or> length sgs' = M \<or> len' = B)))"

lemma fill_res_step:
  assumes 1: "moved X F s xs to m gs s1 xs1 to1" and 2: "fill_res X F s1 xs1 to1 M B (sgs @ gs) (len + length m) q s2"
  shows "fill_res X F s xs to M B sgs len q s2"
proof -
  obtain m' gs' where m: "moved X F s1 xs1 to1 m' gs' s2 (fst (snd q)) (snd (snd q))" "length ((sgs @ gs) @ gs') \<le> M"
    "case fst q of None \<Rightarrow> list_ex (keyless s2) (fst (snd q)) | Some (cur', sgs', len') \<Rightarrow> len' = len + length m + length m' \<and> len' \<le> B \<and> sgs' = (sgs @ gs) @ gs' \<and>
        cur' \<le> length xs1 \<and> (\<forall>b \<in> set (take cur' (fst (snd q))). btext s2 b = []) \<and> (cur' = length xs1 \<or> length sgs' = M \<or> len' = B)"
    using 2 unfolding fill_res_def by blast
  have c: "case fst q of None \<Rightarrow> list_ex (keyless s2) (fst (snd q)) | Some (cur', sgs', len') \<Rightarrow> len' = len + length (m @ m') \<and> len' \<le> B \<and> sgs' = sgs @ gs @ gs' \<and>
        cur' \<le> length xs \<and> (\<forall>b \<in> set (take cur' (fst (snd q))). btext s2 b = []) \<and> (cur' = length xs \<or> length sgs' = M \<or> len' = B)"
    using m(3) movedD(1) [OF 1] by (cases "fst q") auto
  show ?thesis
    unfolding fill_res_def using moved_trans [OF 1 m(1)] m(2) c by (intro exI [of _ "m @ m'"] exI [of _ "gs @ gs'"]) simp
qed

lemma fill_wr_ok:
  assumes "iobufs X F s (to # xs)" and "cur < length xs" and "\<forall>b \<in> set (take cur xs). btext s b = []"
    and "length sgs \<le> M" and "len \<le> B" and "fits to (B - len)" and "length xs - cur + (M - length sgs) < fuel"
  shows "runs (fill_wr M B fuel cur xs to sgs len) s (fill_res X F s xs to M B sgs len)"
  using assms
proof (induction fuel arbitrary: s cur xs to sgs len)
  case (Suc fuel)
  let ?x = "xs ! cur" and ?as = "take cur xs" and ?cs = "drop (Suc cur) xs"
  have xs: "xs = ?as @ ?x # ?cs" using Suc(3) by (rule id_take_nth_drop)
  have x: "is_buf s ?x" "buf_ok ?x" using Suc(2,3) by (auto simp: iobufs_def is_buf_def)
  have stay: "fill_res X F s xs to M B sgs len (Some (c, sgs, len), xs, to) s"
    if "c \<le> length xs" "\<forall>b \<in> set (take c xs). btext s b = []" "c = length xs \<or> length sgs = M \<or> len = B" for c
    using moved_refl [OF Suc(2)] Suc(5,6) that unfolding fill_res_def by (intro exI [of _ "[]"]) simp
  consider "\<not> (length sgs < M \<and> len < B)" | "length sgs < M" "len < B" "brefs ?x = []" | "length sgs < M" "len < B" "brefs ?x \<noteq> []" by blast
  then show ?case
  proof cases
    case 1
    then show ?thesis using stay [of cur] Suc(3-6) by auto
  next
    case 2
    have e: "\<forall>b \<in> set (take (Suc cur) xs). btext s b = []" using Suc(3,4) 2(3) by (auto simp: take_Suc_conv_app_nth)
    show ?thesis
      using 2 stay [of "Suc cur"] Suc(1) [OF Suc(2) _ e Suc(5-7)] e Suc(3,8) by (auto simp: IOBuf_empty_ok [OF x(2)])
  next
    case 3
    let ?F = "all_ptrs (?as @ ?cs) + F"
    have io: "iobufs X F s (to # ?as @ ?x # ?cs)" using Suc(2) by (subst (asm) xs)
    then have io1: "iobufs X ?F s [to, ?x]" by (auto simp: iobufs_def ac_simps)
    have f: "fits to (B - len - 0)" using Suc(7) by simp
    have "runs (cut_into_sglist_and_iobuf (M - length sgs) (B - len) 0 sgs ?x to) s (\<lambda>(r, x, to') s'. case r of
        None \<Rightarrow> fill_res X F s xs to M B sgs len (None, xs[cur := x], to') s'
      | Some (l, sgs') \<Rightarrow> runs (fill_wr M B fuel cur (xs[cur := x]) to' sgs' (len + l)) s' (fill_res X F s xs to M B sgs len))"
    proof (rule runs_mono [OF cut_into_sglist_ok [OF io1 f]], simp, goal_cases)
      case (1 q s1)
      obtain r x1 to1 where q: "q = (r, x1, to1)" by (cases q)
      obtain m gs where m: "moved X ?F s [?x] to m gs s1 [x1] to1" "length gs \<le> M - length sgs"
        "case r of None \<Rightarrow> keyless s1 x1 | Some (l, sgs') \<Rightarrow> l = length m \<and> l \<le> B - len \<and> sgs' = sgs @ gs \<and> (0 < M - length sgs \<and> 0 < B - len \<and> brefs ?x \<noteq> [] \<longrightarrow> gs \<noteq> [])"
        using 1 unfolding q cut_res_def fst_conv snd_conv add_0 by blast
      have up: "xs[cur := x1] = ?as @ x1 # ?cs" using Suc(3) by (rule upd_conv_take_nth_drop)
      have mv: "moved X F s xs to m gs s1 (xs[cur := x1]) to1" "\<forall>b \<in> set ?as. btext s1 b = []"
        using moved_at [OF m(1) io Suc(4)] unfolding up xs [symmetric] by blast+
      show ?case
      proof (cases r)
        case None
        then have "list_ex (keyless s1) (xs[cur := x1])" using m(3) unfolding up by (simp add: list_ex_iff)
        then show ?thesis unfolding q using None mv(1) m(2) 3 by (auto simp: fill_res_def intro!: exI [of _ m] exI [of _ gs])
      next
        case (Some p)
        then have p: "p = (length m, sgs @ gs)" "length m \<le> B - len" "gs \<noteq> []" using m(3) 3 by (cases p; simp)+
        have "fits to1 (B - (len + length m))" by (rule movedD(12) [OF mv(1)], rule fits_mono [OF Suc(7)]) (use p(2) 3 in simp)
        then have "runs (fill_wr M B fuel cur (xs[cur := x1]) to1 (sgs @ gs) (len + length m)) s1
            (fill_res X F s1 (xs[cur := x1]) to1 M B (sgs @ gs) (len + length m))"
          using p(2,3) m(2) 3 mv(2) Suc(3,8)
          by (intro Suc(1) [OF movedD(2) [OF mv(1)]]) (auto simp: take_update_cancel neq_Nil_conv)
        then have "runs (fill_wr M B fuel cur (xs[cur := x1]) to1 (sgs @ gs) (len + length m)) s1 (fill_res X F s xs to M B sgs len)"
          by (rule runs_mono) (rule fill_res_step [OF mv(1)])
        then show ?thesis by (simp add: q Some p)
      qed
    qed
    then show ?thesis
      using 3 by (auto simp: IOBuf_empty_ok [OF x(2)] runs_bindp_iff split: option.splits elim!: runs_mono)
  qed
qed simp

section \<open>The send ring\<close>

text \<open>With \<open>f\<close> requests in flight, their slots are those from \<open>sq_sent\<close> on. All others are empty, the next request
  takes the first of them, and there are as many of them as the window of the send queue allows.\<close>

definition ring :: "endpoint \<Rightarrow> nat \<Rightarrow> bool" where
  "ring s f \<longleftrightarrow> (let L = length (sbuf s) in sq_sent s < L \<and> 0 \<le> sq_window_size s \<and> int f + sq_window_size s \<le> int L \<and>
     sq_current s = (sq_sent s + f) mod L \<and> (\<forall>k. f \<le> k \<and> k < L \<longrightarrow> brefs (sbuf s ! ((sq_sent s + k) mod L)) = []))"

lemma ring_free:
  assumes "ring s f" and "0 < sq_window_size s"
  shows "sq_current s < length (sbuf s)" and "brefs (sbuf s ! sq_current s) = []"
proof -
  have L: "f < length (sbuf s)" using assms by (auto simp: ring_def Let_def)
  then have "(sq_sent s + f) mod length (sbuf s) < length (sbuf s)" by (intro mod_less_divisor) linarith
  then show "sq_current s < length (sbuf s)" using assms(1) by (simp add: ring_def Let_def)
  show "brefs (sbuf s ! sq_current s) = []" using assms(1) L by (auto simp: ring_def Let_def)
qed

lemma ring_post:
  assumes r: "ring s f" and w: "0 < sq_window_size s" and s': "sbuf s' = (sbuf s)[sq_current s := b]" "sq_sent s' = sq_sent s"
    "sq_current s' = (if Suc (sq_current s) = length (sbuf s) then 0 else Suc (sq_current s))" "sq_window_size s' = sq_window_size s - 1"
  shows "ring s' (Suc f)"
proof -
  let ?L = "length (sbuf s)"
  have L: "f < ?L" "sq_current s = (sq_sent s + f) mod ?L" using r w by (auto simp: ring_def Let_def)
  have "0 < ?L" using L(1) by linarith
  then have "sq_current s' = Suc (sq_sent s + f) mod ?L" using L(2) s'(3) next_slot [of "sq_sent s + f" ?L] by auto
  moreover have "brefs (sbuf s' ! ((sq_sent s + k) mod ?L)) = []" if "Suc f \<le> k" "k < ?L" for k
  proof -
    have "(sq_sent s + k) mod ?L \<noteq> sq_current s" using that mod_slots [of "sq_sent s" k ?L f] L by auto
    then show ?thesis using r that s'(1) by (simp add: ring_def Let_def)
  qed
  ultimately show ?thesis using r w s' by (auto simp: ring_def Let_def)
qed

section \<open>Posting\<close>

definition other_bufs :: "endpoint \<Rightarrow> IOBuf list" where
  "other_bufs s = rbuf s @ read_buf s # map snd (pending_large_frames s)"

text \<open>What sending leaves alone.\<close>

definition keeps :: "endpoint \<Rightarrow> endpoint \<Rightarrow> bool" where
  "keeps s s' \<longleftrightarrow> other_bufs s' = other_bufs s \<and> res s' = res s \<and> remote_recv_block_size s' = remote_recv_block_size s \<and> sq_sent s' = sq_sent s"

lemma runs_solicit: "runs (solicit now imm) s Q \<longleftrightarrow>
    (if now \<or> unsolicited s > local_window_capacity s sdiv 4 \<or> accumulated_ack s > remote_window_capacity s sdiv 4
     then Q True (s\<lparr>unsolicited := 0, accumulated_ack := 0\<rparr>)
     else Q False (s\<lparr>unsolicited := unsolicited s + 1, accumulated_ack := accumulated_ack s + imm\<rparr>))"
  by (simp add: solicit_def runs_def)

lemma runs_signal: "runs signal s Q \<longleftrightarrow> (if unsignaled s + 1 \<ge> local_window_capacity s sdiv 4
     then Q (True, nat (unsignaled s + 1)) (s\<lparr>unsignaled := 0\<rparr>) else Q (False, 0) (s\<lparr>unsignaled := unsignaled s + 1\<rparr>))"
  by (simp add: signal_def runs_def Let_def)

lemma post_wr_runs:
  assumes "res s QP \<noteq> None"
    and "\<And>s'. \<exists>wr. wr_sges wr = sgs \<and> sent s' = sent s @ [wr] \<Longrightarrow> keeps s s' \<Longrightarrow> io_state s' = io_state s \<Longrightarrow> sbuf s' = sbuf s \<Longrightarrow>
      sq_current s' = (if Suc (sq_current s) = length (sbuf s) then 0 else Suc (sq_current s)) \<Longrightarrow> sq_window_size s' = sq_window_size s - 1 \<Longrightarrow>
      remote_rq_window_size s' = remote_rq_window_size s - 1 \<Longrightarrow> Q 0 s'"
    and "\<And>s'. keeps s s' \<Longrightarrow> io_state s' = io_state s \<Longrightarrow> sbuf s' = sbuf s \<Longrightarrow> sent s' = sent s \<Longrightarrow> \<exists>k. answer v k \<noteq> 0 \<Longrightarrow> Q (-1) s'"
  shows "runs (post_wr v sgs now) s Q"
  using assms(1)
  by (auto simp: post_wr_def runs_bindp_iff runs_solicit runs_signal post_send_def deref_def keeps_def other_bufs_def intro!: assms(2,3))

section \<open>Several work requests\<close>

lemma iobufs_part: "iobufs X F s (as @ bs) \<Longrightarrow> iobufs X (all_ptrs bs + F) s as"
  by (simp add: iobufs_def ac_simps)

lemma iobufs_join:
  assumes "iobufs X (all_ptrs bs + F) s' as'" and "iobufs X F s (as @ bs)" and "still (all_ptrs as + (all_ptrs bs + F)) s s'"
  shows "iobufs X F s' (as' @ bs)"
proof -
  have "still (all_ptrs bs + F) s s'" by (rule still_weaken(1) [OF assms(3)])
  then have "\<forall>b \<in> set bs. is_buf s' b \<and> btext s' b = btext s b" by (rule iobufs_frame) (use assms(2) in \<open>simp add: iobufs_def\<close>)
  then show ?thesis using assms(1) by (auto simp: iobufs_def ac_simps)
qed

definition wr_bytes :: "io \<Rightarrow> send_wr list \<Rightarrow> byte list" where
  "wr_bytes i wrs = concat (map (\<lambda>w. gather i (wr_sges w)) wrs)"

lemma wr_bytes_simps [simp]: "wr_bytes i [] = []" "wr_bytes i (a @ b) = wr_bytes i a @ wr_bytes i b" "wr_bytes i [w] = gather i (wr_sges w)"
  by (simp_all add: wr_bytes_def)

definition wr_ok :: "nat \<Rightarrow> nat \<Rightarrow> endpoint \<Rightarrow> send_wr \<Rightarrow> bool" where
  "wr_ok M B s w \<longleftrightarrow> wr_sges w \<noteq> [] \<and> length (wr_sges w) \<le> M \<and> length (gather (io_state s) (wr_sges w)) \<le> B \<and>
     (\<forall>g \<in> set (wr_sges w). sge_block g \<in># all_ptrs (sbuf s))"

definition shipped :: "addr set \<Rightarrow> bptr multiset \<Rightarrow> nat \<Rightarrow> nat \<Rightarrow> endpoint \<Rightarrow> IOBuf list \<Rightarrow> send_wr list \<Rightarrow> endpoint \<Rightarrow> IOBuf list \<Rightarrow> bool" where
  "shipped X F M B s xs wrs s' xs' \<longleftrightarrow> keeps s s' \<and> length xs' = length xs \<and> length (sbuf s') = length (sbuf s) \<and>
     iobufs X F (io_state s') (xs' @ sbuf s' @ other_bufs s) \<and> sent s' = sent s @ wrs \<and> list_all (wr_ok M B s') wrs \<and>
     all_bytes (io_state s) xs = wr_bytes (io_state s') wrs @ all_bytes (io_state s') xs' \<and>
     set_mset (all_ptrs (xs' @ sbuf s')) = set_mset (all_ptrs (xs @ sbuf s)) \<and> set_mset (all_ptrs (sbuf s)) \<subseteq> set_mset (all_ptrs (sbuf s')) \<and>
     still (all_ptrs (xs @ sbuf s @ other_bufs s) + F) (io_state s) (io_state s') \<and>
     sq_window_size s' = sq_window_size s - int (length wrs) \<and> remote_rq_window_size s' = remote_rq_window_size s - int (length wrs)"

lemma shippedD:
  assumes "shipped X F M B s xs wrs s' xs'"
  shows "keeps s s'" "length xs' = length xs" "length (sbuf s') = length (sbuf s)" "iobufs X F (io_state s') (xs' @ sbuf s' @ other_bufs s)"
    "sent s' = sent s @ wrs" "list_all (wr_ok M B s') wrs" "all_bytes (io_state s) xs = wr_bytes (io_state s') wrs @ all_bytes (io_state s') xs'"
    "set_mset (all_ptrs (xs' @ sbuf s')) = set_mset (all_ptrs (xs @ sbuf s))" "set_mset (all_ptrs (sbuf s)) \<subseteq> set_mset (all_ptrs (sbuf s'))"
    "still (all_ptrs (xs @ sbuf s @ other_bufs s) + F) (io_state s) (io_state s')"
    "sq_window_size s' = sq_window_size s - int (length wrs)" "remote_rq_window_size s' = remote_rq_window_size s - int (length wrs)"
  using assms unfolding shipped_def by blast+

lemma keeps_trans: "keeps s s' \<Longrightarrow> keeps s' s'' \<Longrightarrow> keeps s s''"
  by (simp add: keeps_def)

lemma wr_frame:
  assumes 1: "shipped X F M B s xs wrs s1 xs1"
    and 2: "still (all_ptrs (xs1 @ sbuf s1 @ other_bufs s1) + F) (io_state s1) (io_state s2)"
  shows "w \<in> set wrs \<Longrightarrow> gather (io_state s2) (wr_sges w) = gather (io_state s1) (wr_sges w)"
    and "wr_bytes (io_state s2) wrs = wr_bytes (io_state s1) wrs"
proof -
  have o: "other_bufs s1 = other_bufs s" using shippedD(1) [OF 1] by (simp add: keeps_def)
  show *: "gather (io_state s2) (wr_sges w) = gather (io_state s1) (wr_sges w)" if "w \<in> set wrs" for w
  proof (rule gather_frame [OF shippedD(4) [OF 1] 2 [unfolded o]])
    fix g assume "g \<in> set (wr_sges w)"
    then have "sge_block g \<in># all_ptrs (sbuf s1)" using shippedD(6) [OF 1] that by (auto simp: list_all_iff wr_ok_def)
    then show "sge_block g \<in># all_ptrs (xs1 @ sbuf s1 @ other_bufs s)" by simp
  qed
  show "wr_bytes (io_state s2) wrs = wr_bytes (io_state s1) wrs" by (simp add: wr_bytes_def * cong: map_cong)
qed

lemma shipped_trans:
  assumes 1: "shipped X F M B s xs wrs s1 xs1" and 2: "shipped X F M B s1 xs1 wrs' s2 xs2"
  shows "shipped X F M B s xs (wrs @ wrs') s2 xs2"
proof -
  have o: "other_bufs s1 = other_bufs s" using shippedD(1) [OF 1] by (simp add: keeps_def)
  note fr = wr_frame [OF 1 shippedD(10) [OF 2]]
  have T: "set_mset (all_ptrs (xs1 @ sbuf s1 @ other_bufs s) + F) = set_mset (all_ptrs (xs @ sbuf s @ other_bufs s) + F)"
    using shippedD(8) [OF 1] by auto
  have st: "still (all_ptrs (xs @ sbuf s @ other_bufs s) + F) (io_state s) (io_state s2)"
    using shippedD(10) [OF 2] unfolding o still_set [OF T] by (rule still_trans [OF shippedD(10) [OF 1]])
  have w: "list_all (wr_ok M B s2) (wrs @ wrs')"
    using shippedD(6) [OF 1] shippedD(6,9) [OF 2] fr(1) by (auto simp: list_all_iff wr_ok_def)
  show ?thesis
    unfolding shipped_def using keeps_trans [OF shippedD(1) [OF 1] shippedD(1) [OF 2]] st w
      shippedD(2,3,5,7,8,9,11,12) [OF 1] shippedD(2,3,4,5,7,8,9,11,12) [OF 2] fr(2) o by auto
qed

lemma shipped_refl: "iobufs X F (io_state s) (xs @ sbuf s @ other_bufs s) \<Longrightarrow> shipped X F M B s xs [] s xs"
  by (simp add: shipped_def keeps_def)

text \<open>One round: the slot of the ring takes what the request covers.\<close>

lemma slot_split: "i < length l \<Longrightarrow> mset (xs @ l @ os) = mset ((l ! i # xs) @ take i l @ drop (Suc i) l @ os)"
  by (subst id_take_nth_drop [of i l]) auto

lemma shipped_one:
  assumes io: "iobufs X F (io_state s) (xs @ sbuf s @ other_bufs s)" and i: "i < length (sbuf s)"
    and m: "moved X (all_ptrs (take i (sbuf s) @ drop (Suc i) (sbuf s) @ other_bufs s) + F) (io_state s) xs (sbuf s ! i) m gs (io_state s') xs' to'"
    and s': "sbuf s' = (sbuf s)[i := to']"
  shows "iobufs X F (io_state s') (xs' @ sbuf s' @ other_bufs s)"
    and "set_mset (all_ptrs (xs' @ sbuf s')) = set_mset (all_ptrs (xs @ sbuf s))" and "set_mset (all_ptrs (sbuf s)) \<subseteq> set_mset (all_ptrs (sbuf s'))"
    and "still (all_ptrs (xs @ sbuf s @ other_bufs s) + F) (io_state s) (io_state s')"
    and "g \<in> set gs \<Longrightarrow> sge_block g \<in># all_ptrs (sbuf s')"
proof -
  let ?l = "sbuf s" let ?r = "take i ?l @ drop (Suc i) ?l @ other_bufs s"
  have l: "all_ptrs ?l = ptrs (brefs (?l ! i)) + all_ptrs (take i ?l @ drop (Suc i) ?l)"
    using slot_split [OF i, of "[]" "[]"] by (simp add: ptrs_concat_mset)
  have l': "all_ptrs (sbuf s') = ptrs (brefs to') + all_ptrs (take i ?l @ drop (Suc i) ?l)"
    using slot_split [of i "sbuf s'" "[]" "[]"] i s' by (simp add: ptrs_concat_mset)
  have "iobufs X F (io_state s) ((?l ! i # xs) @ ?r)" by (rule iobuf.order [OF io slot_split [OF i]])
  then have "iobufs X F (io_state s') ((to' # xs') @ ?r)"
    using iobufs_join [OF movedD(2) [OF m]] movedD(9) [OF m] by blast
  then show "iobufs X F (io_state s') (xs' @ sbuf s' @ other_bufs s)"
    by (rule iobuf.order) (use slot_split [of i "sbuf s'" xs' "other_bufs s"] i s' in simp)
  show "still (all_ptrs (xs @ sbuf s @ other_bufs s) + F) (io_state s) (io_state s')"
    using movedD(9) [OF m] by (simp add: l ac_simps)
  show "set_mset (all_ptrs (xs' @ sbuf s')) = set_mset (all_ptrs (xs @ sbuf s))"
    using movedD(7) [OF m] by (simp add: l l' ac_simps) blast
  show "set_mset (all_ptrs (sbuf s)) \<subseteq> set_mset (all_ptrs (sbuf s'))" using movedD(8) [OF m] by (auto simp: l l')
  show "g \<in> set gs \<Longrightarrow> sge_block g \<in># all_ptrs (sbuf s')" using movedD(10) [OF m] by (auto simp: l')
qed

text \<open>How \<open>CutFromIOBufList\<close> ends: with a number of bytes, with \<open>EAGAIN\<close> and nothing changed, or with a failure
  that leaves a request half made.\<close>

definition sent_all :: "addr set \<Rightarrow> bptr multiset \<Rightarrow> nat \<Rightarrow> nat \<Rightarrow> nat \<Rightarrow> endpoint \<Rightarrow> IOBuf list \<Rightarrow> nat \<Rightarrow> int \<times> IOBuf list \<Rightarrow> endpoint \<Rightarrow> bool" where
  "sent_all X F M B f s xs tot q s' \<longleftrightarrow> (\<exists>wrs. shipped X F M B s xs wrs s' (snd q) \<and> ring s' (f + length wrs) \<and>
     fst q = int (tot + length (wr_bytes (io_state s') wrs)) \<and>
     (all_bytes (io_state s') (snd q) = [] \<or> sq_window_size s' = 0 \<or> remote_rq_window_size s' = 0))"

definition no_window :: "endpoint \<Rightarrow> IOBuf list \<Rightarrow> nat \<Rightarrow> int \<times> IOBuf list \<Rightarrow> endpoint \<Rightarrow> bool" where
  "no_window s xs tot q s' \<longleftrightarrow> q = (-1, xs) \<and> tot = 0 \<and> s' = s\<lparr>errno := EAGAIN\<rparr> \<and> (sq_window_size s = 0 \<or> remote_rq_window_size s = 0)"

definition broken :: "verbs \<Rightarrow> addr set \<Rightarrow> bptr multiset \<Rightarrow> endpoint \<Rightarrow> IOBuf list \<Rightarrow> int \<times> IOBuf list \<Rightarrow> endpoint \<Rightarrow> bool" where
  "broken v X F s xs q s' \<longleftrightarrow> fst q = -1 \<and> (list_ex (keyless (io_state s')) (snd q) \<or> (\<exists>k. answer v k \<noteq> 0)) \<and> keeps s s' \<and> iobufs X F (io_state s') (snd q @ sbuf s' @ other_bufs s) \<and>
     (\<exists>wrs rest. sent s' = sent s @ wrs \<and> all_bytes (io_state s) xs = wr_bytes (io_state s') wrs @ rest) \<and>
     still (all_ptrs (xs @ sbuf s @ other_bufs s) + F) (io_state s) (io_state s')"

abbreviation cut_post :: "verbs \<Rightarrow> addr set \<Rightarrow> bptr multiset \<Rightarrow> nat \<Rightarrow> nat \<Rightarrow> nat \<Rightarrow> endpoint \<Rightarrow> IOBuf list \<Rightarrow> nat \<Rightarrow> int \<times> IOBuf list \<Rightarrow> endpoint \<Rightarrow> bool" where
  "cut_post v X F M B f s xs tot q s' \<equiv> sent_all X F M B f s xs tot q s' \<or> no_window s xs tot q s' \<or> broken v X F s xs q s'"

lemma cut_post_step:
  assumes 1: "shipped X F M B s xs wrs s1 xs1" and 2: "cut_post v X F M B (f + length wrs) s1 xs1 tot1 q s2"
    and t: "tot1 = tot + length (wr_bytes (io_state s1) wrs)" "0 < tot1"
  shows "cut_post v X F M B f s xs tot q s2"
proof -
  have o: "other_bufs s1 = other_bufs s" using shippedD(1) [OF 1] by (simp add: keeps_def)
  consider "sent_all X F M B (f + length wrs) s1 xs1 tot1 q s2" | "broken v X F s1 xs1 q s2" using 2 t(2) by (auto simp: no_window_def)
  then show ?thesis
  proof cases
    case 1
    then obtain w where w: "shipped X F M B s1 xs1 w s2 (snd q)" "ring s2 (f + length wrs + length w)"
      "fst q = int (tot1 + length (wr_bytes (io_state s2) w))" "all_bytes (io_state s2) (snd q) = [] \<or> sq_window_size s2 = 0 \<or> remote_rq_window_size s2 = 0"
      unfolding sent_all_def by blast
    have "fst q = int (tot + length (wr_bytes (io_state s2) (wrs @ w)))"
      using w(3) t(1) wr_frame(2) [OF assms(1) shippedD(10) [OF w(1)]] by simp
    then have "sent_all X F M B f s xs tot q s2"
      unfolding sent_all_def using shipped_trans [OF assms(1) w(1)] w(2,4) by (intro exI [of _ "wrs @ w"]) (simp add: add.assoc)
    then show ?thesis by blast
  next
    case 2
    then obtain w rest where w: "sent s2 = sent s1 @ w" "all_bytes (io_state s1) xs1 = wr_bytes (io_state s2) w @ rest"
      and st: "still (all_ptrs (xs1 @ sbuf s1 @ other_bufs s1) + F) (io_state s1) (io_state s2)" and k: "keeps s1 s2"
      unfolding broken_def by blast
    have T: "set_mset (all_ptrs (xs1 @ sbuf s1 @ other_bufs s) + F) = set_mset (all_ptrs (xs @ sbuf s @ other_bufs s) + F)"
      using shippedD(8) [OF 1] by auto
    have "still (all_ptrs (xs @ sbuf s @ other_bufs s) + F) (io_state s) (io_state s2)"
      using st unfolding o still_set [OF T] by (rule still_trans [OF shippedD(10) [OF 1]])
    moreover have "sent s2 = sent s @ (wrs @ w)" "all_bytes (io_state s) xs = wr_bytes (io_state s2) (wrs @ w) @ rest"
      using w shippedD(5,7) [OF 1] wr_frame(2) [OF 1 st] by simp_all
    ultimately have "broken v X F s xs q s2"
      using 2 keeps_trans [OF shippedD(1) [OF 1] k] unfolding broken_def o by blast
    then show ?thesis by blast
  qed
qed

abbreviation rest_ptrs :: "endpoint \<Rightarrow> bptr multiset" where
  "rest_ptrs s \<equiv> all_ptrs (take (sq_current s) (sbuf s) @ drop (Suc (sq_current s)) (sbuf s) @ other_bufs s)"

lemma shipped_request:
  assumes io: "iobufs X F (io_state s) (xs @ sbuf s @ other_bufs s)" and i: "sq_current s < length (sbuf s)"
    and m: "moved X (rest_ptrs s + F) (io_state s) xs (sbuf s ! sq_current s) m gs (io_state s') xs' to'"
    and s': "sbuf s' = (sbuf s)[sq_current s := to']" "keeps s s'" "length gs \<le> M" "length m \<le> B"
    and p: "if gs = [] then wrs = [] else \<exists>w. wrs = [w] \<and> wr_sges w = gs"
    "sent s' = sent s @ wrs" "sq_window_size s' = sq_window_size s - int (length wrs)" "remote_rq_window_size s' = remote_rq_window_size s - int (length wrs)"
  shows "shipped X F M B s xs wrs s' xs'" and "wr_bytes (io_state s') wrs = m"
proof -
  note one = shipped_one [OF io i m s'(1)]
  show w: "wr_bytes (io_state s') wrs = m" using p(1) movedD(5) [OF m] by (auto split: if_splits)
  have "list_all (wr_ok M B s') wrs" using p(1) movedD(5) [OF m] s'(3,4) one(5) by (auto simp: wr_ok_def split: if_splits)
  then show "shipped X F M B s xs wrs s' xs'"
    unfolding shipped_def using one(1-4) w s'(1,2) p(2-4) movedD(1,3) [OF m] by simp
qed

lemma moved_Nil: "moved X F s xs to [] gs s' xs' to' \<Longrightarrow> gs = []"
  using movedD(6,11) by (cases gs) fastforce+

lemma broken_round:
  assumes "iobufs X F (io_state s) (xs @ sbuf s @ other_bufs s)" and "sq_current s < length (sbuf s)"
    and "moved X (rest_ptrs s + F) (io_state s) xs (sbuf s ! sq_current s) m gs (io_state s') xs' to'"
    and "sbuf s' = (sbuf s)[sq_current s := to']" "keeps s s'" "sent s' = sent s" "list_ex (keyless (io_state s')) xs' \<or> (\<exists>k. answer v k \<noteq> 0)"
  shows "broken v X F s xs (-1, xs') s'"
  using shipped_one(1,4) [OF assms(1-4)] assms(5-7) by (simp add: broken_def)

lemma u32_of_small: "0 \<le> w \<Longrightarrow> w < 2 ^ 32 \<Longrightarrow> u32_of w = nat w"
  by (simp add: u32_of_def)

lemma runs_on_io_iff: "runs (on_io m) s Q = runs m (io_state s) (\<lambda>x i. Q x (s\<lparr>io_state := i\<rparr>))"
  by (auto simp: runs_def on_io_def split: sum.splits)

text \<open>What a round does after the scatter list is filled.\<close>

definition finish_round :: "verbs \<Rightarrow> nat \<Rightarrow> nat \<Rightarrow> (nat \<Rightarrow> IOBuf list \<Rightarrow> bool) \<Rightarrow> (nat \<times> sge list \<times> nat) option \<Rightarrow> IOBuf list \<Rightarrow> (int \<times> IOBuf list) ep" where
  "finish_round v fuel tot now r xs' = (case r of
     None \<Rightarrow> ret (-1, xs')
   | Some (cur', sgs, n) \<Rightarrow> if n = 0 then cut_loop v fuel cur' xs' tot
       else bindp (post_wr v sgs (now cur' xs')) (\<lambda>rc. if rc < 0 then ret (-1, xs') else cut_loop v fuel cur' xs' (tot + n)))"

lemma cut_loop_round:
  assumes "cur < length xs" and "0 < sq_window_size s" "sq_window_size s < 2 ^ 32" and "0 < remote_rq_window_size s" "remote_rq_window_size s < 2 ^ 32"
    and "sq_current s < length (sbuf s)"
  shows "\<exists>now. runs (cut_loop v (Suc fuel) cur xs tot) s Q \<longleftrightarrow>
    runs (fill_wr (max_sge v) (remote_recv_block_size s) (length xs - cur + max_sge v + 1) cur xs (sbuf s ! sq_current s) [] 0) (io_state s)
      (\<lambda>(r, xs', to') i. runs (finish_round v fuel tot now r xs') (s\<lparr>io_state := i, sbuf := (sbuf s)[sq_current s := to']\<rparr>) Q)"
  using assms u32_of_small [of "sq_window_size s"] u32_of_small [of "remote_rq_window_size s"]
  by (intro exI [of _ "\<lambda>cur' xs'. nat (remote_rq_window_size s) = 1 \<or> nat (sq_window_size s) = 1 \<or> cur' + 1 \<ge> length xs'"])
    (simp add: runs_bindp_iff runs_on_io_iff ring_at_def finish_round_def cut_loop.simps(2) [of v fuel cur xs tot] del: cut_loop.simps fill_wr.simps One_nat_def,
     simp add: case_prod_unfold runs_bindp_iff del: cut_loop.simps fill_wr.simps One_nat_def)

lemma ring_untouched:
  assumes "ring s f" and "brefs b = []" and "sbuf s' = (sbuf s)[i := b]" "sq_sent s' = sq_sent s" "sq_current s' = sq_current s"
    "sq_window_size s' = sq_window_size s"
  shows "ring s' f"
proof -
  have "brefs ((sbuf s)[i := b] ! j) = []" if "brefs (sbuf s ! j) = []" for j
    using that assms(2) by (cases "i < length (sbuf s)"; cases "j = i") (simp_all add: list_update_beyond)
  then show ?thesis using assms by (simp add: ring_def Let_def)
qed

lemma btext_Nil: "is_buf s b \<Longrightarrow> btext s b = [] \<Longrightarrow> brefs b = []"
  using length_content [of s "brefs b"] buf_okD(2) [of b] by (cases "brefs b") (auto simp: is_buf_def ref_fmt_def)

lemma idle_round:
  assumes io: "iobufs X F (io_state s) (xs @ sbuf s @ other_bufs s)" and rg: "ring s f" "0 < sq_window_size s"
    and m: "moved X (rest_ptrs s + F) (io_state s) xs (sbuf s ! sq_current s) m gs i xs' to'" "m = []" and e: "\<forall>b \<in> set xs'. btext i b = []"
  shows "sent_all X F M B f s xs tot (int tot, xs') (s\<lparr>io_state := i, sbuf := (sbuf s)[sq_current s := to']\<rparr>)" (is "sent_all _ _ _ _ _ _ _ _ _ ?s")
proof -
  note free = ring_free [OF rg]
  have gs: "gs = []" using m by (auto dest: moved_Nil)
  have "brefs to' = []" using movedD(2,4) [OF m(1)] free(2) m(2) by (intro btext_Nil [of i]) (simp_all add: iobufs_def)
  then have "ring ?s f" by (intro ring_untouched [OF rg(1)]) simp_all
  moreover have "shipped X F M B s xs [] ?s xs'"
    by (rule shipped_request(1) [OF io free(1), of m gs _ _ to']) (use m gs in \<open>simp_all add: keeps_def other_bufs_def\<close>)
  ultimately show ?thesis using e unfolding sent_all_def by (intro exI [of _ "[]"]) simp
qed

lemma post_round:
  assumes io: "iobufs X F (io_state s) (xs @ sbuf s @ other_bufs s)" and rg: "ring s f" "0 < sq_window_size s" and qp: "res s QP \<noteq> None"
    and m: "moved X (rest_ptrs s + F) (io_state s) xs (sbuf s ! sq_current s) m gs i xs' to'" and gs: "gs \<noteq> []" "length gs \<le> M" "length m \<le> B"
    and go: "\<And>s2 wr. shipped X F M B s xs [wr] s2 xs' \<Longrightarrow> wr_bytes (io_state s2) [wr] = m \<Longrightarrow> ring s2 (Suc f) \<Longrightarrow> io_state s2 = i \<Longrightarrow> runs K s2 Q"
    and stop: "\<And>s2. broken v X F s xs (-1, xs') s2 \<Longrightarrow> Q (-1, xs') s2"
  shows "runs (post_wr v gs now) (s\<lparr>io_state := i, sbuf := (sbuf s)[sq_current s := to']\<rparr>) (\<lambda>rc s'. runs (if rc < 0 then ret (-1, xs') else K) s' Q)"
    (is "runs _ ?s _")
proof -
  note free = ring_free [OF rg]
  have k: "keeps s ?s" by (simp add: keeps_def other_bufs_def)
  show ?thesis
  proof (rule post_wr_runs, goal_cases)
    case (2 s2)
    then obtain wr where wr: "wr_sges wr = gs" "sent s2 = sent s @ [wr]" by auto
    have k2: "keeps s s2" using k 2(2) by (rule keeps_trans)
    have m2: "moved X (rest_ptrs s + F) (io_state s) xs (sbuf s ! sq_current s) m gs (io_state s2) xs' to'" using m 2(3) by simp
    have b2: "sbuf s2 = (sbuf s)[sq_current s := to']" using 2(4) by simp
    have sh: "shipped X F M B s xs [wr] s2 xs'" "wr_bytes (io_state s2) [wr] = m"
      by (rule shipped_request [OF io free(1) m2 b2 k2 gs(2,3)]; use gs(1) wr 2 in simp)+
    have "ring s2 (Suc f)" by (rule ring_post [OF rg b2]) (use k2 2 in \<open>simp_all add: keeps_def\<close>)
    then show ?case using go [OF sh] 2(3) by simp
  next
    case (3 s2)
    then have "broken v X F s xs (-1, xs') s2" using keeps_trans [OF k 3(1)] m by (intro broken_round [OF io free(1)]) simp_all
    then show ?case using stop by simp
  qed (use qp in simp)
qed

lemma cut_loop_ok:
  assumes "iobufs X F (io_state s) (xs @ sbuf s @ other_bufs s)" and "ring s f" and "res s QP \<noteq> None"
    and "0 \<le> remote_rq_window_size s" "remote_rq_window_size s < 2 ^ 31" "length (sbuf s) < 2 ^ 31"
    and "remote_recv_block_size s = B" "0 < B" "B < 2 ^ 30" "0 < max_sge v"
    and "\<forall>b \<in> set (take cur xs). btext (io_state s) b = []" and "nat (sq_window_size s) + 1 < fuel"
  shows "runs (cut_loop v fuel cur xs tot) s (cut_post v X F (max_sge v) B f s xs tot)"
  using assms
proof (induction fuel arbitrary: s cur xs tot f)
  case (Suc fuel)
  let ?M = "max_sge v" and ?i = "sq_current s" and ?l = "sbuf s"
  let ?Q = "cut_post v X F ?M B f s xs tot" and ?F = "rest_ptrs s + F"
  have w: "0 \<le> sq_window_size s" "sq_window_size s < 2 ^ 32" "remote_rq_window_size s < 2 ^ 32" using Suc(3,6,7) by (auto simp: ring_def Let_def)
  have stop: "sent_all X F ?M B f s xs tot (int tot, xs) s"
    if "all_bytes (io_state s) xs = [] \<or> sq_window_size s = 0 \<or> remote_rq_window_size s = 0"
    using shipped_refl [OF Suc(2)] Suc(3) that unfolding sent_all_def by (intro exI [of _ "[]"]) simp
  show ?case
  proof (cases "cur \<ge> length xs \<or> sq_window_size s = 0 \<or> remote_rq_window_size s = 0")
    case True
    then show ?thesis
      using stop Suc(12) u32_of_small [OF w(1,2)] u32_of_small [OF Suc(5) w(3)] by (auto simp: no_window_def runs_bindp_iff)
  next
    case False
    then have pos: "cur < length xs" "0 < sq_window_size s" "0 < remote_rq_window_size s" using w(1) Suc(5) by auto
    note free = ring_free [OF Suc(3) pos(2)]
    have io: "iobufs X ?F (io_state s) (?l ! ?i # xs)"
      using iobufs_part [OF iobuf.order [OF Suc(2) slot_split [OF free(1)]]] by simp
    have fit: "fits (?l ! ?i) (B - 0)" using free(2) Suc(10) by (simp add: fits_def)
    obtain now where step: "runs (cut_loop v (Suc fuel) cur xs tot) s ?Q \<longleftrightarrow>
        runs (fill_wr ?M B (length xs - cur + ?M + 1) cur xs (?l ! ?i) [] 0) (io_state s)
          (\<lambda>(r, xs', to') i. runs (finish_round v fuel tot now r xs') (s\<lparr>io_state := i, sbuf := ?l[?i := to']\<rparr>) ?Q)"
      using cut_loop_round [OF pos(1,2) w(2) pos(3) w(3) free(1)] unfolding Suc(8) by blast
    show ?thesis
      unfolding step
    proof (rule runs_mono [OF fill_wr_ok [OF io pos(1) Suc(12) _ _ fit]], goal_cases)
      case (4 q i')
      obtain r xs' to' where q: "q = (r, xs', to')" by (cases q)
      let ?s = "s\<lparr>io_state := i', sbuf := ?l[?i := to']\<rparr>"
      obtain m gs where m: "moved X ?F (io_state s) xs (?l ! ?i) m gs i' xs' to'" "length gs \<le> ?M"
        "case r of None \<Rightarrow> list_ex (keyless i') xs' | Some (cur', sgs', n) \<Rightarrow> n = length m \<and> n \<le> B \<and> sgs' = gs \<and> cur' \<le> length xs \<and>
           (\<forall>b \<in> set (take cur' xs'). btext i' b = []) \<and> (cur' = length xs \<or> length sgs' = ?M \<or> n = B)"
        using 4 unfolding q fill_res_def fst_conv snd_conv append_Nil add_0 by blast
      have mv: "moved X ?F (io_state s) xs (?l ! ?i) m gs (io_state ?s) xs' to'" using m(1) by simp
      have k: "keeps s ?s" by (simp add: keeps_def other_bufs_def)
      show ?case
      proof (cases r)
        case None
        then show ?thesis using broken_round [OF Suc(2) free(1) mv _ k] m(3) by (simp add: q finish_round_def)
      next
        case (Some p)
        then obtain cur' where p: "p = (cur', gs, length m)" "length m \<le> B" "cur' \<le> length xs" "\<forall>b \<in> set (take cur' xs'). btext i' b = []"
          "cur' = length xs \<or> length gs = ?M \<or> length m = B" using m(3) by (cases p) auto
        show ?thesis
        proof (cases "m = []")
          case True
          then have g0: "gs = []" using m(1) by (auto dest: moved_Nil)
          then have gs: "gs = []" "cur' = length xs" using True p(5) Suc(9,11) by auto
          have "sent_all X F ?M B f s xs tot (int tot, xs') ?s"
            by (rule idle_round [OF Suc(2,3) pos(2) m(1) True]) (use p(4) gs(2) movedD(1) [OF m(1)] in simp)
          then show ?thesis
            using Suc(13) pos(2) gs(2) True movedD(1) [OF m(1)] by (cases fuel) (simp_all add: q Some p(1) finish_round_def)
        next
          case False
          then have gs: "gs \<noteq> []" using movedD(5) [OF m(1)] by auto
          have tp: "0 < tot + length m" using False by (cases m) auto
          have "runs (post_wr v gs (now cur' xs')) ?s (\<lambda>rc s'. runs (if rc < 0 then ret (-1, xs') else cut_loop v fuel cur' xs' (tot + length m)) s' ?Q)"
          proof (rule post_round [OF Suc(2,3) pos(2) Suc(4) m(1) gs m(2) p(2)], goal_cases)
            case (1 s2 wr)
            have o: "other_bufs s2 = other_bufs s" "res s2 = res s" "remote_recv_block_size s2 = B"
              using shippedD(1) [OF 1(1)] Suc(8) by (simp_all add: keeps_def)
            have "runs (cut_loop v fuel cur' xs' (tot + length m)) s2 (cut_post v X F ?M B (Suc f) s2 xs' (tot + length m))"
              by (rule Suc(1) [OF _ 1(3)]) (use shippedD(3,4,11,12) [OF 1(1)] o Suc(4-11,13) pos 1(4) p(4) in simp_all)
            then show ?case
              by (rule runs_mono) (rule cut_post_step [OF 1(1) _ _ tp], use 1(2) in simp_all)
          qed blast
          then show ?thesis using False by (simp add: q Some p(1) finish_round_def runs_bindp_iff)
        qed
      qed
    qed simp_all
  qed
qed simp

end
