(* ===== verification/Endpoint_Credits.thy ===== *)
theory Endpoint_Credits
  imports Endpoint_Send
begin

text \<open>
  Completions and credits of the endpoint in \<open>src-endpoint/fast_rdma_endpoint.cc\<close>: a send completion frees the oldest
  slots of the ring, and the credits that travel in the immediate data are compared with the receive buffers that were
  posted.
\<close>

section \<open>Send completions\<close>

definition freed :: "endpoint \<Rightarrow> nat \<Rightarrow> IOBuf list \<Rightarrow> bool" where
  "freed s n l \<longleftrightarrow> (let L = length (sbuf s) in length l = L \<and>
     (\<forall>k < L. l ! ((sq_sent s + k) mod L) = (if k < n then IOBuf_new else sbuf s ! ((sq_sent s + k) mod L))))"

lemma freed_step:
  assumes L: "sq_sent s < length (sbuf s)" "Suc n \<le> length (sbuf s)"
    and 1: "freed (s\<lparr>sbuf := (sbuf s)[sq_sent s := IOBuf_new], sq_sent := Suc (sq_sent s) mod length (sbuf s)\<rparr>) n l"
  shows "freed s (Suc n) l"
proof -
  let ?L = "length (sbuf s)" and ?a = "sq_sent s"
  have l: "length l = ?L" "\<And>k. k < ?L \<Longrightarrow> l ! ((Suc ?a + k) mod ?L) = (if k < n then IOBuf_new else (sbuf s)[?a := IOBuf_new] ! ((Suc ?a + k) mod ?L))"
    using 1 by (simp_all add: freed_def Let_def mod_simps)
  have "l ! ((?a + k) mod ?L) = (if k < Suc n then IOBuf_new else sbuf s ! ((?a + k) mod ?L))" if k: "k < ?L" for k
  proof (cases k)
    case 0
    have "Suc ?a + (?L - 1) = ?a + ?L" using L by linarith
    then have "(Suc ?a + (?L - 1)) mod ?L = ?a" using L(1) by simp
    then show ?thesis using l(2) [of "?L - 1"] L 0 by auto
  next
    case (Suc j)
    have "(?a + k) mod ?L \<noteq> (?a + 0) mod ?L" using mod_slots [of ?a k ?L 0] k Suc by linarith
    then have "(?a + k) mod ?L \<noteq> ?a" using L(1) by simp
    then show ?thesis using l(2) [of j] k Suc by auto
  qed
  then show ?thesis using l(1) by (simp add: freed_def Let_def)
qed

lemma release_slots_ok:
  assumes "iobufs X F (io_state s) (sbuf s @ ys)" and "sq_sent s < length (sbuf s)" and "n \<le> length (sbuf s)"
  shows "runs (release_slots n) s (\<lambda>_ s'. \<exists>i l. s' = s\<lparr>io_state := i, sbuf := l, sq_sent := (sq_sent s + n) mod length (sbuf s)\<rparr> \<and>
    freed s n l \<and> iobufs X F i (l @ ys))"
  using assms
proof (induction n arbitrary: s)
  case 0
  then show ?case by (auto simp: freed_def Let_def intro!: exI [of _ "io_state s"] exI [of _ "sbuf s"])
next
  case (Suc n)
  let ?i = "sq_sent s" and ?l = "sbuf s"
  have io: "iobufs X F (io_state s) (?l ! ?i # (take ?i ?l @ drop (Suc ?i) ?l @ ys))"
    using iobuf.order [OF Suc(2), of "?l ! ?i # (take ?i ?l @ drop (Suc ?i) ?l @ ys)"] slot_split [OF Suc(3), of "[]" ys] by simp
  have md: "Suc ?i mod length ?l < length ?l" using Suc(3) by (intro mod_less_divisor) linarith
  have sm: "(Suc ?i mod length ?l + n) mod length ?l = (?i + Suc n) mod length ?l" by (simp add: mod_add_left_eq)
  have nx: "(if Suc ?i = length ?l then 0 else Suc ?i) = Suc ?i mod length ?l" using Suc(3) by (auto simp: mod_Suc)
  let ?s = "\<lambda>i. s\<lparr>io_state := i, sbuf := ?l[?i := IOBuf_new], sq_sent := Suc ?i mod length ?l\<rparr>"
  have "runs (IOBuf_clear (?l ! ?i)) (io_state s) (\<lambda>b i. b = IOBuf_new \<and> iobufs X F i (b # (take ?i ?l @ drop (Suc ?i) ?l @ ys)))"
    by (rule clear_one_ok [OF io])
  then have "runs (IOBuf_clear (?l ! ?i)) (io_state s) (\<lambda>b i. b = IOBuf_new \<and> runs (release_slots n) (?s i)
      (\<lambda>_ s'. \<exists>i l. s' = s\<lparr>io_state := i, sbuf := l, sq_sent := (?i + Suc n) mod length ?l\<rparr> \<and> freed s (Suc n) l \<and> iobufs X F i (l @ ys)))"
  proof (rule runs_mono, elim conjE, goal_cases)
    case (1 b i)
    then have b: "b = IOBuf_new" "iobufs X F i (b # (take ?i ?l @ drop (Suc ?i) ?l @ ys))" by simp_all
    have "iobufs X F i (?l[?i := IOBuf_new] @ ys)"
      by (rule iobuf.order [OF b(2)]) (use slot_split [of ?i "?l[?i := IOBuf_new]" "[]" ys] Suc(3) b(1) in simp)
    then have "runs (release_slots n) (?s i) (\<lambda>_ s'. \<exists>j l. s' = (?s i)\<lparr>io_state := j, sbuf := l, sq_sent := (sq_sent (?s i) + n) mod length (sbuf (?s i))\<rparr> \<and>
        freed (?s i) n l \<and> iobufs X F j (l @ ys))"
      using Suc(4) md by (intro Suc(1)) simp_all
    then have "runs (release_slots n) (?s i)
      (\<lambda>_ s'. \<exists>i l. s' = s\<lparr>io_state := i, sbuf := l, sq_sent := (?i + Suc n) mod length ?l\<rparr> \<and> freed s (Suc n) l \<and> iobufs X F i (l @ ys))"
    proof (rule runs_mono, elim exE conjE, goal_cases)
      case (1 u s' j l)
      have e: "s' = (?s i)\<lparr>io_state := j, sbuf := l, sq_sent := (sq_sent (?s i) + n) mod length (sbuf (?s i))\<rparr>" "freed (?s i) n l" "iobufs X F j (l @ ys)"
        by (fact 1)+
      have "freed s (Suc n) l" by (rule freed_step [OF Suc(3,4)]) (use e(2) in \<open>simp add: freed_def Let_def\<close>)
      moreover have "s' = s\<lparr>io_state := j, sbuf := l, sq_sent := (?i + Suc n) mod length ?l\<rparr>" using e(1) sm by simp
      ultimately show ?case using e(3) by blast
    qed
    then show ?case using b(1) by simp
  qed
  then show ?case
    using Suc(3) by (simp add: runs_bindp_iff runs_on_io_iff nx) (erule runs_mono, simp)
qed

lemma ring_freed:
  assumes rg: "ring s f" "n \<le> f" and l: "freed s n l" and s': "sbuf s' = l" "sq_sent s' = (sq_sent s + n) mod length (sbuf s)"
    "sq_current s' = sq_current s" "sq_window_size s' = sq_window_size s + int n"
  shows "ring s' (f - n)"
proof -
  let ?L = "length (sbuf s)"
  have L: "sq_sent s < ?L" "f \<le> ?L" "sq_current s = (sq_sent s + f) mod ?L" using rg(1) by (auto simp: ring_def Let_def)
  have len: "length l = ?L" using l by (simp add: freed_def Let_def)
  have "brefs (l ! ((sq_sent s + n + k) mod ?L)) = []" if k: "f - n \<le> k" "k < ?L" for k
  proof (cases "n + k < ?L")
    case True
    then show ?thesis using l rg k by (simp add: freed_def ring_def Let_def add.assoc)
  next
    case False
    then have "sq_sent s + n + k = sq_sent s + (n + k - ?L) + ?L" by linarith
    then have "(sq_sent s + n + k) mod ?L = (sq_sent s + (n + k - ?L)) mod ?L" by (metis mod_add_self2)
    moreover have "n + k - ?L < n" "n + k - ?L < ?L" using False k L rg(2) by auto
    ultimately show ?thesis using l by (simp add: freed_def Let_def IOBuf_new_ok)
  qed
  moreover have "(sq_sent s + f) mod ?L = ((sq_sent s + n) mod ?L + (f - n)) mod ?L" unfolding mod_add_left_eq using rg(2) by simp
  moreover have "(sq_sent s + n) mod ?L < ?L" using L(1) by (intro mod_less_divisor) linarith
  ultimately show ?thesis
    using rg s' len L by (simp add: ring_def Let_def mod_add_left_eq)
qed

lemma send_completion_ok:
  assumes io: "iobufs X F (io_state s) (sbuf s @ ys)" and rg: "ring s f" "wc_id wc \<le> f" and wc: "wc_op wc = WC_SEND" "0 < wc_id wc"
  shows "runs (HandleCompletion v wc) s (\<lambda>rc s'. rc = 0 \<and> ring s' (f - wc_id wc) \<and> freed s (wc_id wc) (sbuf s') \<and>
    iobufs X F (io_state s') (sbuf s' @ ys) \<and> sq_window_size s' = sq_window_size s + int (wc_id wc) \<and>
    sq_sent s' = (sq_sent s + wc_id wc) mod length (sbuf s) \<and> rbuf s' = rbuf s \<and> read_buf s' = read_buf s \<and> sent s' = sent s)"
    (is "runs _ _ ?Q")
proof -
  have L: "sq_sent s < length (sbuf s)" "wc_id wc \<le> length (sbuf s)" using rg by (auto simp: ring_def Let_def)
  have "runs (release_slots (wc_id wc)) s (\<lambda>_ s1. \<forall>j. ?Q 0 (s1\<lparr>sq_window_size := sq_window_size s1 + int (wc_id wc), writable_butex := j\<rparr>))"
  proof (rule runs_mono [OF release_slots_ok [OF io L]], elim exE conjE, intro allI, goal_cases)
    case (1 u s1 i l j)
    have e: "s1 = s\<lparr>io_state := i, sbuf := l, sq_sent := (sq_sent s + wc_id wc) mod length (sbuf s)\<rparr>" "freed s (wc_id wc) l" "iobufs X F i (l @ ys)"
      by (fact 1)+
    have "ring (s1\<lparr>sq_window_size := sq_window_size s1 + int (wc_id wc), writable_butex := j\<rparr>) (f - wc_id wc)"
      by (rule ring_freed [OF rg e(2)]) (simp_all add: e(1))
    then show ?case using e by simp
  qed
  then have "runs (release_slots (wc_id wc)) s (\<lambda>_ s1. runs (bindp (upd (\<lambda>s. s\<lparr>sq_window_size := sq_window_size s + int (wc_id wc)\<rparr>)) (\<lambda>_.
      bindp (get (\<lambda>s. remote_rq_window_size s \<ge> local_window_capacity s sdiv 8)) (\<lambda>w. bindp (if w then WakeForWritable else ret ()) (\<lambda>_. ret 0)))) s1 ?Q)"
  proof (rule runs_mono, goal_cases)
    case (1 u s1)
    then show ?case
      using spec [OF 1, of "writable_butex s1"] spec [OF 1, of "writable_butex s1 + 1"] by (simp add: runs_bindp_iff WakeForWritable_def)
  qed
  then show ?thesis using wc by (simp add: HandleCompletion_def runs_bindp_iff)
qed

section \<open>Credits\<close>

text \<open>What \<open>ntohs\<close> reads of a value that was written by \<open>htonl\<close>: its upper half.\<close>

lemma ntohs_htonl: "ntohs (ucast (htonl x)) = ucast (drop_bit 16 x)"
proof -
  have h: "le16 (ucast y) = take 2 (le32 y)" for y :: u32
    by (auto simp: le16_def le32_def bit_simps numeral_eq_Suc intro!: bit_word_eqI)
  have "le16 (ucast (htonl x)) = [ucast (drop_bit 24 x), ucast (drop_bit 16 x)]" unfolding h le32_htonl by (simp add: be32_def le32_def)
  moreover have "le16 (ucast (drop_bit 16 x)) = [ucast (drop_bit 16 x), ucast (drop_bit 24 x)]"
    by (auto simp: le16_def bit_simps intro!: bit_word_eqI)
  ultimately show ?thesis unfolding ntohs_def by (metis rev.simps append_Cons append_Nil unle16_le16)
qed

lemma small_credits: "n < 2 ^ 16 \<Longrightarrow> ntohs (ucast (htonl (of_nat n))) = 0"
proof -
  assume n: "n < 2 ^ 16"
  have "unat (drop_bit 16 (of_nat n :: u32)) = n mod 2 ^ 32 div 2 ^ 16" by (simp add: drop_bit_eq_div unat_div_distrib unat_of_nat)
  then have "drop_bit 16 (of_nat n :: u32) = 0" using n by (simp add: unat_eq_zero)
  then show ?thesis by (simp add: ntohs_htonl)
qed

section \<open>Small messages\<close>

abbreviation recv_wc :: "nat \<Rightarrow> nat \<Rightarrow> bool \<Rightarrow> u32 \<Rightarrow> ibv_wc" where
  "recv_wc w n with_imm imm \<equiv> \<lparr>wc_op = WC_RECV, wc_id = w, wc_len = n, wc_with_imm = with_imm, wc_imm = imm\<rparr>"

lemma repost_ok:
  assumes i: "rq_received s < length (rbuf_data s)" "rbuf_data s ! rq_received s = Some (p, off)" and b: "heap (io_state s) p = Some b"
    and v: "res s QP \<noteq> None" "0 \<le> answer v (asked s)"
    and Q: "Q 0 (s\<lparr>asked := asked s + 1, posted := posted s @ (if answer v (asked s) = 0 then [Some (p, off)] else []),
      rq_received := (if Suc (rq_received s) = length (rbuf s) then 0 else Suc (rq_received s)), new_rq_wrs := new_rq_wrs s + 1\<rparr>)"
  shows "runs (PostRecv v 1 False) s Q"
proof -
  obtain q where q: "res s QP = Some q" using v(1) by blast
  have "runs (post_recvs v 1 False) s (\<lambda>rc s1. rc = 0 \<and> s1 = s\<lparr>asked := asked s + 1, posted := posted s @ (if answer v (asked s) = 0 then [Some (p, off)] else []),
      rq_received := (if Suc (rq_received s) = length (rbuf s) then 0 else Suc (rq_received s))\<rparr>)"
    using i q v(2)
    by (auto simp: andthen_def runs_bindp_iff ring_at_def DoPostRecv_def runs_on_io_iff region_key_ok [OF b] deref_def)
  then show ?thesis unfolding PostRecv_def by (intro runs_andthen) (erule runs_mono, use Q in \<open>auto simp: runs_bindp_iff\<close>)
qed

lemma small_receive_ok:
  assumes io: "is_buf (io_state s) (read_buf s)" "io_ok X (io_state s) (ptrs (brefs (read_buf s)) + F)" and f: "fits (read_buf s) n"
    and n: "0 < n" "n < g_rdma_zerocopy_min_size"
    and i: "rq_received s < length (rbuf_data s)" "rbuf_data s ! rq_received s = Some (p, off)" and p: "heap (io_state s) p = Some b" "p \<in># F"
    and v: "res s QP \<noteq> None" "0 \<le> answer v (asked s)" and cap: "new_rq_wrs s + 2 \<le> remote_window_capacity s sdiv 2"
  shows "runs (HandleCompletion v (recv_wc w n False 0)) s (\<lambda>rc s'. rc = int n \<and>
    (\<exists>m \<le> n. btext (io_state s') (read_buf s') = btext (io_state s) (read_buf s) @ take m (map (\<lambda>k. bytes b (off + k)) [0..<n])) \<and>
    posted s' = posted s @ (if answer v (asked s) = 0 then [Some (p, off)] else []) \<and> new_rq_wrs s' = new_rq_wrs s + 2)" (is "runs _ _ ?Q")
proof -
  let ?bs = "map (\<lambda>k. bytes b (off + k)) [0..<n]"
  let ?rest = "andthen (PostRecv v 1 False) (bindp (SendAck v 1) (\<lambda>_. ret (int n)))"
  have "runs (append_data (Some ?bs) (read_buf s)) (io_state s) (append_all X F (io_state s) (read_buf s) ?bs)"
    by (rule append_data_ok [OF io]) (use f in simp)
  then have "runs (append_data (Some ?bs) (read_buf s)) (io_state s) (\<lambda>(x', e) j. runs ?rest (s\<lparr>io_state := j, read_buf := x'\<rparr>) ?Q)"
  proof (rule runs_mono, goal_cases)
    case (1 q j)
    obtain x' e where q: "q = (x', e)" by (cases q)
    have "take n ?bs = ?bs" by simp
    then have "\<exists>m \<le> n. appended X F (io_state s) (read_buf s) (take m ?bs) j x'"
      using 1 unfolding q append_all_def prod.case length_map length_upt minus_nat.diff_0 by (metis less_imp_le order_refl)
    then obtain m where m: "m \<le> n" "appended X F (io_state s) (read_buf s) (take m ?bs) j x'" by blast
    have io': "io_ok X j (ptrs (brefs x') + F)" "btext j x' = btext (io_state s) (read_buf s) @ take m ?bs"
      using m(2) by (simp_all add: appended_def)
    have "heap_ok X j (ptrs (brefs x') + F + mset (block_head j))" using io'(1) by (simp add: io_ok_def)
    then have "\<exists>b'. heap j p = Some b'" by (rule heap_okD(4)) (use p(2) in simp)
    then obtain b' where b': "heap (io_state (s\<lparr>io_state := j, read_buf := x'\<rparr>)) p = Some b'" by auto
    have "runs ?rest (s\<lparr>io_state := j, read_buf := x'\<rparr>) ?Q"
      by (rule runs_andthen, rule repost_ok [OF _ _ b']) (use i v cap io'(2) m(1) in \<open>auto simp: SendAck_def runs_bindp_iff\<close>)
    then show ?case unfolding q by simp
  qed
  then show ?thesis
    using n i p(1)
    by (simp add: HandleCompletion_def runs_bindp_iff take_input_def ring_at_def runs_on_io_iff read_block_def runs_get_block case_prod_unfold)
qed

section \<open>Properties\<close>

definition demo_qp :: vobj where
  "demo_qp = Qp 4 (Cq 1 (Chan 0)) (Cq 2 (Chan 0))"

definition send_ep :: "io \<Rightarrow> endpoint" where
  "send_ep i = demo_ep\<lparr>res := [QP \<mapsto> demo_qp], io_state := i, sbuf := [IOBuf_new, IOBuf_new], sq_window_size := 2,
     remote_rq_window_size := 2, remote_recv_block_size := 8192\<rparr>"

lemma send_ep_simps [simp]:
  "io_state (send_ep i) = i" "sbuf (send_ep i) = [IOBuf_new, IOBuf_new]" "other_bufs (send_ep i) = [IOBuf_new]" "sq_window_size (send_ep i) = 2"
  "remote_rq_window_size (send_ep i) = 2" "remote_recv_block_size (send_ep i) = 8192" "res (send_ep i) QP = Some demo_qp" "sq_sent (send_ep i) = 0"
  "sq_current (send_ep i) = 0" "asked (send_ep i) = 5" "sent (send_ep i) = []"
  by (simp_all add: send_ep_def demo_ep_def other_bufs_def)

lemma send_ep_ring: "ring (send_ep i) 0"
  by (auto simp: ring_def Let_def IOBuf_new_ok less_Suc_eq numeral_eq_Suc)

lemma send_ep_bufs: "\<exists>i x. btext i x = demo_bytes \<and> iobufs {} {#} i ([x] @ sbuf (send_ep i) @ other_bufs (send_ep i))"
proof -
  obtain i x where x: "is_buf i x" "io_ok {} i (ptrs (brefs x))" "btext i x = demo_bytes" using demo_append by blast
  then have "iobufs {} {#} i [x]" by (simp add: iobufs_def)
  then have "iobufs {} {#} i [IOBuf_new, IOBuf_new, IOBuf_new, x]" by (intro iobuf.new_buf(1))
  then have "iobufs {} {#} i ([x] @ sbuf (send_ep i) @ other_bufs (send_ep i))" by (rule iobuf.order) simp
  then show ?thesis using x(3) by blast
qed



text \<open>C17: A completion of the send queue frees the oldest requests and nothing else. With \<open>f\<close> requests in flight and a
  completion for \<open>n\<close> of them, exactly the slots of the first \<open>n\<close> are cleared, those of the others still hold the bytes
  the device may read, the ring is consistent with \<open>f - n\<close> requests in flight, and the window grows by \<open>n\<close>.\<close>

theorem send_completion_frees_oldest:
  assumes "iobufs X F (io_state s) (sbuf s @ ys)" and "ring s f" and "wc_op wc = WC_SEND" and "0 < wc_id wc" and "wc_id wc \<le> f"
  shows "runs (HandleCompletion v wc) s (\<lambda>rc s'. rc = 0 \<and> ring s' (f - wc_id wc) \<and> freed s (wc_id wc) (sbuf s') \<and>
    iobufs X F (io_state s') (sbuf s' @ ys) \<and> sq_window_size s' = sq_window_size s + int (wc_id wc))"
  by (rule runs_mono [OF send_completion_ok [OF assms(1,2,5,3,4)]]) simp

definition busy_ep :: endpoint where
  "busy_ep = demo_ep\<lparr>sbuf := [IOBuf_new, IOBuf_new], sq_current := 1, sq_window_size := 1\<rparr>"

theorem send_completion_frees_oldest_witness:
  "runs (HandleCompletion demo_verbs \<lparr>wc_op = WC_SEND, wc_id = 1, wc_len = 0, wc_with_imm = False, wc_imm = 0\<rparr>) busy_ep
     (\<lambda>rc s'. rc = 0 \<and> ring s' 0 \<and> sq_window_size s' = 2)"
proof -
  have "iobufs {} {#} demo_io []" using demo_io_ok by (simp add: iobufs_def)
  then have "iobufs {} {#} demo_io [IOBuf_new, IOBuf_new]" by (intro iobuf.new_buf(1))
  then have io: "iobufs {} {#} (io_state busy_ep) (sbuf busy_ep @ [])" by (simp add: busy_ep_def demo_ep_def)
  have "ring busy_ep 1" by (auto simp: busy_ep_def demo_ep_def ring_def Let_def IOBuf_new_ok less_Suc_eq numeral_eq_Suc)
  from send_completion_frees_oldest [OF io this, of "\<lparr>wc_op = WC_SEND, wc_id = 1, wc_len = 0, wc_with_imm = False, wc_imm = 0\<rparr>" demo_verbs]
  show ?thesis by simp (erule runs_mono, simp add: busy_ep_def demo_ep_def)
qed

text \<open>C35: Credits are lost on the wire. A request whose immediate data says that \<open>n\<close> receive buffers were posted anew,
  for any \<open>n\<close> below 65536, leaves the window of the peer as it was: it is written with \<open>htonl\<close> and read with \<open>ntohs\<close>.\<close>

theorem credits_lost_on_the_wire:
  assumes "0 < n" and "n < 2 ^ 16" and "res s QP \<noteq> None" and "answer v (asked s) = 0"
  shows "runs (SendImm v (of_nat n)) s (\<lambda>rc s'. rc = 0 \<and> (\<exists>wr. sent s' = sent s @ [wr] \<and> ntohl (wr_imm wr) = of_nat n \<and>
    runs (add_credits (wr_imm wr)) peer (\<lambda>_ p. remote_rq_window_size p = remote_rq_window_size peer)))"
proof -
  have "(of_nat n :: u32) \<noteq> 0" using assms(1,2) by (simp add: word_of_nat_eq_0_iff nat_dvd_not_less)
  moreover have "runs (add_credits (htonl (of_nat n))) peer (\<lambda>_ p. remote_rq_window_size p = remote_rq_window_size peer)"
    by (simp add: add_credits_def small_credits [OF assms(2)] Let_def runs_bindp_iff WakeForWritable_def)
  ultimately show ?thesis
    using assms(3,4) by (auto simp: SendImm_def post_send_def deref_def runs_bindp_iff)
qed

theorem credits_lost_on_the_wire_witness:
  "runs (SendImm demo_verbs 7) (send_ep demo_io) (\<lambda>rc s'. rc = 0 \<and> (\<exists>wr. sent s' = [wr] \<and> ntohl (wr_imm wr) = 7 \<and>
    runs (add_credits (wr_imm wr)) demo_ep (\<lambda>_ p. remote_rq_window_size p = 0)))"
  using credits_lost_on_the_wire [of 7 "send_ep demo_io" demo_verbs demo_ep] by (simp add: demo_verbs_def demo_ep_def)

text \<open>C36: A message below the zero-copy limit is copied to the end of the read buffer, but the credits do not say what
  happened to its receive buffer. Two credits are recorded for it where at most one buffer was posted anew, and also where
  \<open>ibv_post_recv\<close> refused it with its positive error code; and the bytes that did not fit when no block could be
  allocated are dropped without an error.\<close>

theorem small_receive_counts_twice:
  assumes "is_buf (io_state s) (read_buf s)" and "io_ok X (io_state s) (ptrs (brefs (read_buf s)) + F)" and "fits (read_buf s) n"
    and "0 < n" and "n < g_rdma_zerocopy_min_size" and "rq_received s < length (rbuf_data s)" and "rbuf_data s ! rq_received s = Some (p, off)"
    and "heap (io_state s) p = Some b" and "p \<in># F" and "res s QP \<noteq> None" and "0 \<le> answer v (asked s)"
    and "new_rq_wrs s + 2 \<le> remote_window_capacity s sdiv 2"
  shows "runs (HandleCompletion v (recv_wc w n False 0)) s (\<lambda>rc s'. rc = int n \<and>
    (\<exists>m \<le> n. btext (io_state s') (read_buf s') = btext (io_state s) (read_buf s) @ take m (map (\<lambda>k. bytes b (off + k)) [0..<n])) \<and>
    posted s' = posted s @ (if answer v (asked s) = 0 then [Some (p, off)] else []) \<and> new_rq_wrs s' = new_rq_wrs s + 2)"
  by (rule small_receive_ok [OF assms])

definition recv_ep :: "io \<Rightarrow> IOBuf \<Rightarrow> endpoint" where
  "recv_ep i x = demo_ep\<lparr>res := [QP \<mapsto> demo_qp], io_state := i, rbuf := [x, IOBuf_new], rbuf_data := [Some (demo_block, 0), None],
     remote_window_capacity := 100\<rparr>"

theorem small_receive_counts_twice_witness:
  "\<exists>i x. btext i x = demo_bytes \<and> runs (HandleCompletion (demo_verbs\<lparr>answer := \<lambda>_. 12\<rparr>) (recv_wc 0 5 False 0)) (recv_ep i x)
     (\<lambda>rc s'. rc = 5 \<and> posted s' = [] \<and> new_rq_wrs s' = 2)"
proof -
  obtain i x where x: "is_buf i x" "io_ok {} i (ptrs (brefs x))" "btext i x = demo_bytes"
      "brefs x = [\<lparr>r_offset = 0, r_length = 5, r_block = Some demo_block\<rparr>]" using demo_append by blast
  then have "heap_ok {} i (ptrs (brefs x) + mset (block_head i))" by (simp add: io_ok_def)
  then have "\<exists>b. heap i demo_block = Some b" by (rule heap_okD(4)) (simp add: x(4))
  then obtain b where b: "heap i demo_block = Some b" by blast
  have "is_buf i IOBuf_new" "fits IOBuf_new 5" by (simp_all add: is_buf_def IOBuf_new_ok fits_def)
  then show ?thesis
    using small_receive_counts_twice [of "recv_ep i x" "{}" "{#demo_block#}" 5 demo_block 0 b "demo_verbs\<lparr>answer := \<lambda>_. 12\<rparr>" 0] x b
    by (intro exI [of _ i] exI [of _ x])
      (simp add: recv_ep_def demo_ep_def g_rdma_zerocopy_min_size_def IOBuf_new_ok, erule runs_mono, simp)
qed

end
