(* ===== verification/Bounded_Queue.thy ===== *)
theory Bounded_Queue
  imports Prelude
begin

text \<open>
  The bounded queue of \<open>src-bthread/butil/bounded_queue.h\<close>, a ring of raw memory in which items are constructed and
  destroyed in place, and the locked queue of tasks in \<open>src-bthread/remote_task_queue.h\<close> over it. The indices are
  32-bit. A cell of the memory holds an item while one is constructed there.
\<close>

section \<open>The queue\<close>

datatype StorageOwnership = OWNS_STORAGE | NOT_OWN_STORAGE

record 'a bqueue =
  bq_count :: u32
  bq_cap :: u32
  bq_start :: u32
  bq_ownership :: StorageOwnership
  bq_items :: "'a option list option"

text \<open>\<open>_mod\<close>; with a capacity of zero its loop does not end.\<close>

partial_function (option) bq_mod :: "u32 \<Rightarrow> u32 \<Rightarrow> u32 option" where
  "bq_mod off cap = (if off \<ge> cap then bq_mod (off - cap) cap else Some off)"

definition bq_index :: "u32 \<Rightarrow> (u32 \<Rightarrow> ('a bqueue, 'r) prog) \<Rightarrow> ('a bqueue, 'r) prog" where
  "bq_index off k = (\<lambda>q. case bq_mod off (bq_cap q) of None \<Rightarrow> Inl Diverges | Some i \<Rightarrow> k i q)"

definition peek :: "('s \<Rightarrow> 'b) \<Rightarrow> ('b \<Rightarrow> ('s, 'r) prog) \<Rightarrow> ('s, 'r) prog" where
  "peek f k = (\<lambda>q. k (f q) q)"

definition bq_cell :: "u32 \<Rightarrow> ('a option list \<Rightarrow> ('a bqueue, 'r) prog) \<Rightarrow> ('a bqueue, 'r) prog" where
  "bq_cell i k = peek bq_items (\<lambda>m. case m of None \<Rightarrow> crash NullDeref
     | Some l \<Rightarrow> if unat i < length l then k l else crash OutOfBounds)"

text \<open>Placement new, the copy of an item, an assignment to an item, and a destructor call.\<close>

definition bq_construct :: "u32 \<Rightarrow> 'a \<Rightarrow> ('a bqueue, unit) prog" where
  "bq_construct i x = bq_cell i (\<lambda>l. upd (\<lambda>q. q\<lparr>bq_items := Some (l[unat i := Some x])\<rparr>))"

definition bq_read :: "u32 \<Rightarrow> ('a bqueue, 'a) prog" where
  "bq_read i = bq_cell i (\<lambda>l. case l ! unat i of None \<Rightarrow> crash UseAfterFree | Some x \<Rightarrow> ret x)"

definition bq_assign :: "u32 \<Rightarrow> 'a \<Rightarrow> ('a bqueue, unit) prog" where
  "bq_assign i x = bindp (bq_read i) (\<lambda>_. bq_construct i x)"

definition bq_destruct :: "u32 \<Rightarrow> ('a bqueue, unit) prog" where
  "bq_destruct i = bindp (bq_read i) (\<lambda>_. bq_cell i (\<lambda>l. upd (\<lambda>q. q\<lparr>bq_items := Some (l[unat i := None])\<rparr>)))"

section \<open>Construction\<close>

text \<open>The queue over given memory, of \<open>n\<close> cells, the queue that allocates its memory, \<open>ok\<close> telling whether
  \<open>malloc\<close> succeeds, and the default one. \<open>_cap\<close> keeps 32 bits of the capacity.\<close>

definition BoundedQueue_mem :: "nat \<Rightarrow> StorageOwnership \<Rightarrow> 'a bqueue" where
  "BoundedQueue_mem n ow = \<lparr>bq_count = 0, bq_cap = of_nat n, bq_start = 0, bq_ownership = ow, bq_items = Some (replicate n None)\<rparr>"

definition BoundedQueue_cap :: "bool \<Rightarrow> nat \<Rightarrow> 'a bqueue" where
  "BoundedQueue_cap ok capacity = \<lparr>bq_count = 0, bq_cap = of_nat capacity, bq_start = 0, bq_ownership = OWNS_STORAGE,
     bq_items = (if ok then Some (replicate capacity None) else None)\<rparr>"

definition BoundedQueue_default :: "'a bqueue" where
  "BoundedQueue_default = \<lparr>bq_count = 0, bq_cap = 0, bq_start = 0, bq_ownership = NOT_OWN_STORAGE, bq_items = None\<rparr>"

section \<open>Operations\<close>

definition bq_push :: "'a \<Rightarrow> ('a bqueue, bool) prog" where
  "bq_push x = peek (\<lambda>q. (bq_count q, bq_cap q, bq_start q)) (\<lambda>(count, cap, start).
     if count < cap then bindp (bq_index (start + count) (\<lambda>i. bq_construct i x)) (\<lambda>_.
       bindp (upd (\<lambda>q. q\<lparr>bq_count := count + 1\<rparr>)) (\<lambda>_. ret True))
     else ret False)"

definition bq_elim_push :: "'a \<Rightarrow> ('a bqueue, unit) prog" where
  "bq_elim_push x = peek (\<lambda>q. (bq_count q, bq_cap q, bq_start q)) (\<lambda>(count, cap, start).
     if count < cap then bindp (bq_index (start + count) (\<lambda>i. bq_construct i x)) (\<lambda>_. upd (\<lambda>q. q\<lparr>bq_count := count + 1\<rparr>))
     else bindp (bq_assign start x) (\<lambda>_. bq_index (start + 1) (\<lambda>i. upd (\<lambda>q. q\<lparr>bq_start := i\<rparr>))))"

text \<open>The variants that construct a default item return its address.\<close>

definition bq_push_new :: "'a \<Rightarrow> ('a bqueue, u32 option) prog" where
  "bq_push_new d = peek (\<lambda>q. (bq_count q, bq_cap q, bq_start q)) (\<lambda>(count, cap, start).
     if count < cap then bindp (upd (\<lambda>q. q\<lparr>bq_count := count + 1\<rparr>)) (\<lambda>_.
       bq_index (start + count) (\<lambda>i. bindp (bq_construct i d) (\<lambda>_. ret (Some i))))
     else ret None)"

definition bq_push_top :: "'a \<Rightarrow> ('a bqueue, bool) prog" where
  "bq_push_top x = peek (\<lambda>q. (bq_count q, bq_cap q, bq_start q)) (\<lambda>(count, cap, start).
     if count < cap then
       let start' = (if start \<noteq> 0 then start - 1 else cap - 1) in
       bindp (upd (\<lambda>q. q\<lparr>bq_start := start', bq_count := count + 1\<rparr>)) (\<lambda>_.
       bindp (bq_construct start' x) (\<lambda>_. ret True))
     else ret False)"

definition bq_push_top_new :: "'a \<Rightarrow> ('a bqueue, u32 option) prog" where
  "bq_push_top_new d = peek (\<lambda>q. (bq_count q, bq_cap q, bq_start q)) (\<lambda>(count, cap, start).
     if count < cap then
       let start' = (if start \<noteq> 0 then start - 1 else cap - 1) in
       bindp (upd (\<lambda>q. q\<lparr>bq_start := start', bq_count := count + 1\<rparr>)) (\<lambda>_.
       bindp (bq_construct start' d) (\<lambda>_. ret (Some start')))
     else ret None)"

text \<open>\<open>pop\<close> with and without a place for the item.\<close>

definition bq_pop_item :: "('a bqueue, 'a option) prog" where
  "bq_pop_item = peek (\<lambda>q. (bq_count q, bq_start q)) (\<lambda>(count, start).
     if count \<noteq> 0 then bindp (upd (\<lambda>q. q\<lparr>bq_count := count - 1\<rparr>)) (\<lambda>_. bindp (bq_read start) (\<lambda>x.
       bindp (bq_destruct start) (\<lambda>_. bq_index (start + 1) (\<lambda>i. bindp (upd (\<lambda>q. q\<lparr>bq_start := i\<rparr>)) (\<lambda>_. ret (Some x))))))
     else ret None)"

definition bq_pop :: "('a bqueue, bool) prog" where
  "bq_pop = peek (\<lambda>q. (bq_count q, bq_start q)) (\<lambda>(count, start).
     if count \<noteq> 0 then bindp (upd (\<lambda>q. q\<lparr>bq_count := count - 1\<rparr>)) (\<lambda>_.
       bindp (bq_destruct start) (\<lambda>_. bq_index (start + 1) (\<lambda>i. bindp (upd (\<lambda>q. q\<lparr>bq_start := i\<rparr>)) (\<lambda>_. ret True))))
     else ret False)"

definition bq_pop_bottom_item :: "('a bqueue, 'a option) prog" where
  "bq_pop_bottom_item = peek (\<lambda>q. (bq_count q, bq_start q)) (\<lambda>(count, start).
     if count \<noteq> 0 then bindp (upd (\<lambda>q. q\<lparr>bq_count := count - 1\<rparr>)) (\<lambda>_. bq_index (start + (count - 1)) (\<lambda>i.
       bindp (bq_read i) (\<lambda>x. bindp (bq_destruct i) (\<lambda>_. ret (Some x)))))
     else ret None)"

definition bq_pop_bottom :: "('a bqueue, bool) prog" where
  "bq_pop_bottom = peek (\<lambda>q. (bq_count q, bq_start q)) (\<lambda>(count, start).
     if count \<noteq> 0 then bindp (upd (\<lambda>q. q\<lparr>bq_count := count - 1\<rparr>)) (\<lambda>_. bq_index (start + (count - 1)) (\<lambda>i.
       bindp (bq_destruct i) (\<lambda>_. ret True)))
     else ret False)"

fun bq_clear_loop :: "nat \<Rightarrow> u32 \<Rightarrow> ('a bqueue, unit) prog" where
  "bq_clear_loop 0 i = ret ()"
| "bq_clear_loop (Suc n) i = bindp (peek bq_start (\<lambda>start. bq_index (start + i) bq_destruct)) (\<lambda>_. bq_clear_loop n (i + 1))"

text \<open>The loop of \<open>clear\<close> runs \<open>_count\<close> times.\<close>

definition bq_clear :: "('a bqueue, unit) prog" where
  "bq_clear = peek bq_count (\<lambda>count. bindp (bq_clear_loop (unat count) 0) (\<lambda>_. upd (\<lambda>q. q\<lparr>bq_count := 0, bq_start := 0\<rparr>)))"

definition BoundedQueue_destroy :: "('a bqueue, unit) prog" where
  "BoundedQueue_destroy = bindp bq_clear (\<lambda>_. upd (\<lambda>q. if bq_ownership q = OWNS_STORAGE then q\<lparr>bq_items := None\<rparr> else q))"

text \<open>Access: the address of an item from the top or from the bottom.\<close>

definition bq_top_at :: "nat \<Rightarrow> ('a bqueue, u32 option) prog" where
  "bq_top_at n = peek (\<lambda>q. (bq_count q, bq_start q)) (\<lambda>(count, start).
     if n < unat count then bq_index (start + of_nat n) (\<lambda>i. ret (Some i)) else ret None)"

definition bq_top :: "('a bqueue, u32 option) prog" where
  "bq_top = peek (\<lambda>q. (bq_count q, bq_start q)) (\<lambda>(count, start). ret (if count \<noteq> 0 then Some start else None))"

definition bq_bottom_at :: "nat \<Rightarrow> ('a bqueue, u32 option) prog" where
  "bq_bottom_at n = peek (\<lambda>q. (bq_count q, bq_start q)) (\<lambda>(count, start).
     if n < unat count then bq_index (start + count - of_nat n - 1) (\<lambda>i. ret (Some i)) else ret None)"

definition bq_bottom :: "('a bqueue, u32 option) prog" where
  "bq_bottom = peek (\<lambda>q. (bq_count q, bq_start q)) (\<lambda>(count, start).
     if count \<noteq> 0 then bq_index (start + count - 1) (\<lambda>i. ret (Some i)) else ret None)"

definition bq_empty :: "'a bqueue \<Rightarrow> bool" where "bq_empty q \<longleftrightarrow> bq_count q = 0"
definition bq_full :: "'a bqueue \<Rightarrow> bool" where "bq_full q \<longleftrightarrow> bq_cap q = bq_count q"
definition bq_initialized :: "'a bqueue \<Rightarrow> bool" where "bq_initialized q \<longleftrightarrow> bq_items q \<noteq> None"
definition bq_max_capacity :: nat where "bq_max_capacity = 2 ^ 32 - 1"

definition bq_swap :: "'a bqueue \<Rightarrow> 'a bqueue \<Rightarrow> 'a bqueue \<times> 'a bqueue" where
  "bq_swap q r = (r, q)"

section \<open>The queue of remote tasks\<close>

text \<open>\<open>init\<close>: the new queue is swapped in, and the old one is destroyed with the local variable.\<close>

definition remote_init :: "bool \<Rightarrow> nat \<Rightarrow> ('a bqueue, int) prog" where
  "remote_init ok cap = (if \<not> ok then ret (-1) else
     bindp BoundedQueue_destroy (\<lambda>_. bindp (upd (\<lambda>old. fst (bq_swap old (BoundedQueue_mem cap OWNS_STORAGE)))) (\<lambda>_. ret 0)))"

definition remote_pop :: "('a bqueue, 'a option) prog" where
  "remote_pop = peek bq_empty (\<lambda>e. if e then ret None else bq_pop_item)"

definition remote_push :: "'a \<Rightarrow> ('a bqueue, bool) prog" where
  "remote_push task = bq_push task"

section \<open>The list a ring holds\<close>

definition cells :: "'a option list \<Rightarrow> nat \<Rightarrow> 'a list \<Rightarrow> bool" where
  "cells l st xs \<longleftrightarrow> st < length l \<and> length xs \<le> length l \<and>
     (\<forall>k < length l. l ! ((st + k) mod length l) = (if k < length xs then Some (xs ! k) else None))"

lemma cellsD:
  assumes "cells l st xs"
  shows "st < length l" "length xs \<le> length l" "k < length xs \<Longrightarrow> l ! ((st + k) mod length l) = Some (xs ! k)"
    "length xs \<le> k \<Longrightarrow> k < length l \<Longrightarrow> l ! ((st + k) mod length l) = None"
  using assms by (simp_all add: cells_def)

lemma cellsI:
  assumes "st < length l" and "length xs \<le> length l"
    and "\<And>k. k < length l \<Longrightarrow> l ! ((st + k) mod length l) = (if k < length xs then Some (xs ! k) else None)"
  shows "cells l st xs"
  using assms by (simp add: cells_def)

lemma slot_lt: "st < L \<Longrightarrow> (st + k) mod L < (L :: nat)"
  by (intro mod_less_divisor) linarith

lemma other_slot: "j < L \<Longrightarrow> k < L \<Longrightarrow> j \<noteq> k \<Longrightarrow> (st + j) mod L \<noteq> (st + k) mod (L :: nat)"
  using mod_slots by blast

lemma not_start: "st < L \<Longrightarrow> Suc k < L \<Longrightarrow> (st + Suc k) mod L \<noteq> (st :: nat)"
  using other_slot [of "Suc k" L 0 st] by fastforce

lemma cells_append:
  assumes c: "cells l st xs" and n: "length xs < length l"
  shows "cells (l[(st + length xs) mod length l := Some x]) st (xs @ [x])"
proof (rule cellsI)
  fix k assume "k < length (l[(st + length xs) mod length l := Some x])"
  then show "l[(st + length xs) mod length l := Some x] ! ((st + k) mod length (l[(st + length xs) mod length l := Some x])) =
      (if k < length (xs @ [x]) then Some ((xs @ [x]) ! k) else None)"
    using c n slot_lt [OF cellsD(1) [OF c]] other_slot [of k "length l" "length xs" st]
    by (cases "k = length xs") (auto simp: cells_def nth_append)
qed (use c n in \<open>auto simp: cells_def\<close>)

lemma cells_butlast:
  assumes c: "cells l st (xs @ [x])"
  shows "l ! ((st + length xs) mod length l) = Some x" and "cells (l[(st + length xs) mod length l := None]) st xs"
proof -
  show "l ! ((st + length xs) mod length l) = Some x" using cellsD(3) [OF c, of "length xs"] by simp
  have n: "length xs < length l" using c by (simp add: cells_def)
  show "cells (l[(st + length xs) mod length l := None]) st xs"
  proof (rule cellsI)
    fix k assume "k < length (l[(st + length xs) mod length l := None])"
    then show "l[(st + length xs) mod length l := None] ! ((st + k) mod length (l[(st + length xs) mod length l := None])) =
        (if k < length xs then Some (xs ! k) else None)"
      using c n slot_lt [OF cellsD(1) [OF c]] other_slot [of k "length l" "length xs" st]
      by (cases "k = length xs") (auto simp: cells_def nth_append)
  qed (use c n in \<open>auto simp: cells_def\<close>)
qed

text \<open>The front of the list moves with the start of the ring.\<close>

lemma last_slot: "st < L \<Longrightarrow> (Suc st + (L - 1)) mod L = (st :: nat)"
proof -
  assume "st < L"
  then have "Suc st + (L - 1) = st + L" by linarith
  then show ?thesis using \<open>st < L\<close> by simp
qed

lemma cells_shift:
  assumes "st < length l" and "length ys \<le> length l"
    and "l ! st = (if length ys = length l then Some (last ys) else None)"
    and "\<And>k. Suc k < length l \<Longrightarrow> l ! ((st + Suc k) mod length l) = (if k < length ys then Some (ys ! k) else None)"
  shows "cells l (Suc st mod length l) ys"
proof (rule cellsI)
  fix k assume k: "k < length l"
  have e: "(Suc st mod length l + k) mod length l = (st + Suc k) mod length l" by (simp add: mod_add_left_eq)
  show "l ! ((Suc st mod length l + k) mod length l) = (if k < length ys then Some (ys ! k) else None)"
  proof (cases "Suc k < length l")
    case True
    then show ?thesis using assms(4) e by simp
  next
    case False
    then have "k = length l - 1" using k by linarith
    then have "(st + Suc k) mod length l = st" using last_slot [OF assms(1)] by simp
    moreover have "ys \<noteq> []" if "k < length ys" using that by auto
    ultimately show ?thesis using assms(2,3) e \<open>k = length l - 1\<close> k by (auto simp: last_conv_nth)
  qed
qed (use assms in \<open>auto intro: mod_less_divisor simp: gr0_conv_Suc\<close>)

lemma cells_tl:
  assumes c: "cells l st (x # xs)"
  shows "l ! st = Some x" and "cells (l[st := None]) (Suc st mod length l) xs"
    and "Suc (length xs) = length l \<Longrightarrow> cells (l[st := Some y]) (Suc st mod length l) (xs @ [y])"
proof -
  have st: "st < length l" "(st + 0) mod length l = st" using c by (simp_all add: cells_def)
  show "l ! st = Some x" using cellsD(3) [OF c, of 0] st(2) by simp
  have other: "(st + Suc k) mod length l \<noteq> st" if "Suc k < length l" for k by (rule not_start [OF st(1) that])
  have n: "Suc (length xs) \<le> length l" using c by (simp add: cells_def)
  have at: "l[st := z] ! ((st + Suc k) mod length l) = (if k < length xs then Some (xs ! k) else None)" if "Suc k < length l" for k z
    using cellsD(3,4) [OF c, of "Suc k"] other [OF that] that by (cases "k < length xs") simp_all
  have "cells (l[st := None]) (Suc st mod length (l[st := None])) xs"
    by (rule cells_shift) (use at st n in auto)
  then show "cells (l[st := None]) (Suc st mod length l) xs" by simp
  show "cells (l[st := Some y]) (Suc st mod length l) (xs @ [y])" if m: "Suc (length xs) = length l"
  proof -
    have "cells (l[st := Some y]) (Suc st mod length (l[st := Some y])) (xs @ [y])"
      by (rule cells_shift) (use at st m in \<open>auto simp: nth_append\<close>)
    then show ?thesis by simp
  qed
qed

lemma cells_Cons:
  assumes c: "cells l (Suc st mod length l) xs" and n: "st < length l" "length xs < length l"
  shows "cells (l[st := Some x]) st (x # xs)"
proof (rule cellsI)
  fix k assume k: "k < length (l[st := Some x])"
  show "l[st := Some x] ! ((st + k) mod length (l[st := Some x])) = (if k < length (x # xs) then Some ((x # xs) ! k) else None)"
  proof (cases k)
    case (Suc j)
    have "(st + k) mod length l \<noteq> st" using not_start [OF n(1), of j] k Suc by simp
    moreover have "(st + k) mod length l = (Suc st mod length l + j) mod length l" using Suc by (simp add: mod_add_left_eq)
    ultimately show ?thesis using c k Suc by (simp add: cells_def)
  qed (use n in simp)
qed (use n in auto)

section \<open>Every operation on the list\<close>

lemma bq_mod_ok: "0 < cap \<Longrightarrow> bq_mod off cap = Some (off mod cap)"
proof (induction "unat off" arbitrary: off rule: less_induct)
  case less
  show ?case
  proof (cases "cap \<le> off")
    case True
    have "unat (off - cap) < unat off" using True less(2) by (simp add: unat_sub word_less_nat_alt word_le_nat_alt)
    then have "bq_mod (off - cap) cap = Some ((off - cap) mod cap)" using less by blast
    moreover have "(off - cap) mod cap = off mod cap"
    proof -
      have "unat ((off - cap) mod cap) = unat (off mod cap)"
        using True by (simp add: unat_mod_distrib unat_sub word_le_nat_alt le_mod_geq [symmetric])
      then show ?thesis by (simp only: word_unat_eq_iff)
    qed
    ultimately show ?thesis using True by (subst bq_mod.simps) simp
  next
    case False
    then show ?thesis by (subst bq_mod.simps) (simp add: mod_word_less)
  qed
qed

lemma bq_mod_diverges: "bq_mod off 0 = None"
proof -
  have "bq_mod off cap = Some r \<Longrightarrow> cap \<noteq> 0" for cap r
    by (erule bq_mod.raw_induct [rotated]) (auto split: if_splits)
  then show ?thesis by (cases "bq_mod off 0") auto
qed

definition bq_rep :: "'a bqueue \<Rightarrow> 'a list \<Rightarrow> bool" where
  "bq_rep q xs \<longleftrightarrow> (case bq_items q of
     None \<Rightarrow> bq_cap q = 0 \<and> bq_count q = 0 \<and> bq_start q = 0 \<and> xs = []
   | Some l \<Rightarrow> length l = unat (bq_cap q) \<and> bq_cap q \<le> 2 ^ 31 \<and> unat (bq_count q) = length xs \<and> cells l (unat (bq_start q)) xs)"

lemma bq_repE:
  assumes "bq_rep q xs"
  obtains "bq_items q = None" "bq_cap q = 0" "bq_count q = 0" "bq_start q = 0" "xs = []"
  | l where "bq_items q = Some l" "length l = unat (bq_cap q)" "bq_cap q \<le> 2 ^ 31" "unat (bq_count q) = length xs" "cells l (unat (bq_start q)) xs"
  using assms by (auto simp: bq_rep_def split: option.splits)

lemma runs_peek [simp]: "runs (peek f k) q Q = runs (k (f q)) q Q"
  by (simp add: runs_def peek_def)

lemma runs_index: "0 < bq_cap q \<Longrightarrow> runs (bq_index off k) q Q = runs (k (off mod bq_cap q)) q Q"
  by (simp add: runs_def bq_index_def bq_mod_ok)

lemma runs_cell: "bq_items q = Some l \<Longrightarrow> unat i < length l \<Longrightarrow> runs (bq_cell i k) q Q = runs (k l) q Q"
  by (simp add: bq_cell_def)

lemmas runs_cells = runs_bindp_iff runs_index runs_cell bq_construct_def bq_read_def bq_assign_def bq_destruct_def

lemma unat_slot:
  assumes "0 < cap" and "unat a + n < 2 ^ 32"
  shows "unat ((a + of_nat n) mod cap) = (unat a + n) mod unat (cap :: u32)"
  using assms by (simp add: unat_mod_distrib unat_word_ariths unat_of_nat mod_simps)

text \<open>The arithmetic of a queue with memory.\<close>

lemma bq_rep_at:
  assumes "length l = unat (bq_cap q)" "bq_cap q \<le> 2 ^ 31" "unat (bq_count q) = length xs" "cells l (unat (bq_start q)) xs"
  shows "0 < bq_cap q" and "unat (bq_start q) < 2 ^ 31" and "length l \<le> 2 ^ 31" and "length xs \<le> length l"
    and "n \<le> length l \<Longrightarrow> unat ((bq_start q + of_nat n) mod bq_cap q) = (unat (bq_start q) + n) mod length l"
    and "bq_count q = of_nat (length xs)" and "bq_count q < bq_cap q \<longleftrightarrow> length xs < length l"
    and "length xs < length l \<Longrightarrow> unat (bq_count q + 1) = Suc (length xs)" and "xs \<noteq> [] \<Longrightarrow> unat (bq_count q - 1) = length xs - 1"
proof -
  have c: "unat (bq_start q) < length l" "length xs \<le> length l" using assms(4) by (simp_all add: cells_def)
  have l: "length l \<le> 2 ^ 31" using assms(1,2) by (simp add: word_le_nat_alt)
  show "0 < bq_cap q" using c(1) assms(1) by (simp add: word_less_nat_alt)
  then show "unat ((bq_start q + of_nat n) mod bq_cap q) = (unat (bq_start q) + n) mod length l" if "n \<le> length l" for n
    using unat_slot [of "bq_cap q" "bq_start q" n] c(1) l that assms(1) by simp
  show "unat (bq_start q) < 2 ^ 31" "length l \<le> 2 ^ 31" "length xs \<le> length l" using c l by linarith+
  show "bq_count q = of_nat (length xs)" by (simp add: assms(3) [symmetric])
  show "bq_count q < bq_cap q \<longleftrightarrow> length xs < length l" using assms(1,3) by (simp add: word_less_nat_alt)
  show "unat (bq_count q + 1) = Suc (length xs)" if "length xs < length l"
    using that l assms(3) by (simp add: unat_word_ariths)
  show "unat (bq_count q - 1) = length xs - 1" if "xs \<noteq> []"
    using that assms(3) by (simp add: unat_sub word_le_nat_alt Suc_le_eq)
qed

abbreviation bq_capacity :: "'a bqueue \<Rightarrow> nat" where
  "bq_capacity q \<equiv> unat (bq_cap q)"

lemma bq_push_ok:
  assumes "bq_rep q xs"
  shows "runs (bq_push x) q (\<lambda>r q'. bq_cap q' = bq_cap q \<and> r = (length xs < bq_capacity q) \<and> bq_rep q' (if r then xs @ [x] else xs))"
  using assms
proof (cases rule: bq_repE)
  case (2 l)
  note at = bq_rep_at [OF 2(2-5)]
  have "unat ((bq_start q + bq_count q) mod bq_cap q) = (unat (bq_start q) + length xs) mod length l" using at(5) [OF at(4)] at(6) by simp
  then show ?thesis
    using 2 at(1,7,8) cells_append [OF 2(5), of x] slot_lt [OF cellsD(1) [OF 2(5)]] assms
    by (auto simp: bq_push_def runs_cells bq_rep_def)
qed (simp add: bq_push_def bq_rep_def)

lemma bq_elim_push_ok:
  assumes "bq_rep q xs" and "0 < bq_cap q"
  shows "runs (bq_elim_push x) q (\<lambda>_ q'. bq_cap q' = bq_cap q \<and> bq_rep q' (if length xs < bq_capacity q then xs @ [x] else tl xs @ [x]))"
  using assms(1)
proof (cases rule: bq_repE)
  case (2 l)
  note at = bq_rep_at [OF 2(2-5)] and st = cellsD(1) [OF 2(5)]
  show ?thesis
  proof (cases "length xs < length l")
    case True
    have "unat ((bq_start q + bq_count q) mod bq_cap q) = (unat (bq_start q) + length xs) mod length l" using at(5) [OF at(4)] at(6) by simp
    then show ?thesis
      using 2 True at(1,7,8) cells_append [OF 2(5) True, of x] slot_lt [OF st] by (simp add: bq_elim_push_def runs_cells bq_rep_def)
  next
    case False
    then have n: "length xs = length l" using at(4) by simp
    then obtain y ys where xs: "xs = y # ys" using st by (cases xs) auto
    have "unat ((bq_start q + 1) mod bq_cap q) = Suc (unat (bq_start q)) mod length l" using at(5) [of 1] st by simp
    then show ?thesis
      using 2 n xs st at(1,7) cells_tl(1) [of l "unat (bq_start q)" y ys] cells_tl(3) [of l "unat (bq_start q)" y ys x] by (simp add: bq_elim_push_def runs_cells bq_rep_def)
  qed
qed (use assms in simp)

lemma bq_push_top_ok:
  assumes "bq_rep q xs"
  shows "runs (bq_push_top x) q (\<lambda>r q'. bq_cap q' = bq_cap q \<and> r = (length xs < bq_capacity q) \<and> bq_rep q' (if r then x # xs else xs))"
  using assms
proof (cases rule: bq_repE)
  case (2 l)
  note at = bq_rep_at [OF 2(2-5)] and st = cellsD(1) [OF 2(5)]
  let ?s = "if bq_start q \<noteq> 0 then bq_start q - 1 else bq_cap q - 1"
  have s: "unat ?s < length l" "Suc (unat ?s) mod length l = unat (bq_start q)"
  proof -
    have "1 \<le> bq_cap q" using at(1) by (simp add: word_le_nat_alt word_less_nat_alt)
    then have "unat ?s = (if unat (bq_start q) \<noteq> 0 then unat (bq_start q) - 1 else length l - 1)"
      using 2(2) by (auto simp: unat_minus_one unat_sub word_le_nat_alt unat_eq_zero)
    then show "unat ?s < length l" "Suc (unat ?s) mod length l = unat (bq_start q)" using st by auto
  qed
  have "length xs < length l \<Longrightarrow> cells (l[unat ?s := Some x]) (unat ?s) (x # xs)"
    by (rule cells_Cons) (use 2(5) s in simp_all)
  then show ?thesis
    using 2 at(1,7,8) s(1) assms by (auto simp: bq_push_top_def runs_cells bq_rep_def Let_def)
qed (simp add: bq_push_top_def bq_rep_def)

lemma bq_pop_ok:
  assumes "bq_rep q xs"
  shows "runs bq_pop_item q (\<lambda>r q'. bq_cap q' = bq_cap q \<and> r = (case xs of [] \<Rightarrow> None | x # _ \<Rightarrow> Some x) \<and> bq_rep q' (tl xs)) \<and>
    runs bq_pop q (\<lambda>r q'. bq_cap q' = bq_cap q \<and> r = (xs \<noteq> []) \<and> bq_rep q' (tl xs))"
  using assms
proof (cases rule: bq_repE)
  case (2 l)
  note at = bq_rep_at [OF 2(2-5)] and st = cellsD(1) [OF 2(5)]
  show ?thesis
  proof (cases xs)
    case Nil
    then show ?thesis using 2(4) assms by (simp add: bq_pop_item_def bq_pop_def unat_eq_zero)
  next
    case (Cons x ys)
    have "unat ((bq_start q + 1) mod bq_cap q) = Suc (unat (bq_start q)) mod length l" using at(5) [of 1] st by simp
    moreover have "bq_count q \<noteq> 0" using 2(4) Cons by auto
    ultimately show ?thesis
      using 2 st at(1,9) Cons cells_tl(1,2) [of l "unat (bq_start q)" x ys]
      by (simp add: bq_pop_item_def bq_pop_def runs_cells bq_rep_def)
  qed
qed (simp add: bq_pop_item_def bq_pop_def bq_rep_def)

lemma bq_pop_bottom_ok:
  assumes "bq_rep q xs"
  shows "runs bq_pop_bottom_item q (\<lambda>r q'. bq_cap q' = bq_cap q \<and> r = (if xs = [] then None else Some (last xs)) \<and> bq_rep q' (butlast xs)) \<and>
    runs bq_pop_bottom q (\<lambda>r q'. bq_cap q' = bq_cap q \<and> r = (xs \<noteq> []) \<and> bq_rep q' (butlast xs))"
  using assms
proof (cases rule: bq_repE)
  case (2 l)
  note at = bq_rep_at [OF 2(2-5)] and st = cellsD(1) [OF 2(5)]
  show ?thesis
  proof (cases xs rule: rev_cases)
    case Nil
    then show ?thesis using 2(4) assms by (simp add: bq_pop_bottom_item_def bq_pop_bottom_def unat_eq_zero)
  next
    case (snoc ys x)
    have c: "bq_count q \<noteq> 0" "bq_count q - 1 = of_nat (length ys)" using 2(4) snoc at(6) by auto
    have "unat ((bq_start q + (bq_count q - 1)) mod bq_cap q) = (unat (bq_start q) + length ys) mod length l"
      using at(4) at(5) [of "length ys"] snoc unfolding c(2) by simp
    then show ?thesis
      using 2 c(1) st at(1,9) snoc cells_butlast [of l "unat (bq_start q)" ys x] slot_lt [OF st]
      by (simp add: bq_pop_bottom_item_def bq_pop_bottom_def runs_cells bq_rep_def)
  qed
qed (simp add: bq_pop_bottom_item_def bq_pop_bottom_def bq_rep_def)

lemma slot_at:
  assumes "st < L" and "j < (L :: nat)"
  shows "\<exists>k < L. j = (st + k) mod L"
proof (cases "st \<le> j")
  case True
  then show ?thesis using assms by (intro exI [of _ "j - st"]) auto
next
  case False
  then show ?thesis using assms by (intro exI [of _ "j + L - st"]) auto
qed

lemma cells_Nil: "cells l st [] \<Longrightarrow> l = replicate (length l) None"
proof (rule nth_equalityI)
  fix j assume c: "cells l st []" and j: "j < length l"
  obtain k where "k < length l" "j = (st + k) mod length l" using slot_at [OF cellsD(1) [OF c] j] by blast
  then show "l ! j = replicate (length l) None ! j" using c j by (simp add: cells_def)
qed simp

lemma bq_clear_loop_ok:
  assumes "bq_items q = Some l" and "length l = unat (bq_cap q)" and "bq_cap q \<le> 2 ^ 31" and "unat (bq_start q) < length l"
    and "cells l ((unat (bq_start q) + n) mod length l) xs" and "n + length xs \<le> length l"
  shows "runs (bq_clear_loop (length xs) (of_nat n)) q (\<lambda>_ q'. q' = q\<lparr>bq_items := Some (replicate (length l) None)\<rparr>)"
  using assms
proof (induction xs arbitrary: q l n)
  case Nil
  then show ?case using cells_Nil [OF Nil(5)] by simp
next
  case (Cons x xs)
  let ?st = "(unat (bq_start q) + n) mod length l"
  have cap: "0 < bq_cap q" "length l \<le> 2 ^ 31" using Cons(3,4,5) by (simp_all add: word_less_nat_alt word_le_nat_alt)
  have i: "unat ((bq_start q + of_nat n) mod bq_cap q) = ?st" using unat_slot [OF cap(1), of "bq_start q" n] cap(2) Cons(3,5,7) by simp
  have nx: "Suc ?st mod length l = (unat (bq_start q) + Suc n) mod length l" by (simp add: mod_Suc_eq)
  have "runs (bq_clear_loop (length xs) (of_nat (Suc n))) (q\<lparr>bq_items := Some (l[?st := None])\<rparr>)
      (\<lambda>_ q'. q' = (q\<lparr>bq_items := Some (l[?st := None])\<rparr>)\<lparr>bq_items := Some (replicate (length (l[?st := None])) None)\<rparr>)"
    by (rule Cons(1)) (use Cons(2-7) cells_tl(2) [OF Cons(6)] nx in simp_all)
  then show ?case
    using Cons(2) cap(1) i slot_lt [OF Cons(5), of n] cells_tl(1) [OF Cons(6)] by (simp add: runs_cells add.commute)
qed

lemma bq_clear_ok:
  assumes "bq_rep q xs"
  shows "runs bq_clear q (\<lambda>_ q'. bq_cap q' = bq_cap q \<and> bq_ownership q' = bq_ownership q \<and> bq_rep q' [])"
  using assms
proof (cases rule: bq_repE)
  case (2 l)
  have "runs (bq_clear_loop (length xs) (of_nat 0)) q (\<lambda>_ q'. q' = q\<lparr>bq_items := Some (replicate (length l) None)\<rparr>)"
    by (rule bq_clear_loop_ok) (use 2 cellsD(1,2) [OF 2(5)] in simp_all)
  then show ?thesis
    using 2 cellsD(1) [OF 2(5)] by (auto simp: bq_clear_def runs_bindp_iff bq_rep_def cells_def elim!: runs_mono)
qed (simp add: bq_clear_def runs_bindp_iff bq_rep_def)

text \<open>The addresses that the accessors give.\<close>

definition bq_deref :: "'a bqueue \<Rightarrow> u32 option \<Rightarrow> 'a option" where
  "bq_deref q p = Option.bind p (\<lambda>i. Option.bind (bq_items q) (\<lambda>l. if unat i < length l then l ! unat i else None))"

lemma bq_top_at_ok:
  assumes "bq_rep q xs" and "n < length xs"
  shows "runs (bq_top_at n) q (\<lambda>p q'. q' = q \<and> bq_deref q p = Some (xs ! n))"
  using assms(1)
proof (cases rule: bq_repE)
  case (2 l)
  note at = bq_rep_at [OF 2(2-5)]
  have "unat ((bq_start q + of_nat n) mod bq_cap q) = (unat (bq_start q) + n) mod length l" using at(4,5) assms(2) by simp
  then show ?thesis
    using 2 at(1) assms(2) cellsD(3) [OF 2(5)] slot_lt [OF cellsD(1) [OF 2(5)]] by (simp add: bq_top_at_def runs_index bq_deref_def)
qed (use assms in simp)

lemma bq_bottom_at_ok:
  assumes "bq_rep q xs" and "n < length xs"
  shows "runs (bq_bottom_at n) q (\<lambda>p q'. q' = q \<and> bq_deref q p = Some (xs ! (length xs - 1 - n)))"
proof -
  have c: "unat (bq_count q) = length xs" using assms by (cases rule: bq_repE) simp_all
  then have "bq_count q - of_nat n - 1 = of_nat (length xs - 1 - n)" using assms(2) by (simp add: of_nat_diff c [symmetric])
  then have "bq_start q + bq_count q - of_nat n - 1 = bq_start q + of_nat (length xs - 1 - n)" by (simp add: algebra_simps)
  then show ?thesis
    using bq_top_at_ok [OF assms(1), of "length xs - 1 - n"] assms(2) c by (simp add: bq_bottom_at_def bq_top_at_def algebra_simps)
qed

section \<open>The contract\<close>

text \<open>A queue of items of bounded capacity that represents a list, and one with two ends.\<close>

locale fifo_queue =
  fixes rep :: "'q \<Rightarrow> 'a list \<Rightarrow> bool" and room :: "'q \<Rightarrow> nat" and push :: "'a \<Rightarrow> ('q, bool) prog" and pop :: "('q, 'a option) prog"
  assumes push_law: "rep q xs \<Longrightarrow> runs (push x) q (\<lambda>r q'. room q' = room q \<and> r = (length xs < room q) \<and> rep q' (if r then xs @ [x] else xs))"
    and pop_law: "rep q xs \<Longrightarrow> runs pop q (\<lambda>r q'. room q' = room q \<and> r = (case xs of [] \<Rightarrow> None | x # _ \<Rightarrow> Some x) \<and> rep q' (tl xs))"

locale bounded_deque = fifo_queue +
  fixes elim_push :: "'a \<Rightarrow> ('q, unit) prog" and push_top :: "'a \<Rightarrow> ('q, bool) prog" and pop_bottom :: "('q, 'a option) prog" and clear :: "('q, unit) prog"
  assumes elim_push_law: "rep q xs \<Longrightarrow> 0 < room q \<Longrightarrow>
      runs (elim_push x) q (\<lambda>_ q'. room q' = room q \<and> rep q' (if length xs < room q then xs @ [x] else tl xs @ [x]))"
    and push_top_law: "rep q xs \<Longrightarrow> runs (push_top x) q (\<lambda>r q'. room q' = room q \<and> r = (length xs < room q) \<and> rep q' (if r then x # xs else xs))"
    and pop_bottom_law: "rep q xs \<Longrightarrow> runs pop_bottom q (\<lambda>r q'. room q' = room q \<and> r = (if xs = [] then None else Some (last xs)) \<and> rep q' (butlast xs))"
    and clear_law: "rep q xs \<Longrightarrow> runs clear q (\<lambda>_ q'. room q' = room q \<and> rep q' [])"

text \<open>Sequences of operations, on the queue and on the list.\<close>

datatype 'a qop = Push 'a | ElimPush 'a | PushTop 'a | Pop | PopBottom | Clear

fun list_op :: "nat \<Rightarrow> 'a qop \<Rightarrow> 'a list \<Rightarrow> 'a option \<times> 'a list" where
  "list_op n (Push x) xs = (if length xs < n then (Some x, xs @ [x]) else (None, xs))"
| "list_op n (ElimPush x) xs = (Some x, (if length xs < n then xs else tl xs) @ [x])"
| "list_op n (PushTop x) xs = (if length xs < n then (Some x, x # xs) else (None, xs))"
| "list_op n Pop xs = (case xs of [] \<Rightarrow> (None, []) | x # ys \<Rightarrow> (Some x, ys))"
| "list_op n PopBottom xs = (if xs = [] then (None, []) else (Some (last xs), butlast xs))"
| "list_op n Clear xs = (None, [])"

fun list_ops :: "nat \<Rightarrow> 'a qop list \<Rightarrow> 'a list \<Rightarrow> 'a option list \<times> 'a list" where
  "list_ops n [] xs = ([], xs)"
| "list_ops n (c # cs) xs = (let (r, ys) = list_op n c xs; (rs, zs) = list_ops n cs ys in (r # rs, zs))"

definition accepted :: "'a \<Rightarrow> ('q, bool) prog \<Rightarrow> ('q, 'a option) prog" where
  "accepted x m = bindp m (\<lambda>r. ret (if r then Some x else None))"

fun deque_op :: "('a \<Rightarrow> ('q, bool) prog) \<Rightarrow> ('q, 'a option) prog \<Rightarrow> ('a \<Rightarrow> ('q, unit) prog) \<Rightarrow> ('a \<Rightarrow> ('q, bool) prog) \<Rightarrow> ('q, 'a option) prog \<Rightarrow>
    ('q, unit) prog \<Rightarrow> 'a qop \<Rightarrow> ('q, 'a option) prog" where
  "deque_op push pop elim_push push_top pop_bottom clear (Push x) = accepted x (push x)"
| "deque_op push pop elim_push push_top pop_bottom clear (ElimPush x) = bindp (elim_push x) (\<lambda>_. ret (Some x))"
| "deque_op push pop elim_push push_top pop_bottom clear (PushTop x) = accepted x (push_top x)"
| "deque_op push pop elim_push push_top pop_bottom clear Pop = pop"
| "deque_op push pop elim_push push_top pop_bottom clear PopBottom = pop_bottom"
| "deque_op push pop elim_push push_top pop_bottom clear Clear = bindp clear (\<lambda>_. ret None)"

fun each :: "('c \<Rightarrow> ('q, 'b) prog) \<Rightarrow> 'c list \<Rightarrow> ('q, 'b list) prog" where
  "each f [] = ret []"
| "each f (c # cs) = bindp (f c) (\<lambda>r. bindp (each f cs) (\<lambda>rs. ret (r # rs)))"

context bounded_deque
begin

lemma op_refines:
  assumes "rep q xs" and "0 < room q"
  shows "runs (deque_op push pop elim_push push_top pop_bottom clear c) q
    (\<lambda>r q'. room q' = room q \<and> r = fst (list_op (room q) c xs) \<and> rep q' (snd (list_op (room q) c xs)))"
proof (cases c)
  case (Push x)
  show ?thesis unfolding Push deque_op.simps accepted_def by (rule runs_then [OF push_law [OF assms(1)]]) auto
next
  case (ElimPush x)
  show ?thesis unfolding ElimPush deque_op.simps by (rule runs_then [OF elim_push_law [OF assms]]) (auto split: if_splits)
next
  case (PushTop x)
  show ?thesis unfolding PushTop deque_op.simps accepted_def by (rule runs_then [OF push_top_law [OF assms(1)]]) auto
next
  case Pop
  show ?thesis unfolding Pop deque_op.simps by (rule runs_mono [OF pop_law [OF assms(1)]]) (auto split: list.splits)
next
  case PopBottom
  show ?thesis unfolding PopBottom deque_op.simps by (rule runs_mono [OF pop_bottom_law [OF assms(1)]]) auto
next
  case Clear
  show ?thesis unfolding Clear deque_op.simps by (rule runs_then [OF clear_law [OF assms(1)]]) auto
qed

lemma ops_refine:
  assumes "rep q xs" and "0 < room q"
  shows "runs (each (deque_op push pop elim_push push_top pop_bottom clear) cs) q
    (\<lambda>rs q'. room q' = room q \<and> rs = fst (list_ops (room q) cs xs) \<and> rep q' (snd (list_ops (room q) cs xs)))"
  using assms
proof (induction cs arbitrary: q xs)
  case (Cons c cs)
  show ?case
    unfolding each.simps
  proof (rule runs_then [OF op_refines [OF Cons(2,3), of c]], goal_cases)
    case (1 r q')
    then show ?case
      using Cons(1) [of q' "snd (list_op (room q) c xs)"] Cons(3) by (auto simp: runs_bindp_iff case_prod_unfold Let_def elim!: runs_mono)
  qed
qed simp

end

context fifo_queue
begin

lemma push_each: "rep q xs \<Longrightarrow> length xs + length ys \<le> room q \<Longrightarrow>
    runs (each push ys) q (\<lambda>rs q'. room q' = room q \<and> rs = replicate (length ys) True \<and> rep q' (xs @ ys))"
proof (induction ys arbitrary: q xs)
  case (Cons y ys)
  show ?case
    unfolding each.simps
  proof (rule runs_then [OF push_law [OF Cons(2)]], goal_cases)
    case (1 r q')
    then show ?case using Cons(1) [of q' "xs @ [y]"] Cons(3) by (auto simp: runs_bindp_iff elim!: runs_mono)
  qed
qed simp

lemma pop_each: "rep q (xs @ ys) \<Longrightarrow>
    runs (each (\<lambda>_. pop) xs) q (\<lambda>rs q'. room q' = room q \<and> rs = map Some xs \<and> rep q' ys)"
proof (induction xs arbitrary: q)
  case (Cons x xs)
  show ?case
    unfolding each.simps
  proof (rule runs_then [OF pop_law [OF Cons(2)]], goal_cases)
    case (1 r q')
    then show ?case using Cons(1) [of q'] by (auto simp: runs_bindp_iff elim!: runs_mono)
  qed
qed simp

lemma in_order:
  assumes "rep q []" and "length xs \<le> room q"
  shows "runs (bindp (each push xs) (\<lambda>_. each (\<lambda>_. pop) xs)) q (\<lambda>rs q'. rs = map Some xs \<and> rep q' [])"
proof (rule runs_then [OF push_each [OF assms(1)]], goal_cases)
  case (2 r q')
  then have "runs (each (\<lambda>_. pop) xs) q' (\<lambda>rs q''. room q'' = room q' \<and> rs = map Some xs \<and> rep q'' [])" by (intro pop_each) simp
  then show ?case by (rule runs_mono) simp
qed (use assms(2) in simp)

end

abbreviation bq_op :: "'a qop \<Rightarrow> ('a bqueue, 'a option) prog" where
  "bq_op \<equiv> deque_op bq_push bq_pop_item bq_elim_push bq_push_top bq_pop_bottom_item bq_clear"

interpretation bq: bounded_deque bq_rep bq_capacity bq_push bq_pop_item bq_elim_push bq_push_top bq_pop_bottom_item bq_clear
proof unfold_locales
  fix q :: "'a bqueue" and xs :: "'a list" and x :: 'a
  assume q: "bq_rep q xs"
  show "runs (bq_push x) q (\<lambda>r q'. bq_capacity q' = bq_capacity q \<and> r = (length xs < bq_capacity q) \<and> bq_rep q' (if r then xs @ [x] else xs))"
    by (rule runs_mono [OF bq_push_ok [OF q]]) simp
  show "runs bq_pop_item q (\<lambda>r q'. bq_capacity q' = bq_capacity q \<and> r = (case xs of [] \<Rightarrow> None | x # _ \<Rightarrow> Some x) \<and> bq_rep q' (tl xs))"
    by (rule runs_mono [OF conjunct1 [OF bq_pop_ok [OF q]]]) simp
  show "runs (bq_elim_push x) q (\<lambda>_ q'. bq_capacity q' = bq_capacity q \<and> bq_rep q' (if length xs < bq_capacity q then xs @ [x] else tl xs @ [x]))"
    if "0 < bq_capacity q"
    by (rule runs_mono [OF bq_elim_push_ok [OF q]]) (use that in \<open>simp_all add: word_less_nat_alt\<close>)
  show "runs (bq_push_top x) q (\<lambda>r q'. bq_capacity q' = bq_capacity q \<and> r = (length xs < bq_capacity q) \<and> bq_rep q' (if r then x # xs else xs))"
    by (rule runs_mono [OF bq_push_top_ok [OF q]]) simp
  show "runs bq_pop_bottom_item q (\<lambda>r q'. bq_capacity q' = bq_capacity q \<and> r = (if xs = [] then None else Some (last xs)) \<and> bq_rep q' (butlast xs))"
    by (rule runs_mono [OF conjunct1 [OF bq_pop_bottom_ok [OF q]]]) simp
  show "runs bq_clear q (\<lambda>_ q'. bq_capacity q' = bq_capacity q \<and> bq_rep q' [])"
    by (rule runs_mono [OF bq_clear_ok [OF q]]) simp
qed

interpretation remote: fifo_queue bq_rep bq_capacity remote_push remote_pop
proof unfold_locales
  fix q :: "'a bqueue" and xs :: "'a list" and x :: 'a
  assume q: "bq_rep q xs"
  show "runs (remote_push x) q (\<lambda>r q'. bq_capacity q' = bq_capacity q \<and> r = (length xs < bq_capacity q) \<and> bq_rep q' (if r then xs @ [x] else xs))"
    unfolding remote_push_def by (rule bq.push_law [OF q])
  have "bq_empty q \<longleftrightarrow> xs = []" using q by (cases rule: bq_repE) (auto simp: bq_empty_def unat_eq_zero)
  then show "runs remote_pop q (\<lambda>r q'. bq_capacity q' = bq_capacity q \<and> r = (case xs of [] \<Rightarrow> None | x # _ \<Rightarrow> Some x) \<and> bq_rep q' (tl xs))"
    using bq.pop_law [OF q] q by (cases xs) (simp_all add: remote_pop_def)
qed

lemma new_queue_rep: "0 < n \<Longrightarrow> n \<le> 2 ^ 31 \<Longrightarrow> bq_rep (BoundedQueue_mem n ow) []"
  and new_queue_room: "n \<le> 2 ^ 31 \<Longrightarrow> bq_capacity (BoundedQueue_mem n ow) = n"
  by (auto simp: bq_rep_def BoundedQueue_mem_def cells_def unat_of_nat word_le_nat_alt)

lemma BoundedQueue_cap_eq: "BoundedQueue_cap True n = BoundedQueue_mem n OWNS_STORAGE"
  by (simp add: BoundedQueue_cap_def BoundedQueue_mem_def)

lemma cells_count: "cells l st xs \<Longrightarrow> length (filter (\<lambda>c. c \<noteq> None) l) = length xs"
proof -
  assume c: "cells l st xs"
  have "rotate st l = map Some xs @ replicate (length l - length xs) None"
    using c by (intro nth_equalityI) (auto simp: cells_def nth_rotate nth_append)
  then have "length (filter (\<lambda>c. c \<noteq> None) (rotate st l)) = length xs" by simp
  moreover have "length (filter (\<lambda>c. c \<noteq> None) (rotate st l)) = length (filter (\<lambda>c. c \<noteq> None) l)"
  proof -
    have "length (filter (\<lambda>c. c \<noteq> None) (take k l @ drop k l)) = length (filter (\<lambda>c. c \<noteq> None) (drop k l @ take k l))" for k
      by (simp only: filter_append length_append add.commute)
    then show ?thesis unfolding rotate_drop_take append_take_drop_id by simp
  qed
  ultimately show ?thesis by simp
qed

lemma remote_tasks_in_order:
  assumes "0 < n" and "n \<le> 2 ^ 31" and "length xs \<le> n"
  shows "runs (bindp (remote_init True n) (\<lambda>_. bindp (each remote_push xs) (\<lambda>_. each (\<lambda>_. remote_pop) xs))) BoundedQueue_default
    (\<lambda>rs q. rs = map Some xs \<and> bq_rep q [])"
proof -
  have "runs (remote_init True n) BoundedQueue_default (\<lambda>_ q. q = BoundedQueue_mem n OWNS_STORAGE)"
    by (simp add: remote_init_def BoundedQueue_destroy_def bq_clear_def BoundedQueue_default_def runs_bindp_iff bq_swap_def)
  then show ?thesis
    by (rule runs_then) (use remote.in_order [OF new_queue_rep [OF assms(1,2), of OWNS_STORAGE], of xs] assms(3) in \<open>simp add: new_queue_room [OF assms(2)]\<close>)
qed

section \<open>Properties\<close>

text \<open>C16: The bounded queue is a list. Whatever sequence of its operations is run on a new queue of capacity \<open>n\<close>, at most
  \<open>2 ^ 31\<close>, no operation reads or destroys an item that is not there, leaves the memory or fails to end, each answers what
  the same operation on a list of at most \<open>n\<close> items answers, and the ring holds that list.\<close>

theorem bounded_queue_refines_list:
  assumes "0 < n" and "n \<le> 2 ^ 31"
  shows "runs (each bq_op cs) (BoundedQueue_mem n ow) (\<lambda>rs q. rs = fst (list_ops n cs []) \<and> bq_rep q (snd (list_ops n cs [])))"
  by (rule runs_mono [OF bq.ops_refine [OF new_queue_rep [OF assms, of ow], of cs]]) (simp_all add: new_queue_room [OF assms(2)] assms(1))

theorem bounded_queue_refines_list_witness:
  "runs (each bq_op [Push 1, Push 2, Push 3, ElimPush 4, Pop, PushTop 5, PopBottom, Pop, Pop]) (BoundedQueue_mem 2 OWNS_STORAGE)
     (\<lambda>rs q. rs = [Some 1, Some 2, None, Some 4, Some (2 :: nat), Some 5, Some 4, Some 5, None])"
  by (rule runs_mono [OF bounded_queue_refines_list [of 2 "[Push 1, Push 2, Push 3, ElimPush 4, Pop, PushTop 5, PopBottom, Pop, Pop]"]]) simp_all





end
