(* ===== verification/Work_Stealing.thy ===== *)
theory Work_Stealing
  imports Prelude "HOL-Library.Multiset"
begin

text \<open>
  The work-stealing queue of \<open>src-bthread/work_stealing_queue.h\<close>: one owner pushes and pops at the bottom, any number of
  thieves steal at the top. Every load, store and exchange of a shared variable is one step, and the steps of the
  threads interleave in any order. The fences make the accesses that matter sequentially consistent; weaker orders are
  not modelled. The two counters start at 1 and never reach \<open>2 ^ 64\<close>, so they are natural numbers.
\<close>

unbundle bit_operations_syntax

section \<open>The queue\<close>

record 'a wsq =
  wq_bottom :: nat
  wq_capacity :: nat
  wq_buffer :: "'a list option"
  wq_top :: nat

definition WorkStealingQueue :: "'a wsq" where
  "WorkStealingQueue = \<lparr>wq_bottom = 1, wq_capacity = 0, wq_buffer = None, wq_top = 1\<rparr>"

text \<open>\<open>init\<close>; \<open>d\<close> is what the array is initialised with, and \<open>ok\<close> tells whether it can be allocated.\<close>

definition wq_init :: "'a \<Rightarrow> bool \<Rightarrow> nat \<Rightarrow> 'a wsq \<Rightarrow> int \<times> 'a wsq" where
  "wq_init d ok capacity q =
     (if wq_capacity q \<noteq> 0 then (-1, q)
      else if capacity = 0 then (-1, q)
      else if capacity AND (capacity - 1) \<noteq> 0 then (-1, q)
      else if \<not> ok then (-1, q)
      else (0, q\<lparr>wq_buffer := Some (replicate capacity d), wq_capacity := capacity\<rparr>))"

definition volatile_size :: "'a wsq \<Rightarrow> nat" where
  "volatile_size q = (if wq_bottom q \<le> wq_top q then 0 else wq_bottom q - wq_top q)"

definition wq_slot :: "'a wsq \<Rightarrow> nat \<Rightarrow> nat" where
  "wq_slot q i = i AND (wq_capacity q - 1)"

definition wq_read :: "'a wsq \<Rightarrow> nat \<Rightarrow> 'a" where
  "wq_read q i = the (wq_buffer q) ! wq_slot q i"

definition wq_write :: "nat \<Rightarrow> 'a \<Rightarrow> 'a wsq \<Rightarrow> 'a wsq" where
  "wq_write i x q = q\<lparr>wq_buffer := map_option (\<lambda>l. l[wq_slot q i := x]) (wq_buffer q)\<rparr>"

section \<open>Threads\<close>

text \<open>Where the owner is, with its local variables, and where a thief is. \<open>PopRestore b r\<close> is about to store \<open>b\<close> back
  and to return \<open>r\<close>.\<close>

datatype 'a opc = Idle | Pushing 'a nat | PushWritten 'a nat | Popping nat | PopStored nat | PopLast nat 'a | PopRestore nat

datatype 'a tpc = Away | LoadedTop nat | Checking nat | Reading nat | Swapping nat 'a

text \<open>Beside the queue and the threads, the history: what was pushed, what was taken by whom, and which item has which
  index.\<close>

record 'a wsys =
  wq :: "'a wsq"
  owner :: "'a opc"
  thieves :: "'a tpc list"
  pushed :: "'a list"
  taken :: "'a list"
  item :: "nat \<Rightarrow> 'a"

subsection \<open>push\<close>

definition push_load :: "'a \<Rightarrow> 'a wsys \<Rightarrow> 'a wsys option" where
  "push_load x s = (case owner s of
     Idle \<Rightarrow> let b = wq_bottom (wq s); t = wq_top (wq s) in
       Some (if b \<ge> t + wq_capacity (wq s) then s else s\<lparr>owner := Pushing x b\<rparr>)
   | _ \<Rightarrow> None)"

definition push_write :: "'a wsys \<Rightarrow> 'a wsys option" where
  "push_write s = (case owner s of
     Pushing x b \<Rightarrow> Some (s\<lparr>wq := wq_write b x (wq s), owner := PushWritten x b\<rparr>)
   | _ \<Rightarrow> None)"

definition push_publish :: "'a wsys \<Rightarrow> 'a wsys option" where
  "push_publish s = (case owner s of
     PushWritten x b \<Rightarrow> Some (s\<lparr>wq := (wq s)\<lparr>wq_bottom := b + 1\<rparr>, owner := Idle, pushed := pushed s @ [x], item := (item s)(b := x)\<rparr>)
   | _ \<Rightarrow> None)"

subsection \<open>pop\<close>

definition pop_load :: "'a wsys \<Rightarrow> 'a wsys option" where
  "pop_load s = (case owner s of
     Idle \<Rightarrow> let b = wq_bottom (wq s); t = wq_top (wq s) in Some (if t \<ge> b then s else s\<lparr>owner := Popping b\<rparr>)
   | _ \<Rightarrow> None)"

definition pop_store :: "'a wsys \<Rightarrow> 'a wsys option" where
  "pop_store s = (case owner s of
     Popping b \<Rightarrow> Some (s\<lparr>wq := (wq s)\<lparr>wq_bottom := b - 1\<rparr>, owner := PopStored b\<rparr>)
   | _ \<Rightarrow> None)"

text \<open>The second load of \<open>_top\<close>. The item is read here as well: only the owner writes the array.\<close>

definition pop_check :: "'a wsys \<Rightarrow> 'a wsys option" where
  "pop_check s = (case owner s of
     PopStored b \<Rightarrow> let newb = b - 1; t = wq_top (wq s) in
       if t > newb then Some (s\<lparr>owner := PopRestore b\<rparr>)
       else let v = wq_read (wq s) newb in
         if t \<noteq> newb then Some (s\<lparr>owner := Idle, taken := taken s @ [v]\<rparr>)
         else Some (s\<lparr>owner := PopLast b v\<rparr>)
   | _ \<Rightarrow> None)"

definition pop_cas :: "'a wsys \<Rightarrow> 'a wsys option" where
  "pop_cas s = (case owner s of
     PopLast b v \<Rightarrow>
       if wq_top (wq s) = b - 1 then Some (s\<lparr>wq := (wq s)\<lparr>wq_top := b\<rparr>, owner := PopRestore b, taken := taken s @ [v]\<rparr>)
       else Some (s\<lparr>owner := PopRestore b\<rparr>)
   | _ \<Rightarrow> None)"

definition pop_restore :: "'a wsys \<Rightarrow> 'a wsys option" where
  "pop_restore s = (case owner s of
     PopRestore b \<Rightarrow> Some (s\<lparr>wq := (wq s)\<lparr>wq_bottom := b\<rparr>, owner := Idle\<rparr>)
   | _ \<Rightarrow> None)"

subsection \<open>steal\<close>

definition at_thief :: "nat \<Rightarrow> ('a tpc \<Rightarrow> 'a wsys \<Rightarrow> ('a tpc \<times> 'a wsys) option) \<Rightarrow> 'a wsys \<Rightarrow> 'a wsys option" where
  "at_thief i f s = (if i < length (thieves s) then
     (case f (thieves s ! i) s of None \<Rightarrow> None | Some (p, s') \<Rightarrow> Some (s'\<lparr>thieves := (thieves s')[i := p]\<rparr>)) else None)"

definition steal_load_top :: "'a tpc \<Rightarrow> 'a wsys \<Rightarrow> ('a tpc \<times> 'a wsys) option" where
  "steal_load_top p s = (case p of Away \<Rightarrow> Some (LoadedTop (wq_top (wq s)), s) | _ \<Rightarrow> None)"

definition steal_load_bottom :: "'a tpc \<Rightarrow> 'a wsys \<Rightarrow> ('a tpc \<times> 'a wsys) option" where
  "steal_load_bottom p s = (case p of
     LoadedTop t \<Rightarrow> Some (if t \<ge> wq_bottom (wq s) then Away else Checking t, s) | _ \<Rightarrow> None)"

text \<open>The loop: the check, the read, and the exchange, which on failure loads \<open>_top\<close> anew.\<close>

definition steal_check :: "'a tpc \<Rightarrow> 'a wsys \<Rightarrow> ('a tpc \<times> 'a wsys) option" where
  "steal_check p s = (case p of
     Checking t \<Rightarrow> Some (if t \<ge> wq_bottom (wq s) then Away else Reading t, s) | _ \<Rightarrow> None)"

definition steal_read :: "'a tpc \<Rightarrow> 'a wsys \<Rightarrow> ('a tpc \<times> 'a wsys) option" where
  "steal_read p s = (case p of Reading t \<Rightarrow> Some (Swapping t (wq_read (wq s) t), s) | _ \<Rightarrow> None)"

definition steal_cas :: "'a tpc \<Rightarrow> 'a wsys \<Rightarrow> ('a tpc \<times> 'a wsys) option" where
  "steal_cas p s = (case p of
     Swapping t v \<Rightarrow>
       if wq_top (wq s) = t then Some (Away, s\<lparr>wq := (wq s)\<lparr>wq_top := t + 1\<rparr>, taken := taken s @ [v]\<rparr>)
       else Some (Checking (wq_top (wq s)), s)
   | _ \<Rightarrow> None)"

section \<open>Runs\<close>

datatype 'a wact = PushLoad 'a | PushWrite | PushPublish | PopLoad | PopStore | PopCheck | PopCas | PopRestored
  | StealLoadTop nat | StealLoadBottom nat | StealCheck nat | StealRead nat | StealCas nat

fun wstep :: "'a wact \<Rightarrow> 'a wsys \<Rightarrow> 'a wsys option" where
  "wstep (PushLoad x) s = push_load x s"
| "wstep PushWrite s = push_write s"
| "wstep PushPublish s = push_publish s"
| "wstep PopLoad s = pop_load s"
| "wstep PopStore s = pop_store s"
| "wstep PopCheck s = pop_check s"
| "wstep PopCas s = pop_cas s"
| "wstep PopRestored s = pop_restore s"
| "wstep (StealLoadTop i) s = at_thief i steal_load_top s"
| "wstep (StealLoadBottom i) s = at_thief i steal_load_bottom s"
| "wstep (StealCheck i) s = at_thief i steal_check s"
| "wstep (StealRead i) s = at_thief i steal_read s"
| "wstep (StealCas i) s = at_thief i steal_cas s"

definition wq_start :: "'a \<Rightarrow> nat \<Rightarrow> nat \<Rightarrow> 'a wsys" where
  "wq_start d capacity n = \<lparr>wq = snd (wq_init d True capacity WorkStealingQueue), owner = Idle, thieves = replicate n Away,
     pushed = [], taken = [], item = (\<lambda>_. d)\<rparr>"

inductive wreach :: "'a \<Rightarrow> nat \<Rightarrow> nat \<Rightarrow> 'a wsys \<Rightarrow> bool" for d capacity n where
  init: "wreach d capacity n (wq_start d capacity n)"
| step: "wreach d capacity n s \<Longrightarrow> wstep a s = Some s' \<Longrightarrow> wreach d capacity n s'"

fun wrun :: "'a wact list \<Rightarrow> 'a wsys \<Rightarrow> 'a wsys option" where
  "wrun [] s = Some s"
| "wrun (a # as) s = (case wstep a s of None \<Rightarrow> None | Some s' \<Rightarrow> wrun as s')"

section \<open>The invariant\<close>

text \<open>Where the items end. While the owner is at the last steps of \<open>pop\<close>, the item below \<open>b\<close> still counts.\<close>

definition fin :: "'a wsys \<Rightarrow> nat" where
  "fin s = (case owner s of PopStored b \<Rightarrow> b | PopLast b _ \<Rightarrow> b | PopRestore b \<Rightarrow> b | _ \<Rightarrow> wq_bottom (wq s))"

definition buf_inv :: "'a wsys \<Rightarrow> bool" where
  "buf_inv s \<longleftrightarrow> (\<exists>k. wq_capacity (wq s) = 2 ^ k) \<and> (\<exists>l. wq_buffer (wq s) = Some l \<and> length l = wq_capacity (wq s)) \<and>
     wq_top (wq s) \<le> fin s \<and> fin s \<le> wq_top (wq s) + wq_capacity (wq s) \<and>
     (\<forall>i. wq_top (wq s) \<le> i \<and> i < fin s \<longrightarrow> wq_read (wq s) i = item s i)"

definition owner_inv :: "'a wsys \<Rightarrow> bool" where
  "owner_inv s \<longleftrightarrow> (let b' = wq_bottom (wq s); t = wq_top (wq s) in case owner s of
     Idle \<Rightarrow> True
   | Pushing x b \<Rightarrow> b = b' \<and> b < t + wq_capacity (wq s)
   | PushWritten x b \<Rightarrow> b = b' \<and> b < t + wq_capacity (wq s) \<and> wq_read (wq s) b = x
   | Popping b \<Rightarrow> b = b' \<and> 0 < b
   | PopStored b \<Rightarrow> b' = b - 1 \<and> 0 < b
   | PopLast b v \<Rightarrow> b' = b - 1 \<and> 0 < b \<and> b - 1 \<le> t \<and> (t = b - 1 \<longrightarrow> v = item s (b - 1))
   | PopRestore b \<Rightarrow> b' = b - 1 \<and> 0 < b \<and> t = b)"

fun thief_ok :: "'a wsys \<Rightarrow> 'a tpc \<Rightarrow> bool" where
  "thief_ok s Away = True"
| "thief_ok s (LoadedTop t) = (t \<le> wq_top (wq s))"
| "thief_ok s (Checking t) = (t \<le> wq_top (wq s))"
| "thief_ok s (Reading t) = (t \<le> wq_top (wq s) \<and> (t = wq_top (wq s) \<longrightarrow> t < fin s))"
| "thief_ok s (Swapping t v) = (t \<le> wq_top (wq s) \<and> (t = wq_top (wq s) \<longrightarrow> t < fin s \<and> v = item s t))"

definition contents :: "'a wsys \<Rightarrow> 'a list" where
  "contents s = map (item s) [wq_top (wq s)..<fin s]"

definition winv :: "'a wsys \<Rightarrow> bool" where
  "winv s \<longleftrightarrow> buf_inv s \<and> owner_inv s \<and> list_all (thief_ok s) (thieves s) \<and> mset (pushed s) = mset (taken s) + mset (contents s)"

lemma slot_mod: "wq_capacity q = 2 ^ k \<Longrightarrow> wq_slot q i = i mod wq_capacity q"
  unfolding wq_slot_def by (metis mask_eq_exp_minus_1 take_bit_eq_mask take_bit_eq_mod)

lemma wq_read_write:
  assumes "wq_capacity q = 2 ^ k" and "wq_buffer q = Some l" "length l = wq_capacity q"
  shows "wq_read (wq_write b x q) i = (if i mod wq_capacity q = b mod wq_capacity q then x else wq_read q i)"
proof -
  have "wq_slot (wq_write b x q) i = wq_slot q i" by (simp add: wq_slot_def wq_write_def)
  moreover have "b mod wq_capacity q < length l" using assms by simp
  ultimately show ?thesis using assms slot_mod [OF assms(1)] by (simp add: wq_read_def wq_write_def nth_list_update)
qed

lemma wq_fields [simp]:
  "wq_bottom (wq_write b x q) = wq_bottom q" "wq_top (wq_write b x q) = wq_top q" "wq_capacity (wq_write b x q) = wq_capacity q"
  by (simp_all add: wq_write_def)

lemma wq_read_fields [simp]: "wq_read (q\<lparr>wq_bottom := n\<rparr>) i = wq_read q i" "wq_read (q\<lparr>wq_top := n\<rparr>) i = wq_read q i"
  by (simp_all add: wq_read_def wq_slot_def)

lemma thief_stays:
  assumes "list_all (thief_ok s) ps" and "wq_top (wq s') = wq_top (wq s)"
    and "wq_top (wq s) < fin s \<Longrightarrow> wq_top (wq s) < fin s' \<and> item s' (wq_top (wq s)) = item s (wq_top (wq s))"
  shows "list_all (thief_ok s') ps"
proof -
  have "thief_ok s p \<Longrightarrow> thief_ok s' p" for p using assms(2,3) by (cases p) auto
  then show ?thesis using assms(1) by (simp add: list_all_iff)
qed

lemma thief_late:
  assumes "list_all (thief_ok s) ps" and "wq_top (wq s) < wq_top (wq s')"
  shows "list_all (thief_ok s') ps"
proof -
  have "thief_ok s p \<Longrightarrow> thief_ok s' p" for p using assms(2) by (cases p) auto
  then show ?thesis using assms(1) by (simp add: list_all_iff)
qed

lemma winvD:
  assumes "winv s"
  obtains k l where "wq_capacity (wq s) = 2 ^ k" "wq_buffer (wq s) = Some l" "length l = wq_capacity (wq s)" "wq_top (wq s) \<le> fin s"
    "fin s \<le> wq_top (wq s) + wq_capacity (wq s)" "\<And>i. wq_top (wq s) \<le> i \<Longrightarrow> i < fin s \<Longrightarrow> wq_read (wq s) i = item s i"
    "owner_inv s" "list_all (thief_ok s) (thieves s)" "mset (pushed s) = mset (taken s) + mset (contents s)"
  using assms unfolding winv_def buf_inv_def by blast

lemma near_slots: "t \<le> i \<Longrightarrow> i < b \<Longrightarrow> b < t + c \<Longrightarrow> i mod c \<noteq> b mod (c :: nat)"
proof
  assume a: "t \<le> i" "i < b" "b < t + c" and e: "i mod c = b mod c"
  have "(t + (i - t)) mod c = (t + (b - t)) mod c" using a e by simp
  then have "i - t = b - t" by (rule mod_slots) (use a in linarith)+
  then show False using a by linarith
qed

section \<open>Every step keeps it\<close>

lemma winvI:
  assumes "wq_capacity (wq s) = 2 ^ k" "wq_buffer (wq s) = Some l" "length l = wq_capacity (wq s)" "wq_top (wq s) \<le> fin s"
    "fin s \<le> wq_top (wq s) + wq_capacity (wq s)" "\<And>i. wq_top (wq s) \<le> i \<Longrightarrow> i < fin s \<Longrightarrow> wq_read (wq s) i = item s i"
    "owner_inv s" "list_all (thief_ok s) (thieves s)" "mset (pushed s) = mset (taken s) + mset (contents s)"
  shows "winv s"
  using assms unfolding winv_def buf_inv_def by blast

text \<open>A step of the owner that changes neither the end of the items nor the items.\<close>

lemma quiet_step:
  assumes w: "winv s" and s': "wq_capacity (wq s') = wq_capacity (wq s)" "wq_buffer (wq s') = wq_buffer (wq s)" "wq_top (wq s') = wq_top (wq s)"
    "fin s' = fin s" "item s' = item s" "thieves s' = thieves s" "pushed s' = pushed s" "taken s' = taken s" and o: "owner_inv s'"
  shows "winv s'"
  using w
proof (rule winvD)
  fix k l
  assume h: "wq_capacity (wq s) = 2 ^ k" "wq_buffer (wq s) = Some l" "length l = wq_capacity (wq s)" "wq_top (wq s) \<le> fin s"
    "fin s \<le> wq_top (wq s) + wq_capacity (wq s)" "\<And>i. wq_top (wq s) \<le> i \<Longrightarrow> i < fin s \<Longrightarrow> wq_read (wq s) i = item s i"
    "owner_inv s" "list_all (thief_ok s) (thieves s)" "mset (pushed s) = mset (taken s) + mset (contents s)"
  have "list_all (thief_ok s') (thieves s)" by (rule thief_stays [OF h(8)]) (simp_all add: s')
  then show "winv s'"
    using h s' o by (intro winvI) (auto simp: contents_def wq_read_def wq_slot_def)
qed

lemma push_load_inv: "winv s \<Longrightarrow> push_load x s = Some s' \<Longrightarrow> winv s'"
  by (cases "owner s"; rule quiet_step [of s]) (auto simp: push_load_def Let_def fin_def owner_inv_def winv_def split: if_splits)

lemma pop_load_inv: "winv s \<Longrightarrow> pop_load s = Some s' \<Longrightarrow> winv s'"
  by (cases "owner s"; rule quiet_step [of s]) (auto simp: pop_load_def Let_def fin_def owner_inv_def winv_def split: if_splits)

lemma pop_store_inv: "winv s \<Longrightarrow> pop_store s = Some s' \<Longrightarrow> winv s'"
  by (cases "owner s"; rule quiet_step [of s]) (auto simp: pop_store_def Let_def fin_def owner_inv_def winv_def)

lemma pop_restore_inv: "winv s \<Longrightarrow> pop_restore s = Some s' \<Longrightarrow> winv s'"
  by (cases "owner s"; rule quiet_step [of s]) (auto simp: pop_restore_def Let_def fin_def owner_inv_def winv_def)

lemma push_write_inv:
  assumes w: "winv s" and st: "push_write s = Some s'"
  shows "winv s'"
proof -
  from st obtain x b where o: "owner s = Pushing x b" and s': "s' = s\<lparr>wq := wq_write b x (wq s), owner := PushWritten x b\<rparr>"
    by (auto simp: push_write_def split: opc.splits)
  from w show ?thesis
  proof (rule winvD)
    fix k l
    assume h: "wq_capacity (wq s) = 2 ^ k" "wq_buffer (wq s) = Some l" "length l = wq_capacity (wq s)" "wq_top (wq s) \<le> fin s"
      "fin s \<le> wq_top (wq s) + wq_capacity (wq s)" "\<And>i. wq_top (wq s) \<le> i \<Longrightarrow> i < fin s \<Longrightarrow> wq_read (wq s) i = item s i"
      "owner_inv s" "list_all (thief_ok s) (thieves s)" "mset (pushed s) = mset (taken s) + mset (contents s)"
    have b: "b = wq_bottom (wq s)" "b < wq_top (wq s) + wq_capacity (wq s)" "fin s = b" "fin s' = b"
      using h(7) o s' by (simp_all add: owner_inv_def fin_def Let_def)
    note rd = wq_read_write [OF h(1-3), of b x]
    have "list_all (thief_ok s') (thieves s)" by (rule thief_stays [OF h(8)]) (use b(3,4) s' in simp_all)
    moreover have "wq_read (wq s') i = item s' i" if "wq_top (wq s') \<le> i" "i < fin s'" for i
      using that near_slots [OF _ _ b(2), of i] h(6) b(3,4) s' rd by auto
    moreover have "contents s' = contents s" using s' b(3,4) by (simp add: contents_def)
    ultimately show "winv s'"
      using h b rd s' by (intro winvI [of _ k "l[wq_slot (wq s) b := x]"]) (auto simp: owner_inv_def Let_def wq_write_def)
  qed
qed

lemma push_publish_inv:
  assumes w: "winv s" and st: "push_publish s = Some s'"
  shows "winv s'"
proof -
  from st obtain x b where o: "owner s = PushWritten x b"
    and s': "s' = s\<lparr>wq := (wq s)\<lparr>wq_bottom := b + 1\<rparr>, owner := Idle, pushed := pushed s @ [x], item := (item s)(b := x)\<rparr>"
    by (auto simp: push_publish_def split: opc.splits)
  from w show ?thesis
  proof (rule winvD)
    fix k l
    assume h: "wq_capacity (wq s) = 2 ^ k" "wq_buffer (wq s) = Some l" "length l = wq_capacity (wq s)" "wq_top (wq s) \<le> fin s"
      "fin s \<le> wq_top (wq s) + wq_capacity (wq s)" "\<And>i. wq_top (wq s) \<le> i \<Longrightarrow> i < fin s \<Longrightarrow> wq_read (wq s) i = item s i"
      "owner_inv s" "list_all (thief_ok s) (thieves s)" "mset (pushed s) = mset (taken s) + mset (contents s)"
    have b: "b < wq_top (wq s) + wq_capacity (wq s)" "fin s = b" "fin s' = Suc b" "wq_read (wq s) b = x"
      using h(7) o s' by (auto simp: owner_inv_def fin_def Let_def)
    have "list_all (thief_ok s') (thieves s)" by (rule thief_stays [OF h(8)]) (use s' b in auto)
    moreover have "contents s' = contents s @ [x]" using s' b(2,3) h(4) by (simp add: contents_def)
    ultimately show "winv s'"
      using h b s' by (intro winvI [of _ k l]) (auto simp: owner_inv_def Let_def less_Suc_eq)
  qed
qed

lemma pop_check_inv:
  assumes w: "winv s" and st: "pop_check s = Some s'"
  shows "winv s'"
proof -
  let ?t = "wq_top (wq s)"
  from st obtain b where o: "owner s = PopStored b" by (auto simp: pop_check_def split: opc.splits)
  from w show ?thesis
  proof (rule winvD)
    fix k l
    assume h: "wq_capacity (wq s) = 2 ^ k" "wq_buffer (wq s) = Some l" "length l = wq_capacity (wq s)" "?t \<le> fin s"
      "fin s \<le> ?t + wq_capacity (wq s)" "\<And>i. ?t \<le> i \<Longrightarrow> i < fin s \<Longrightarrow> wq_read (wq s) i = item s i"
      "owner_inv s" "list_all (thief_ok s) (thieves s)" "mset (pushed s) = mset (taken s) + mset (contents s)"
    have b: "wq_bottom (wq s) = b - 1" "0 < b" "fin s = b" using h(7) o by (simp_all add: owner_inv_def fin_def Let_def)
    consider "?t > b - 1" "s' = s\<lparr>owner := PopRestore b\<rparr>"
      | "?t < b - 1" "s' = s\<lparr>owner := Idle, taken := taken s @ [wq_read (wq s) (b - 1)]\<rparr>"
      | "?t = b - 1" "s' = s\<lparr>owner := PopLast b (wq_read (wq s) (b - 1))\<rparr>"
      using st o by (auto simp: pop_check_def Let_def split: if_splits)
    then show "winv s'"
    proof cases
      case 1
      then show ?thesis using h(4) b by (intro quiet_step [OF w]) (auto simp: fin_def owner_inv_def Let_def)
    next
      case 2
      have v: "wq_read (wq s) (b - 1) = item s (b - 1)" using h(6) [of "b - 1"] 2(1) b by simp
      have f: "fin s' = b - 1" using 2(2) b(1) by (simp add: fin_def)
      have "[?t..<b] = [?t..<b - 1] @ [b - 1]" using 2(1) b(2) upt_Suc_append [of ?t "b - 1"] by simp
      then have "contents s = contents s' @ [item s (b - 1)]" using 2(2) b(3) f by (simp add: contents_def)
      moreover have "list_all (thief_ok s') (thieves s)" by (rule thief_stays [OF h(8)]) (use 2 f in auto)
      ultimately show ?thesis
        using h 2 b f v by (intro winvI [of _ k l]) (auto simp: owner_inv_def Let_def)
    next
      case 3
      have "wq_read (wq s) (b - 1) = item s (b - 1)" using h(6) [of "b - 1"] 3(1) b by simp
      then show ?thesis using 3 b by (intro quiet_step [OF w]) (auto simp: fin_def owner_inv_def Let_def)
    qed
  qed
qed

lemma pop_cas_inv:
  assumes w: "winv s" and st: "pop_cas s = Some s'"
  shows "winv s'"
proof -
  let ?t = "wq_top (wq s)"
  from st obtain b v where o: "owner s = PopLast b v" by (auto simp: pop_cas_def split: opc.splits)
  from w show ?thesis
  proof (rule winvD)
    fix k l
    assume h: "wq_capacity (wq s) = 2 ^ k" "wq_buffer (wq s) = Some l" "length l = wq_capacity (wq s)" "?t \<le> fin s"
      "fin s \<le> ?t + wq_capacity (wq s)" "\<And>i. ?t \<le> i \<Longrightarrow> i < fin s \<Longrightarrow> wq_read (wq s) i = item s i"
      "owner_inv s" "list_all (thief_ok s) (thieves s)" "mset (pushed s) = mset (taken s) + mset (contents s)"
    have b: "wq_bottom (wq s) = b - 1" "0 < b" "fin s = b" "b - 1 \<le> ?t" "?t = b - 1 \<longrightarrow> v = item s (b - 1)"
      using h(7) o by (simp_all add: owner_inv_def fin_def Let_def)
    show "winv s'"
    proof (cases "?t = b - 1")
      case True
      then have s': "s' = s\<lparr>wq := (wq s)\<lparr>wq_top := b\<rparr>, owner := PopRestore b, taken := taken s @ [v]\<rparr>" using st o by (simp add: pop_cas_def)
      have "[b - 1..<b] = [b - 1]" using b(2) by (simp add: upt_rec)
      then have "contents s = [v]" "contents s' = []" using True b(3,5) s' by (simp_all add: contents_def fin_def)
      moreover have "list_all (thief_ok s') (thieves s)" by (rule thief_late [OF h(8)]) (use True s' b(2) in simp)
      ultimately show ?thesis
        using h b s' by (intro winvI [of _ k l]) (auto simp: owner_inv_def fin_def Let_def)
    next
      case False
      then show ?thesis
        using st o b h(4) by (intro quiet_step [OF w]) (auto simp: pop_cas_def fin_def owner_inv_def Let_def)
    qed
  qed
qed

lemma thief_step:
  assumes w: "winv s" and p: "thief_ok s p"
  shows "winv (s\<lparr>thieves := (thieves s)[i := p]\<rparr>)" (is "winv ?s")
proof -
  have e: "fin ?s = fin s" "contents ?s = contents s" "owner_inv ?s = owner_inv s" "buf_inv ?s = buf_inv s"
    by (simp_all add: fin_def contents_def owner_inv_def buf_inv_def cong: opc.case_cong)
  have "thief_ok ?s q = thief_ok s q" for q by (cases q) (simp_all add: e)
  moreover have "list_all (thief_ok s) ((thieves s)[i := p])"
    using w p set_update_subset_insert [of "thieves s" i p] by (auto simp: winv_def list_all_iff)
  ultimately show ?thesis using w e by (simp add: winv_def list_all_iff)
qed

lemma steal_cas_inv:
  assumes w: "winv s" and i: "i < length (thieves s)" "thieves s ! i = Swapping t v" "wq_top (wq s) = t"
  shows "winv (s\<lparr>wq := (wq s)\<lparr>wq_top := t + 1\<rparr>, taken := taken s @ [v], thieves := (thieves s)[i := Away]\<rparr>)" (is "winv ?s")
  using w
proof (rule winvD)
  fix k l
  assume h: "wq_capacity (wq s) = 2 ^ k" "wq_buffer (wq s) = Some l" "length l = wq_capacity (wq s)" "wq_top (wq s) \<le> fin s"
    "fin s \<le> wq_top (wq s) + wq_capacity (wq s)" "\<And>i. wq_top (wq s) \<le> i \<Longrightarrow> i < fin s \<Longrightarrow> wq_read (wq s) i = item s i"
    "owner_inv s" "list_all (thief_ok s) (thieves s)" "mset (pushed s) = mset (taken s) + mset (contents s)"
  have tv: "t < fin s" "v = item s t" using h(8) i by (auto simp: list_all_length)
  have f: "fin ?s = fin s" by (simp add: fin_def cong: opc.case_cong)
  have "contents s = v # contents ?s" using tv i(3) f by (simp add: contents_def upt_conv_Cons)
  moreover have "list_all (thief_ok ?s) ((thieves s)[i := Away])"
    using thief_late [OF h(8), of ?s] i(3) set_update_subset_insert [of "thieves s" i Away] by (auto simp: list_all_iff)
  moreover have "owner_inv ?s" using h(7) tv(1) i(3) by (auto simp: owner_inv_def fin_def Let_def split: opc.splits)
  ultimately show "winv ?s" using h tv i(3) f by (intro winvI [of _ k l]) auto
qed

lemma at_thief_inv:
  assumes w: "winv s" and st: "at_thief i f s = Some s'" and f: "f \<in> {steal_load_top, steal_load_bottom, steal_check, steal_read, steal_cas}"
  shows "winv s'"
proof -
  have i: "i < length (thieves s)" using st by (auto simp: at_thief_def split: if_splits)
  have ok: "thief_ok s (thieves s ! i)" using w i by (simp add: winv_def list_all_length)
  have fb: "wq_bottom (wq s) \<le> fin s" using w by (auto simp: winv_def owner_inv_def fin_def Let_def split: opc.splits)
  have rd: "t < fin s \<Longrightarrow> wq_top (wq s) \<le> t \<Longrightarrow> wq_read (wq s) t = item s t" for t using w by (simp add: winv_def buf_inv_def)
  show ?thesis
  proof (cases "\<exists>v. f = steal_cas \<and> thieves s ! i = Swapping (wq_top (wq s)) v")
    case True
    then show ?thesis using st i steal_cas_inv [OF w i] by (auto simp: at_thief_def steal_cas_def)
  next
    case False
    then obtain p where "s' = s\<lparr>thieves := (thieves s)[i := p]\<rparr>" "thief_ok s p"
      using st f i ok fb rd
      by (auto simp: at_thief_def steal_load_top_def steal_load_bottom_def steal_check_def steal_read_def steal_cas_def split: tpc.splits if_splits)
    then show ?thesis using thief_step [OF w] by simp
  qed
qed

lemma wstep_inv: "winv s \<Longrightarrow> wstep a s = Some s' \<Longrightarrow> winv s'"
  by (cases a) (auto intro: push_load_inv push_write_inv push_publish_inv pop_load_inv pop_store_inv pop_check_inv pop_cas_inv pop_restore_inv at_thief_inv)

lemma power_of_two_ok: "(2 :: nat) ^ k AND (2 ^ k - 1) = 0"
proof -
  have "(2 :: nat) ^ k AND (2 ^ k - 1) = 2 ^ k mod 2 ^ k" by (metis mask_eq_exp_minus_1 take_bit_eq_mask take_bit_eq_mod)
  then show ?thesis by simp
qed

lemma wq_start_inv: "winv (wq_start d (2 ^ k) n)"
  using power_of_two_ok [of k]
  by (intro winvI [of _ k "replicate (2 ^ k) d"])
    (auto simp: wq_start_def wq_init_def WorkStealingQueue_def fin_def owner_inv_def contents_def list_all_iff)

lemma wreach_inv: "wreach d (2 ^ k) n s \<Longrightarrow> winv s"
  by (induction rule: wreach.induct) (auto intro: wq_start_inv wstep_inv)

lemma wrun_reach: "wreach d capacity n s \<Longrightarrow> wrun as s = Some s' \<Longrightarrow> wreach d capacity n s'"
  by (induction as arbitrary: s) (auto split: option.splits intro: wreach.step)

section \<open>Properties\<close>

text \<open>C15: No task is lost and none is run twice. However the steps of the owner and of any number of thieves interleave, what
  was pushed is what was popped or stolen together with what is still in the queue, item by item; the queue never holds
  more than its capacity; and between two operations of the owner the items are those between top and bottom.\<close>

theorem every_task_taken_once:
  assumes "wreach d (2 ^ k) n s"
  shows "mset (pushed s) = mset (taken s) + mset (contents s) \<and> length (contents s) \<le> 2 ^ k \<and>
    (owner s = Idle \<longrightarrow> contents s = map (wq_read (wq s)) [wq_top (wq s)..<wq_bottom (wq s)] \<and> volatile_size (wq s) = length (contents s))"
proof -
  have cap: "wq_capacity (wq s) = 2 ^ k"
    using assms
  proof (induction rule: wreach.induct)
    case init
    then show ?case using power_of_two_ok [of k] by (simp add: wq_start_def wq_init_def WorkStealingQueue_def)
  next
    case (step s a s')
    then show ?case
      by (cases a) (auto simp: push_load_def push_write_def push_publish_def pop_load_def pop_store_def pop_check_def pop_cas_def pop_restore_def
          at_thief_def steal_load_top_def steal_load_bottom_def steal_check_def steal_read_def steal_cas_def Let_def
          split: opc.splits tpc.splits if_splits option.splits)
  qed
  have w: "buf_inv s" "mset (pushed s) = mset (taken s) + mset (contents s)" using wreach_inv [OF assms] by (simp_all add: winv_def)
  have "length (contents s) \<le> 2 ^ k" using w(1) cap by (auto simp: buf_inv_def contents_def)
  moreover have "contents s = map (wq_read (wq s)) [wq_top (wq s)..<wq_bottom (wq s)] \<and> volatile_size (wq s) = length (contents s)" if "owner s = Idle"
    using w(1) that by (auto simp: buf_inv_def contents_def fin_def volatile_size_def)
  ultimately show ?thesis using w(2) by blast
qed

definition demo_steal :: "nat wact list" where
  "demo_steal = [PushLoad 7, PushWrite, PushPublish, PushLoad 8, StealLoadTop 0, PushWrite, PushPublish, StealLoadBottom 0, PopLoad, StealCheck 0,
     PopStore, StealRead 0, PopCheck, PopLoad, PopStore, StealCas 0, PopCheck, PopRestored]"

lemma demo_steal_run: "\<exists>s. wrun demo_steal (wq_start 0 (2 ^ 1) 1) = Some s \<and> taken s = [8, 7] \<and> pushed s = [7, 8] \<and> owner s = Idle"
  by (simp add: demo_steal_def wq_start_def wq_init_def WorkStealingQueue_def push_load_def push_write_def push_publish_def pop_load_def pop_store_def
      pop_check_def pop_restore_def at_thief_def steal_load_top_def steal_load_bottom_def steal_check_def steal_read_def steal_cas_def
      wq_write_def wq_read_def wq_slot_def Let_def numeral_2_eq_2)

theorem every_task_taken_once_witness:
  "\<exists>s. wrun demo_steal (wq_start 0 (2 ^ 1) 1) = Some s \<and> taken s = [8, 7] \<and> contents s = [] \<and> volatile_size (wq s) = 0"
proof -
  obtain s where s: "wrun demo_steal (wq_start 0 (2 ^ 1) 1) = Some s" "taken s = [8, 7]" "pushed s = [7, 8]" "owner s = Idle"
    using demo_steal_run by blast
  have "wreach 0 (2 ^ 1) 1 s" by (rule wrun_reach [OF wreach.init s(1)])
  from every_task_taken_once [OF this] show ?thesis using s by (intro exI [of _ s]) auto
qed

end
