(* ===== verification/Spec2Isabelle.thy ===== *)
theory Spec2Isabelle
  imports Prelude Large_Block Pool_Allocator Message_Framing Event_Dispatcher Hello_Message Endpoint_Credits Bounded_Queue Work_Stealing
begin

text \<open>
  light-rpc: a verification development of the RDMA RPC library.
\<close>

end
